(* ===== verification/Hojicha_Prelude.thy ===== *)
theory Hojicha_Prelude
  imports Main "HOL-Library.Word"
begin

unbundle bit_operations_syntax

text \<open>
  What the components of the development share: names for the machine integers of the C
  sources, the rewrite rules that turn shifts and masks of 64-bit words into division and
  remainder on \<open>nat\<close>, and the relational view of a singly linked list that lives in a
  \<open>next\<close> field of some objects.

  Conventions of the whole development:
  \<^item> \<open>uint8_t\<close>, \<open>uint32_t\<close>, \<open>uint64_t\<close>, \<open>haddr_t\<close> and \<open>size_t\<close> are words of that width;
  \<^item> a pointer that may be \<open>NULL\<close> is an \<open>option\<close>; a by-reference parameter that names an
    object the caller owns is the object itself, returned updated, so that the guard
    \<open>p == NULL\<close> on it has no counterpart;
  \<^item> an out-parameter is a component of the result;
  \<^item> a loop that follows pointers of the heap is a \<open>partial_function (option)\<close>: \<open>None\<close> is a
    loop that does not end.
\<close>

section \<open>Machine integers\<close>

type_synonym u8 = "8 word"
type_synonym u16 = "16 word"
type_synonym u32 = "32 word"
type_synonym u64 = "64 word"
type_synonym haddr = "64 word"

text \<open>\<open>word_nat\<close> collects the rules that move a goal on words to \<open>nat\<close>.\<close>

named_theorems word_nat

declare word_less_nat_alt [word_nat] word_le_nat_alt [word_nat]

lemma unat_shiftr [word_nat]: "unat (drop_bit n (x :: 'a::len word)) = unat x div 2 ^ n"
  by (metis drop_bit_eq_div unat_drop_bit_eq)

lemma unat_take_bit [word_nat]: "unat (take_bit n (x :: 'a::len word)) = unat x mod 2 ^ n"
  by (metis take_bit_eq_mod unsigned_take_bit_eq)

lemma and_mask_take_bit: "(x :: 'a::len word) AND mask n = take_bit n x"
  by (simp add: take_bit_eq_mask)

lemma and_not_mask_minus: "(x :: 'a::len word) AND NOT (mask n) = x - take_bit n x"
proof -
  have "x - (x AND mask n) = x AND NOT (x AND mask n)"
    by (rule disjunctive_diff) (simp add: bit_and_iff)
  also have "\<dots> = x AND NOT (mask n)"
    by (rule bit_eqI) (auto simp: bit_simps)
  finally show ?thesis by (simp only: and_mask_take_bit)
qed

lemma unat_and_not_mask: "unat ((x :: 'a::len word) AND NOT (mask n)) = unat x - unat x mod 2 ^ n"
proof -
  have "take_bit n x \<le> x" by (simp add: word_le_nat_alt unat_take_bit)
  then show ?thesis by (simp only: and_not_mask_minus unat_sub unat_take_bit)
qed

lemma unat_and_7 [word_nat]: "unat ((x :: u64) AND 7) = unat x mod 8"
proof -
  have "(7 :: u64) = mask 3" by (simp add: mask_eq_exp_minus_1)
  then show ?thesis using unat_take_bit [of 3 x] by (simp only: and_mask_take_bit) simp
qed

lemma unat_and_4095 [word_nat]: "unat ((x :: u64) AND 4095) = unat x mod 4096"
proof -
  have "(4095 :: u64) = mask 12" by (simp add: mask_eq_exp_minus_1)
  then show ?thesis using unat_take_bit [of 12 x] by (simp only: and_mask_take_bit) simp
qed

lemma unat_and_not_4095 [word_nat]: "unat ((x :: u64) AND NOT 4095) = unat x - unat x mod 4096"
proof -
  have "(4095 :: u64) = mask 12" by (simp add: mask_eq_exp_minus_1)
  then show ?thesis using unat_and_not_mask [of x 12] by (simp only:) simp
qed

lemma unat_u64_less: "unat (x :: u64) < 18446744073709551616"
  using unsigned_less [of x] by simp

lemma unat_u64_max [simp]: "unat (- 1 :: u64) = 18446744073709551615"
  by (simp add: unsigned_minus_1_eq_mask mask_eq_exp_minus_1)

lemma unat_add_small:
  "unat (x :: u64) + unat y < 18446744073709551616 \<Longrightarrow> unat (x + y) = unat x + unat y"
  by (simp add: unat_word_ariths)

lemma unat_suc_small: "unat (x :: u64) + 1 < 18446744073709551616 \<Longrightarrow> unat (x + 1) = unat x + 1"
  by (simp add: unat_word_ariths)

lemma unat_sub_small: "y \<le> (x :: u64) \<Longrightarrow> unat (x - y) = unat x - unat y"
  by (rule unat_sub)

lemma unat_of_nat_small:
  "n < 18446744073709551616 \<Longrightarrow> unat (word_of_nat n :: u64) = n"
  by (simp add: unat_of_nat take_bit_eq_mod)

lemma unat_inj: "unat (x :: 'a::len word) = unat y \<Longrightarrow> x = y"
  by (rule word_unat_eq_iff [THEN iffD2])

section \<open>Single bytes\<close>

lemma byte_mask_low: "bit ((push_bit k 1 :: u8) - 1) n \<longleftrightarrow> n < 8 \<and> n < k"
proof -
  have "(push_bit k 1 :: u8) - 1 = mask k" by (simp add: mask_eq_exp_minus_1 push_bit_of_1)
  then show ?thesis by (simp only: bit_mask_iff possible_bit_word) simp
qed

lemma byte_all_ones: "(255 :: u8) = mask 8"
  by (simp add: mask_eq_exp_minus_1)

lemma byte_mask_high: "bit (push_bit k (255 :: u8)) n \<longleftrightarrow> k \<le> n \<and> n < 8"
  by (simp only: byte_all_ones bit_push_bit_iff bit_mask_iff possible_bit_word) auto

lemma byte_eq_ones: "w = (255 :: u8) \<longleftrightarrow> (\<forall>k<8. bit w k)"
  by (auto simp: byte_all_ones bit_eq_iff bit_mask_iff bit_imp_le_length)

lemma byte_single: "bit (push_bit k (1 :: u8)) n \<longleftrightarrow> n = k \<and> k < 8"
  by (auto simp: bit_exp_iff)

lemma byte_test: "k < 8 \<Longrightarrow> (w AND push_bit k (1 :: u8) \<noteq> 0) = bit w k"
proof -
  assume "k < 8"
  then have "bit (w AND push_bit k 1) k = bit w k" by (simp only: bit_and_iff byte_single) simp
  moreover have "\<not> bit (w AND push_bit k 1) n" if "n \<noteq> k" for n
    using that by (simp only: bit_and_iff byte_single) simp
  ultimately show ?thesis
    using bit_eq_iff [of "w AND push_bit k 1" 0] by (metis bit_0_eq bot_apply bot_bool_def)
qed

section \<open>Linked lists\<close>

text \<open>\<open>nseg nx p xs q\<close>: following the field \<open>nx\<close> from \<open>p\<close> visits the nodes \<open>xs\<close> and arrives at
  \<open>q\<close>; 0 is the null pointer and no node.\<close>

fun nseg :: "(nat \<Rightarrow> nat) \<Rightarrow> nat \<Rightarrow> nat list \<Rightarrow> nat \<Rightarrow> bool" where
  "nseg nx p [] q \<longleftrightarrow> p = q"
| "nseg nx p (x # xs) q \<longleftrightarrow> p = x \<and> x \<noteq> 0 \<and> nseg nx (nx x) xs q"

lemma nseg_append: "nseg nx p (xs @ ys) q \<longleftrightarrow> (\<exists>m. nseg nx p xs m \<and> nseg nx m ys q)"
  by (induction xs arbitrary: p) auto

lemma nseg_cong: "(\<And>x. x \<in> set xs \<Longrightarrow> nx x = nx' x) \<Longrightarrow> nseg nx p xs q = nseg nx' p xs q"
  by (induction xs arbitrary: p) auto

lemma nseg_upd [simp]: "y \<notin> set xs \<Longrightarrow> nseg (nx(y := z)) p xs q = nseg nx p xs q"
  by (rule nseg_cong) auto

lemma nseg_nonzero: "nseg nx p xs q \<Longrightarrow> 0 \<notin> set xs"
  by (induction xs arbitrary: p) auto

lemma nseg_last: "nseg nx p xs q \<Longrightarrow> xs \<noteq> [] \<Longrightarrow> nx (last xs) = q"
  by (induction xs arbitrary: p) (auto split: if_splits)

lemma nseg_start: "nseg nx p xs q \<Longrightarrow> p = (if xs = [] then q else hd xs)"
  by (cases xs) auto

lemma nseg_unique: "nseg nx p xs 0 \<Longrightarrow> nseg nx p ys 0 \<Longrightarrow> xs = ys"
proof (induction xs arbitrary: p ys)
  case (Cons x xs)
  then show ?case by (cases ys) auto
next
  case Nil
  then show ?case by (cases ys) auto
qed

lemma nseg_distinct: "nseg nx p xs 0 \<Longrightarrow> distinct xs"
proof (induction xs arbitrary: p)
  case (Cons x xs)
  have "x \<notin> set xs"
  proof
    assume "x \<in> set xs"
    then obtain us vs where "xs = us @ x # vs" by (meson split_list)
    then have "nseg nx x (x # vs) 0" "nseg nx x (x # us @ x # vs) 0"
      using Cons.prems by (auto simp: nseg_append)
    then show False using nseg_unique by fastforce
  qed
  then show ?case using Cons by auto
qed simp

end
