(* ===== verification/Bitmap.thy ===== *)
theory Bitmap
  imports Hojicha_Prelude
begin

text \<open>
  The bitmap of \<^verbatim>\<open>kernel/utils/bitmap.c\<close>: one bit per page frame or slab object, with a
  cached range \<open>lowest_clear_idx .. highest_clear_idx\<close> that bounds the search for a clear
  bit. The invariant \<open>bitmap_wf\<close> says that the cache is exact. At the end of the theory the
  interface \<open>index_pool\<close> states what the physical memory manager and the slab allocator rely
  on, and the bitmap is shown to provide it.
\<close>

section \<open>Model\<close>

record bitmap =
  storage :: "u8 list option"
  bit_count :: u64
  byte_count :: u64
  lowest_clear_idx :: u64
  highest_clear_idx :: u64

definition bitmap_storage_size :: "u64 \<Rightarrow> u64" where
  "bitmap_storage_size n = drop_bit 3 (n + 7)"

text \<open>\<open>memset\<close> on the first \<open>n\<close> bytes of a buffer.\<close>

definition memset_bytes :: "u8 list \<Rightarrow> u8 \<Rightarrow> nat \<Rightarrow> u8 list" where
  "memset_bytes buf v n = replicate n v @ drop n buf"

definition bitmap_init :: "u8 list option \<Rightarrow> u64 \<Rightarrow> bool \<Rightarrow> bitmap" where
  "bitmap_init buf n default_set =
     (let b = \<lparr>storage = buf, bit_count = n, byte_count = bitmap_storage_size n,
               lowest_clear_idx = n, highest_clear_idx = n\<rparr>
      in case buf of
           None \<Rightarrow> b
         | Some bytes \<Rightarrow>
             if n = 0 then b
             else
               (let b1 = b\<lparr>storage := Some (memset_bytes bytes (if default_set then 0xFF else 0)
                                               (unat (byte_count b)))\<rparr>
                in if default_set then b1
                   else b1\<lparr>lowest_clear_idx := 0, highest_clear_idx := n - 1\<rparr>))"

definition bitmap_get :: "bitmap \<Rightarrow> u64 \<Rightarrow> bool" where
  "bitmap_get b idx =
     (case storage b of
        None \<Rightarrow> False
      | Some s \<Rightarrow>
          if bit_count b \<le> idx then False
          else s ! unat (drop_bit 3 idx) AND push_bit (unat (idx AND 7)) 1 \<noteq> 0)"

text \<open>\<open>bitmap_get_lowest_zero_bit\<close> and \<open>bitmap_get_highest_zero_bit\<close>: the loop index runs over
  0 to 7 and from 7 down to 0.\<close>

fun lowest_zero_bit_from :: "nat \<Rightarrow> u8 \<Rightarrow> nat \<Rightarrow> nat" where
  "lowest_zero_bit_from 0 num idx = 7"
| "lowest_zero_bit_from (Suc left) num idx =
     (if NOT (drop_bit idx num) AND 1 \<noteq> 0 then idx
      else lowest_zero_bit_from left num (Suc idx))"

definition bitmap_get_lowest_zero_bit :: "u8 \<Rightarrow> nat" where
  "bitmap_get_lowest_zero_bit num = lowest_zero_bit_from 8 num 0"

fun highest_zero_bit_below :: "nat \<Rightarrow> u8 \<Rightarrow> nat" where
  "highest_zero_bit_below 0 num = 0"
| "highest_zero_bit_below (Suc idx) num =
     (if NOT (drop_bit idx num) AND 1 \<noteq> 0 then idx else highest_zero_bit_below idx num)"

definition bitmap_get_highest_zero_bit :: "u8 \<Rightarrow> nat" where
  "bitmap_get_highest_zero_bit num = highest_zero_bit_below 8 num"

text \<open>The byte a search looks at, with the bits outside \<open>lo .. hi\<close> set: the masking that the
  bodies of the two search loops apply to the first and the last byte of the range.\<close>

definition search_byte :: "u8 list \<Rightarrow> u64 \<Rightarrow> u64 \<Rightarrow> u64 \<Rightarrow> u8" where
  "search_byte s lo hi byte_idx =
     (let byte = s ! unat byte_idx;
          byte1 = (if byte_idx = drop_bit 3 lo
                   then byte OR (push_bit (unat (lo AND 7)) 1 - 1) else byte)
      in if byte_idx = drop_bit 3 hi \<and> unat (hi AND 7) < 7
         then byte1 OR push_bit (unat (hi AND 7) + 1) 0xFF else byte1)"

lemma shiftr3_bound: "unat (drop_bit 3 (x :: u64)) < 2305843009213693952"
  using unat_u64_less [of x] by (simp add: word_nat)

lemma shiftr3_suc: "i \<le> drop_bit 3 (x :: u64) \<Longrightarrow> unat (i + 1) = unat i + 1"
  using shiftr3_bound [of x] by (simp add: word_le_nat_alt unat_word_ariths)

function find_clear_forward_loop :: "u8 list \<Rightarrow> u64 \<Rightarrow> u64 \<Rightarrow> u64 \<Rightarrow> u64 option" where
  "find_clear_forward_loop s start end byte_idx =
     (if byte_idx \<le> drop_bit 3 end then
        (let byte = search_byte s start end byte_idx
         in if byte \<noteq> 0xFF
            then Some (push_bit 3 byte_idx + word_of_nat (bitmap_get_lowest_zero_bit byte))
            else find_clear_forward_loop s start end (byte_idx + 1))
      else None)"
  by pat_completeness auto
termination
  by (relation "measure (\<lambda>(s, start, end, i). unat (drop_bit 3 end) + 1 - unat i)")
     (auto simp: shiftr3_suc word_le_nat_alt)

definition bitmap_find_clear_forward :: "bitmap \<Rightarrow> u64 \<Rightarrow> u64 \<Rightarrow> u64 option" where
  "bitmap_find_clear_forward b start end =
     (case storage b of
        None \<Rightarrow> None
      | Some s \<Rightarrow>
          if end < start \<or> bit_count b \<le> start then None
          else
            (let end' = (if bit_count b \<le> end then bit_count b - 1 else end)
             in find_clear_forward_loop s start end' (drop_bit 3 start)))"

function find_clear_backward_loop :: "u8 list \<Rightarrow> u64 \<Rightarrow> u64 \<Rightarrow> u64 \<Rightarrow> u64 option" where
  "find_clear_backward_loop s start end byte_idx =
     (let byte = search_byte s end start byte_idx
      in if byte \<noteq> 0xFF
         then Some (push_bit 3 byte_idx + word_of_nat (bitmap_get_highest_zero_bit byte))
         else if byte_idx = drop_bit 3 end then None
         else find_clear_backward_loop s start end (byte_idx - 1))"
  by pat_completeness auto
termination
proof (relation "measure (\<lambda>(s, start, end, i). unat (i - drop_bit 3 end))", goal_cases)
  case (2 s start "end" i byte)
  then have "i - drop_bit 3 end \<noteq> 0" by simp
  then have "unat (i - drop_bit 3 end - 1) < unat (i - drop_bit 3 end)"
    by (simp add: unat_minus_one unat_gt_0)
  then show ?case by (simp add: algebra_simps)
qed simp

definition bitmap_find_clear_backward :: "bitmap \<Rightarrow> u64 \<Rightarrow> u64 \<Rightarrow> u64 option" where
  "bitmap_find_clear_backward b start end =
     (case storage b of
        None \<Rightarrow> None
      | Some s \<Rightarrow>
          if start < end \<or> bit_count b \<le> end then None
          else
            (let start' = (if bit_count b \<le> start then bit_count b - 1 else start)
             in find_clear_backward_loop s start' end (drop_bit 3 start')))"

definition bitmap_refresh_bounds_after_set :: "bitmap \<Rightarrow> u64 \<Rightarrow> bitmap" where
  "bitmap_refresh_bounds_after_set b idx =
     (let none = b\<lparr>lowest_clear_idx := bit_count b, highest_clear_idx := bit_count b\<rparr>;
          raise_highest = (\<lambda>b'.
            if idx = highest_clear_idx b' then
              (if 0 < idx then
                 (case bitmap_find_clear_backward b' (idx - 1) (lowest_clear_idx b') of
                    Some prev \<Rightarrow> b'\<lparr>highest_clear_idx := prev\<rparr>
                  | None \<Rightarrow> none)
               else none)
            else b')
      in if bit_count b \<le> lowest_clear_idx b \<or> bit_count b \<le> highest_clear_idx b then b
         else if idx = lowest_clear_idx b then
           (case bitmap_find_clear_forward b (idx + 1) (highest_clear_idx b) of
              Some nxt \<Rightarrow> raise_highest (b\<lparr>lowest_clear_idx := nxt\<rparr>)
            | None \<Rightarrow> none)
         else raise_highest b)"

definition store_byte :: "bitmap \<Rightarrow> u64 \<Rightarrow> (u8 \<Rightarrow> u8) \<Rightarrow> bitmap" where
  "store_byte b idx f =
     b\<lparr>storage := map_option (\<lambda>s. s[unat (drop_bit 3 idx) := f (s ! unat (drop_bit 3 idx))]) (storage b)\<rparr>"

definition bitmap_set :: "bitmap \<Rightarrow> u64 \<Rightarrow> bool \<times> bitmap" where
  "bitmap_set b idx =
     (if storage b = None \<or> bit_count b \<le> idx then (False, b)
      else if bitmap_get b idx then (True, b)
      else (True, bitmap_refresh_bounds_after_set
                    (store_byte b idx (\<lambda>w. w OR push_bit (unat (idx AND 7)) 1)) idx))"

definition bitmap_clear :: "bitmap \<Rightarrow> u64 \<Rightarrow> bool \<times> bitmap" where
  "bitmap_clear b idx =
     (if storage b = None \<or> bit_count b \<le> idx then (False, b)
      else if \<not> bitmap_get b idx then (True, b)
      else
        (let b1 = store_byte b idx (\<lambda>w. w AND NOT (push_bit (unat (idx AND 7)) 1))
         in if bit_count b \<le> lowest_clear_idx b \<or> bit_count b \<le> highest_clear_idx b
            then (True, b1\<lparr>lowest_clear_idx := idx, highest_clear_idx := idx\<rparr>)
            else
              (let b2 = (if idx < lowest_clear_idx b1 then b1\<lparr>lowest_clear_idx := idx\<rparr> else b1);
                   b3 = (if highest_clear_idx b2 < idx then b2\<lparr>highest_clear_idx := idx\<rparr> else b2)
               in (True, b3))))"

definition bitmap_find_clear :: "bitmap \<Rightarrow> u64 option" where
  "bitmap_find_clear b =
     (if storage b = None \<or> bit_count b \<le> lowest_clear_idx b \<or> bit_count b \<le> highest_clear_idx b
      then None
      else bitmap_find_clear_forward b (lowest_clear_idx b) (highest_clear_idx b))"

declare find_clear_forward_loop.simps [simp del] find_clear_backward_loop.simps [simp del]

section \<open>Bits of a byte\<close>

lemma low_bit_test: "(NOT (drop_bit i (w :: u8)) AND 1 \<noteq> 0) = (\<not> bit w i)"
  by (simp add: and_one_eq bit_not_iff mod_2_eq_odd even_drop_bit_iff_not_bit)

lemma lowest_zero_bit_from:
  assumes "idx + left = 8" "\<exists>k. idx \<le> k \<and> k < 8 \<and> \<not> bit w k"
  shows "lowest_zero_bit_from left w idx < 8 \<and> \<not> bit w (lowest_zero_bit_from left w idx) \<and>
         (\<forall>j. idx \<le> j \<and> j < lowest_zero_bit_from left w idx \<longrightarrow> bit w j)"
  using assms
proof (induction left w idx rule: lowest_zero_bit_from.induct)
  case (2 left w idx)
  show ?case
  proof (cases "bit w idx")
    case True
    with "2.prems" have "\<exists>k. Suc idx \<le> k \<and> k < 8 \<and> \<not> bit w k"
      by (metis Suc_leI le_neq_implies_less)
    with 2 True show ?thesis by (auto simp: low_bit_test Suc_le_eq) (metis le_neq_implies_less)
  qed (use "2.prems" in \<open>auto simp: low_bit_test\<close>)
qed auto

lemma highest_zero_bit_below:
  assumes "n \<le> 8" "\<exists>k<n. \<not> bit w k"
  shows "highest_zero_bit_below n w < n \<and> \<not> bit w (highest_zero_bit_below n w) \<and>
         (\<forall>j. highest_zero_bit_below n w < j \<and> j < n \<longrightarrow> bit w j)"
  using assms by (induction n w rule: highest_zero_bit_below.induct)
    (auto simp: low_bit_test less_Suc_eq)

lemma byte_lowest_zero:
  assumes "w \<noteq> 255"
  shows "bitmap_get_lowest_zero_bit w < 8" "\<not> bit w (bitmap_get_lowest_zero_bit w)"
    "j < bitmap_get_lowest_zero_bit w \<Longrightarrow> bit w j"
  using lowest_zero_bit_from [of 0 8 w] assms
  by (auto simp: bitmap_get_lowest_zero_bit_def byte_eq_ones)

lemma byte_highest_zero:
  assumes "w \<noteq> 255"
  shows "bitmap_get_highest_zero_bit w < 8" "\<not> bit w (bitmap_get_highest_zero_bit w)"
    "bitmap_get_highest_zero_bit w < j \<Longrightarrow> j < 8 \<Longrightarrow> bit w j"
  using highest_zero_bit_below [of 8 w] assms
  by (auto simp: bitmap_get_highest_zero_bit_def byte_eq_ones)

section \<open>The searches find the least and the greatest clear index\<close>

definition bm_bit :: "u8 list \<Rightarrow> nat \<Rightarrow> bool" where
  "bm_bit s i = bit (s ! (i div 8)) (i mod 8)"

lemma search_byte_bit:
  assumes "k < 8"
  shows "bit (search_byte s lo hi i) k \<longleftrightarrow>
    bm_bit s (8 * unat i + k) \<or> (i = drop_bit 3 lo \<and> k < unat lo mod 8) \<or>
    (i = drop_bit 3 hi \<and> unat hi mod 8 < k)"
proof -
  have high: "bit (push_bit (n + 1) (255 :: u8)) k \<longleftrightarrow> n < k" for n
    using assms by (simp only: byte_mask_high) auto
  show ?thesis
    using assms unfolding search_byte_def Let_def bm_bit_def unat_and_7
    by (simp only: bit_or_iff byte_mask_low high if_distrib [of "\<lambda>w. bit w k"]) auto
qed

lemma byte_index: "i = drop_bit 3 (x :: u64) \<longleftrightarrow> unat i = unat x div 8"
  by (auto simp: word_nat intro: unat_inj)

lemma byte_bit_arith:
  assumes "k < 8" "r < (8 :: nat)"
  shows "q \<le> i \<Longrightarrow> i = q \<and> k < r \<longleftrightarrow> 8 * i + k < 8 * q + r"
    "i \<le> q \<Longrightarrow> i = q \<and> r < k \<longleftrightarrow> 8 * q + r < 8 * i + k"
  using assms by auto

lemma first_byte_below:
  "k < 8 \<Longrightarrow> (lo :: nat) div 8 \<le> i \<Longrightarrow> i = lo div 8 \<and> k < lo mod 8 \<longleftrightarrow> 8 * i + k < lo"
  using byte_bit_arith(1) [of k "lo mod 8" "lo div 8" i] by simp

lemma last_byte_above:
  "k < 8 \<Longrightarrow> i \<le> (hi :: nat) div 8 \<Longrightarrow> i = hi div 8 \<and> hi mod 8 < k \<longleftrightarrow> hi < 8 * i + k"
  using byte_bit_arith(2) [of k "hi mod 8" i "hi div 8"] by simp

lemma search_byte_in_range:
  assumes "k < 8" "unat lo div 8 \<le> unat i" "unat i \<le> unat hi div 8"
  shows "bit (search_byte s lo hi i) k \<longleftrightarrow>
    bm_bit s (8 * unat i + k) \<or> 8 * unat i + k < unat lo \<or> unat hi < 8 * unat i + k"
  using assms(1)
  by (simp add: search_byte_bit byte_index first_byte_below [OF assms(1,2)]
      last_byte_above [OF assms(1,3)])

lemma search_byte_full:
  assumes "search_byte s lo hi i = 255" "unat lo \<le> j" "j \<le> unat hi" "j div 8 = unat i"
  shows "bm_bit s j"
proof -
  have j: "8 * unat i + j mod 8 = j" using assms(4) by (metis mult_div_mod_eq)
  have "unat lo div 8 \<le> unat i" "unat i \<le> unat hi div 8"
    using assms(2-4) by (metis div_le_mono)+
  from search_byte_in_range [OF _ this, of "j mod 8" s]
  have "bit (search_byte s lo hi i) (j mod 8) \<longleftrightarrow> bm_bit s j" using assms(2,3) by (simp add: j)
  moreover have "bit (search_byte s lo hi i) (j mod 8)"
    using byte_eq_ones [of "search_byte s lo hi i"] assms(1) by simp
  ultimately show ?thesis by simp
qed

lemma next_byte: "8 * i \<le> j \<Longrightarrow> j div 8 \<noteq> i \<Longrightarrow> 8 * (i + 1) \<le> (j :: nat)"
  using less_eq_div_iff_mult_less_eq [of 8 i j] less_eq_div_iff_mult_less_eq [of 8 "i + 1" j]
  by simp

lemma prev_byte: "j < 8 * i + 8 \<Longrightarrow> j div 8 \<noteq> i \<Longrightarrow> j < 8 * (i - 1) + (8 :: nat)"
  using div_less_iff_less_mult [of 8 j "i + 1"] div_less_iff_less_mult [of 8 j i] by simp

lemma byte_pos:
  assumes "unat (i :: u64) \<le> unat (hi :: u64) div 8" "k < 8"
  shows "unat (push_bit 3 i + word_of_nat k) = 8 * unat i + k"
proof -
  have "unat (i :: u64) < 2305843009213693952" using assms(1) unat_u64_less [of hi] by linarith
  moreover from this have "unat (push_bit 3 i) = 8 * unat i"
    by (simp add: push_bit_eq_mult unat_word_ariths)
  moreover have "unat (word_of_nat k :: u64) = k" using assms(2) by (simp add: unat_of_nat_small)
  ultimately show ?thesis using assms(2) by (subst unat_add_small) auto
qed

lemma find_clear_forward_loop_spec:
  assumes "unat lo div 8 \<le> unat i"
  shows "case find_clear_forward_loop s lo hi i of
      Some x \<Rightarrow> unat lo \<le> unat x \<and> unat x \<le> unat hi \<and> \<not> bm_bit s (unat x) \<and>
        (\<forall>j. unat lo \<le> j \<and> 8 * unat i \<le> j \<and> j < unat x \<longrightarrow> bm_bit s j)
    | None \<Rightarrow> \<forall>j. unat lo \<le> j \<and> 8 * unat i \<le> j \<and> j \<le> unat hi \<longrightarrow> bm_bit s j"
  using assms
proof (induction s lo hi i rule: find_clear_forward_loop.induct)
  case (1 s lo hi i)
  let ?w = "search_byte s lo hi i"
  note unfold = find_clear_forward_loop.simps [of s lo hi i]
  show ?case
  proof (cases "i \<le> drop_bit 3 hi")
    case False
    then have "unat hi div 8 < unat i" by (simp add: word_nat not_le)
    then have "unat hi < 8 * unat i" by linarith
    with False show ?thesis by (auto simp: unfold)
  next
    case in_range: True
    then have hi: "unat i \<le> unat hi div 8" by (simp add: word_nat)
    note byte = search_byte_in_range [OF _ "1.prems" hi, of _ s]
    show ?thesis
    proof (cases "?w = 255")
      case True
      note all = search_byte_full [OF True]
      have step: "unat (i + 1) = unat i + 1" using in_range by (rule shiftr3_suc)
      have rec: "find_clear_forward_loop s lo hi i = find_clear_forward_loop s lo hi (i + 1)"
        using in_range True by (simp add: unfold)
      have ext: "bm_bit s j" if "unat lo \<le> j" "8 * unat i \<le> j" "j \<le> unat hi"
        "8 * unat (i + 1) \<le> j \<Longrightarrow> bm_bit s j" for j
        using that all [of j] next_byte [of "unat i" j] unfolding step by blast
      have "unat lo div 8 \<le> unat (i + 1)" using "1.prems" step by simp
      from "1.IH" [OF in_range refl _ this] True ext show ?thesis
        unfolding rec by (simp split: option.splits) (meson less_or_eq_imp_le order.trans)
    next
      case False
      define k where "k = bitmap_get_lowest_zero_bit ?w"
      note kz = byte_lowest_zero [OF False, folded k_def]
      have res: "find_clear_forward_loop s lo hi i = Some (push_bit 3 i + word_of_nat k)"
        using in_range False by (simp add: unfold k_def)
      have pos: "unat (push_bit 3 i + word_of_nat k) = 8 * unat i + k"
        by (rule byte_pos [OF hi kz(1)])
      have "bm_bit s j" if "unat lo \<le> j" "8 * unat i \<le> j" "j < 8 * unat i + k" for j
        using that kz(1) kz(3) [of "j - 8 * unat i"] byte [of "j - 8 * unat i"]
          byte [OF kz(1)] kz(2) by auto
      then show ?thesis using byte [OF kz(1)] kz(2) by (simp add: res pos)
    qed
  qed
qed

lemma find_clear_backward_loop_spec:
  assumes "unat lo div 8 \<le> unat i" "unat i \<le> unat hi div 8"
  shows "case find_clear_backward_loop s hi lo i of
      Some x \<Rightarrow> unat lo \<le> unat x \<and> unat x \<le> unat hi \<and> \<not> bm_bit s (unat x) \<and>
        (\<forall>j. j \<le> unat hi \<and> j < 8 * unat i + 8 \<and> unat x < j \<longrightarrow> bm_bit s j)
    | None \<Rightarrow> \<forall>j. unat lo \<le> j \<and> j \<le> unat hi \<and> j < 8 * unat i + 8 \<longrightarrow> bm_bit s j"
  using assms
proof (induction s hi lo i rule: find_clear_backward_loop.induct)
  case (1 s hi lo i)
  let ?w = "search_byte s lo hi i"
  note unfold = find_clear_backward_loop.simps [of s hi lo i]
  note byte = search_byte_in_range [OF _ "1.prems", of _ s]
  show ?case
  proof (cases "?w = 255")
    case True
    note all = search_byte_full [OF True]
    show ?thesis
    proof (cases "i = drop_bit 3 lo")
      case end_byte: True
      then have "unat i = unat lo div 8" by (simp add: byte_index)
      then have "j div 8 = unat i" if "unat lo \<le> j" "j < 8 * unat i + 8" for j using that by linarith
      moreover have "find_clear_backward_loop s hi lo i = None"
        using True by (subst unfold) (simp only: end_byte Let_def simp_thms if_True if_False)
      ultimately show ?thesis using all by auto
    next
      case more: False
      then have less: "unat lo div 8 < unat i" using "1.prems" by (simp add: byte_index)
      then have step: "unat (i - 1) = unat i - 1" by (intro unat_minus_one) auto
      have rec: "find_clear_backward_loop s hi lo i = find_clear_backward_loop s hi lo (i - 1)"
        using more True by (simp add: unfold)
      have ext: "bm_bit s j" if "unat lo \<le> j" "j \<le> unat hi" "j < 8 * unat i + 8"
        "j < 8 * unat (i - 1) + 8 \<Longrightarrow> bm_bit s j" for j
        using that all [of j] prev_byte [of j "unat i"] less unfolding step by blast
      have "unat lo div 8 \<le> unat (i - 1)" "unat (i - 1) \<le> unat hi div 8"
        using "1.prems" less step by simp_all
      from "1.IH" [OF refl _ more this] True ext show ?thesis
        unfolding rec by (simp split: option.splits) (meson less_or_eq_imp_le order.trans)
    qed
  next
    case False
    define k where "k = bitmap_get_highest_zero_bit ?w"
    note kz = byte_highest_zero [OF False, folded k_def]
    have res: "find_clear_backward_loop s hi lo i = Some (push_bit 3 i + word_of_nat k)"
      using False by (simp add: unfold k_def)
    have pos: "unat (push_bit 3 i + word_of_nat k) = 8 * unat i + k"
      by (rule byte_pos [OF "1.prems"(2) kz(1)])
    have "bm_bit s j" if "j \<le> unat hi" "8 * unat i + k < j" "j < 8 * unat i + 8" for j
      using that kz(3) [of "j - 8 * unat i"] byte [of "j - 8 * unat i"]
        byte [OF kz(1)] kz(2) by auto
    then show ?thesis using byte [OF kz(1)] kz(2) by (simp add: res pos)
  qed
qed

section \<open>Invariant\<close>

definition bm_used :: "bitmap \<Rightarrow> nat set" where
  "bm_used b = {i. i < unat (bit_count b) \<and> (\<exists>s. storage b = Some s \<and> bm_bit s i)}"

definition bm_free :: "bitmap \<Rightarrow> nat set" where
  "bm_free b = {..<unat (bit_count b)} - bm_used b"

definition exact_bounds :: "nat set \<Rightarrow> bitmap \<Rightarrow> bool" where
  "exact_bounds F b \<longleftrightarrow>
     F = {} \<and> lowest_clear_idx b = bit_count b \<and> highest_clear_idx b = bit_count b \<or>
     unat (lowest_clear_idx b) \<in> F \<and> unat (highest_clear_idx b) \<in> F \<and>
     (\<forall>i\<in>F. unat (lowest_clear_idx b) \<le> i \<and> i \<le> unat (highest_clear_idx b))"

definition bitmap_wf :: "bitmap \<Rightarrow> bool" where
  "bitmap_wf b \<longleftrightarrow>
     (\<exists>s. storage b = Some s \<and> unat (byte_count b) \<le> length s) \<and>
     byte_count b = bitmap_storage_size (bit_count b) \<and>
     unat (bit_count b) + 7 < 2 ^ 64 \<and>
     exact_bounds (bm_free b) b"

lemma bm_free_iff:
  "storage b = Some s \<Longrightarrow> i \<in> bm_free b \<longleftrightarrow> i < unat (bit_count b) \<and> \<not> bm_bit s i"
  by (auto simp: bm_free_def bm_used_def)

lemma bm_used_lt: "i \<in> bm_used b \<Longrightarrow> i < unat (bit_count b)"
  by (simp add: bm_used_def)

lemma bm_used_free: "bm_used b = {..<unat (bit_count b)} - bm_free b"
  by (auto simp: bm_free_def bm_used_lt)

lemma bitmap_get_used:
  "storage b = Some s \<Longrightarrow> bitmap_get b idx \<longleftrightarrow> unat idx \<in> bm_used b"
  by (simp add: bitmap_get_def bm_used_def bm_bit_def byte_test word_nat not_le
      del: push_bit_of_1)

lemma byte_in_storage:
  assumes "bitmap_wf b" "storage b = Some s" "i < unat (bit_count b)"
  shows "i div 8 < length s"
proof -
  have "unat (byte_count b) = (unat (bit_count b) + 7) div 8"
    using assms(1) unat_add_small [of "bit_count b" 7]
    by (simp add: bitmap_wf_def bitmap_storage_size_def word_nat)
  then show ?thesis using assms by (auto simp: bitmap_wf_def)
qed

lemma clamp_index:
  assumes "(lo :: u64) < n"
  shows "unat (if n \<le> hi then n - 1 else hi) = min (unat hi) (unat n - 1)"
proof -
  have "n \<noteq> 0" using assms by auto
  then show ?thesis by (auto simp: unat_minus_one word_nat)
qed

lemma find_clear_forward_spec:
  assumes "storage b = Some s"
  shows "case bitmap_find_clear_forward b lo hi of
      Some x \<Rightarrow> unat x \<in> bm_free b \<and> unat lo \<le> unat x \<and> unat x \<le> unat hi \<and>
        (\<forall>j\<in>bm_free b. unat lo \<le> j \<longrightarrow> unat x \<le> j)
    | None \<Rightarrow> \<forall>j\<in>bm_free b. \<not> (unat lo \<le> j \<and> j \<le> unat hi)"
proof (cases "hi < lo \<or> bit_count b \<le> lo")
  case True
  then show ?thesis
    using assms by (auto simp: bitmap_find_clear_forward_def bm_free_iff word_nat)
next
  case False
  define hi' where "hi' = (if bit_count b \<le> hi then bit_count b - 1 else hi)"
  have hi': "unat hi' = min (unat hi) (unat (bit_count b) - 1)" "0 < unat (bit_count b)"
    using False clamp_index [of lo "bit_count b" hi] by (auto simp: hi'_def word_nat)
  have start: "unat lo div 8 \<le> unat (drop_bit 3 lo)" by (simp add: word_nat)
  have res: "bitmap_find_clear_forward b lo hi = find_clear_forward_loop s lo hi' (drop_bit 3 lo)"
    using False assms by (simp add: bitmap_find_clear_forward_def hi'_def)
  have "8 * unat (drop_bit 3 lo) \<le> unat lo" by (simp add: word_nat)
  then show ?thesis
    using find_clear_forward_loop_spec [OF start, where s = s and hi = hi'] hi'
    unfolding res by (auto simp: bm_free_iff [OF assms] split: option.splits)
qed

lemma find_clear_backward_spec:
  assumes "storage b = Some s"
  shows "case bitmap_find_clear_backward b hi lo of
      Some x \<Rightarrow> unat x \<in> bm_free b \<and> unat lo \<le> unat x \<and> unat x \<le> unat hi \<and>
        (\<forall>j\<in>bm_free b. j \<le> unat hi \<longrightarrow> j \<le> unat x)
    | None \<Rightarrow> \<forall>j\<in>bm_free b. \<not> (unat lo \<le> j \<and> j \<le> unat hi)"
proof (cases "hi < lo \<or> bit_count b \<le> lo")
  case True
  then show ?thesis
    using assms by (auto simp: bitmap_find_clear_backward_def bm_free_iff word_nat)
next
  case False
  define hi' where "hi' = (if bit_count b \<le> hi then bit_count b - 1 else hi)"
  have hi': "unat hi' = min (unat hi) (unat (bit_count b) - 1)" "0 < unat (bit_count b)"
    using False clamp_index [of lo "bit_count b" hi] by (auto simp: hi'_def word_nat)
  have "unat lo \<le> unat hi'" using False hi' by (auto simp: word_nat)
  then have start: "unat lo div 8 \<le> unat (drop_bit 3 hi')" "unat (drop_bit 3 hi') \<le> unat hi' div 8"
    by (simp_all add: word_nat div_le_mono)
  have res: "bitmap_find_clear_backward b hi lo = find_clear_backward_loop s hi' lo (drop_bit 3 hi')"
    using False assms by (simp add: bitmap_find_clear_backward_def hi'_def Let_def)
  have "unat hi' < 8 * unat (drop_bit 3 hi') + 8" by (simp add: word_nat)
  then have "j < 8 * unat (drop_bit 3 hi') + 8 \<and> j \<le> unat (bit_count b) - Suc 0"
    if "j \<le> unat hi" "j < unat (bit_count b)" for j
    using that hi' by linarith
  then show ?thesis
    using find_clear_backward_loop_spec [OF start, where s = s] hi'
    unfolding res by (auto simp: bm_free_iff [OF assms] split: option.splits)
qed

section \<open>Operations\<close>

lemma store_byte_simps [simp]:
  "bit_count (store_byte b idx f) = bit_count b"
  "byte_count (store_byte b idx f) = byte_count b"
  "lowest_clear_idx (store_byte b idx f) = lowest_clear_idx b"
  "highest_clear_idx (store_byte b idx f) = highest_clear_idx b"
  by (simp_all add: store_byte_def)

lemma store_byte_free:
  assumes "bitmap_wf b" "idx < bit_count b" and v: "\<And>w k. k < 8 \<Longrightarrow>
    bit (f w) k \<longleftrightarrow> (if k = unat idx mod 8 then v else bit w k)"
  shows "bm_free (store_byte b idx f) =
    (if v then bm_free b - {unat idx} else insert (unat idx) (bm_free b))"
proof -
  obtain s where s: "storage b = Some s" using assms(1) by (auto simp: bitmap_wf_def)
  let ?s = "s[unat (drop_bit 3 idx) := f (s ! unat (drop_bit 3 idx))]"
  have lt: "unat idx < unat (bit_count b)" using assms(2) by (simp add: word_nat)
  have len: "unat idx div 8 < length s" by (rule byte_in_storage [OF assms(1) s lt])
  have "bm_bit ?s i \<longleftrightarrow> (if i = unat idx then v else bm_bit s i)" for i
    using len by (auto simp: bm_bit_def word_nat nth_list_update v) (metis mult_div_mod_eq)+
  moreover have s': "storage (store_byte b idx f) = Some ?s" by (simp add: store_byte_def s)
  ultimately show ?thesis
    using lt by (auto simp: bm_free_iff [OF s'] bm_free_iff [OF s] split: if_splits)
qed

lemma or_bit: "k < 8 \<Longrightarrow> bit (w OR push_bit (unat (idx AND 7)) (1 :: u8)) k \<longleftrightarrow>
    (if k = unat (idx :: u64) mod 8 then True else bit w k)"
  by (simp only: bit_or_iff byte_single unat_and_7) auto

lemma and_not_bit: "k < 8 \<Longrightarrow> bit (w AND NOT (push_bit (unat (idx AND 7)) (1 :: u8))) k \<longleftrightarrow>
    (if k = unat (idx :: u64) mod 8 then False else bit w k)"
  by (simp only: bit_and_iff bit_not_iff byte_single unat_and_7 possible_bit_word) auto

lemma refresh_simps [simp]:
  "storage (bitmap_refresh_bounds_after_set b idx) = storage b"
  "bit_count (bitmap_refresh_bounds_after_set b idx) = bit_count b"
  "byte_count (bitmap_refresh_bounds_after_set b idx) = byte_count b"
  by (auto simp: bitmap_refresh_bounds_after_set_def Let_def split: option.splits)

lemma bm_free_cong:
  "storage b = storage b' \<Longrightarrow> bit_count b = bit_count b' \<Longrightarrow> bm_free b = bm_free b'"
  by (simp add: bm_free_def bm_used_def)

lemma refresh_exact:
  assumes s: "storage b = Some s" and small: "unat (bit_count b) + 7 < 2 ^ 64"
    and idx: "unat idx < unat (bit_count b)" "unat idx \<notin> bm_free b"
    and old: "exact_bounds (insert (unat idx) (bm_free b)) b"
  shows "exact_bounds (bm_free b) (bitmap_refresh_bounds_after_set b idx)"
proof -
  let ?lo = "lowest_clear_idx b" and ?hi = "highest_clear_idx b"
  have lohi: "unat ?lo \<in> insert (unat idx) (bm_free b)" "unat ?hi \<in> insert (unat idx) (bm_free b)"
    "\<forall>i\<in>insert (unat idx) (bm_free b). unat ?lo \<le> i \<and> i \<le> unat ?hi"
    using old by (auto simp: exact_bounds_def)
  have lt: "\<not> bit_count b \<le> ?lo" "\<not> bit_count b \<le> ?hi"
    using lohi(1,2) idx(1) by (auto simp: word_nat not_le bm_free_iff [OF s])
  have suc: "unat (idx + 1) = unat idx + 1" using idx(1) small by (simp add: unat_word_ariths)
  have eqs: "idx = ?lo \<longleftrightarrow> unat idx = unat ?lo" "idx = ?hi \<longleftrightarrow> unat idx = unat ?hi"
    by (auto intro: unat_inj)
  show ?thesis
  proof (cases "idx = ?lo")
    case True
    have above: "\<forall>i\<in>bm_free b. unat idx + 1 \<le> i \<and> i \<le> unat ?hi"
      using lohi(3) idx(2) True by (metis Suc_eq_plus1 Suc_leI insertCI le_neq_implies_less)
    show ?thesis
    proof (cases "bitmap_find_clear_forward b (idx + 1) ?hi")
      case None
      then have "bm_free b = {}"
        using find_clear_forward_spec [OF s, of "idx + 1" ?hi] above unfolding suc by auto
      then show ?thesis
        using None lt True
        by (simp add: bitmap_refresh_bounds_after_set_def exact_bounds_def Let_def)
    next
      case (Some x)
      then have x: "unat x \<in> bm_free b" "\<forall>j\<in>bm_free b. unat x \<le> j" "idx \<noteq> ?hi"
        using find_clear_forward_spec [OF s, of "idx + 1" ?hi] above unfolding suc by auto
      then have "bitmap_refresh_bounds_after_set b idx = b\<lparr>lowest_clear_idx := x\<rparr>"
        using Some lt True by (simp add: bitmap_refresh_bounds_after_set_def)
      moreover have "unat ?hi \<in> bm_free b" using lohi(2) x(3) eqs(2) by auto
      ultimately show ?thesis using x above by (auto simp: exact_bounds_def)
    qed
  next
    case False
    show ?thesis
    proof (cases "idx = ?hi")
      case True
      then have pos: "0 < idx" "unat ?lo < unat idx" "unat ?lo \<in> bm_free b"
        using False lohi by (auto simp: eqs word_nat)
      then have pred: "unat (idx - 1) = unat idx - 1" by (intro unat_minus_one) auto
      obtain x where x: "bitmap_find_clear_backward b (idx - 1) ?lo = Some x"
        "unat x \<in> bm_free b" "\<forall>j\<in>bm_free b. j \<le> unat idx - 1 \<longrightarrow> j \<le> unat x"
        using find_clear_backward_spec [OF s, where hi = "idx - 1" and lo = ?lo] pos
        by (auto simp: pred split: option.splits)
      have "\<forall>j\<in>bm_free b. j \<le> unat x"
        using x(3) lohi(3) idx(2) True by (metis Suc_pred' insertI2 le_neq_implies_less less_Suc_eq_le not_less0 gr0I)
      moreover have "bitmap_refresh_bounds_after_set b idx = b\<lparr>highest_clear_idx := x\<rparr>"
        using True False lt x(1) pos(1) by (simp add: bitmap_refresh_bounds_after_set_def)
      ultimately show ?thesis using x lohi pos by (auto simp: exact_bounds_def)
    next
      case no: False
      then have "bitmap_refresh_bounds_after_set b idx = b"
        using False by (simp add: bitmap_refresh_bounds_after_set_def Let_def)
      then show ?thesis using False no lohi by (auto simp: exact_bounds_def eqs)
    qed
  qed
qed

lemma bm_free_update [simp]:
  "bm_free (b\<lparr>lowest_clear_idx := l\<rparr>) = bm_free b"
  "bm_free (b\<lparr>highest_clear_idx := h\<rparr>) = bm_free b"
  by (rule bm_free_cong; simp)+

lemma refresh_free [simp]: "bm_free (bitmap_refresh_bounds_after_set b idx) = bm_free b"
  by (rule bm_free_cong) simp_all

lemma wf_storage: "bitmap_wf b \<Longrightarrow> \<exists>s. storage b = Some s"
  by (auto simp: bitmap_wf_def)

lemma set_oob: "bit_count b \<le> idx \<Longrightarrow> bitmap_set b idx = (False, b)"
  by (simp add: bitmap_set_def)

lemma clear_oob: "bit_count b \<le> idx \<Longrightarrow> bitmap_clear b idx = (False, b)"
  by (simp add: bitmap_clear_def)

lemma bounds_none:
  assumes "bitmap_wf b"
  shows "bit_count b \<le> lowest_clear_idx b \<or> bit_count b \<le> highest_clear_idx b \<longleftrightarrow> bm_free b = {}"
proof -
  have "i < unat (bit_count b)" if "i \<in> bm_free b" for i using that by (simp add: bm_free_def)
  then show ?thesis
    using assms unfolding bitmap_wf_def exact_bounds_def word_le_nat_alt by fastforce
qed

lemma bitmap_set_spec:
  assumes wf: "bitmap_wf b" and idx: "idx < bit_count b" and res: "bitmap_set b idx = (r, b')"
  shows "r" "bitmap_wf b'" "bit_count b' = bit_count b" "bm_free b' = bm_free b - {unat idx}"
proof -
  obtain s where s: "storage b = Some s" using wf by (auto simp: bitmap_wf_def)
  have lt: "unat idx < unat (bit_count b)" using idx by (simp add: word_nat)
  have in_range: "bit_count b \<le> idx \<longleftrightarrow> False" using idx by auto
  define c where "c = store_byte b idx (\<lambda>w. w OR push_bit (unat (idx AND 7)) 1)"
  obtain s' where s': "storage c = Some s'" "length s' = length s"
    by (simp add: c_def store_byte_def s)
  have c: "bit_count c = bit_count b" "byte_count c = byte_count b"
    "lowest_clear_idx c = lowest_clear_idx b" "highest_clear_idx c = highest_clear_idx b"
    by (simp_all add: c_def)
  have free: "bm_free c = bm_free b - {unat idx}"
    unfolding c_def using store_byte_free [OF wf idx, of _ True]
    by (simp add: or_bit del: push_bit_of_1)
  have "r \<and> bitmap_wf b' \<and> bit_count b' = bit_count b \<and> bm_free b' = bm_free b - {unat idx}"
  proof (cases "bitmap_get b idx")
    case True
    then have "unat idx \<notin> bm_free b" by (simp add: bitmap_get_used [OF s] bm_free_def)
    with True wf res s show ?thesis by (simp add: bitmap_set_def in_range)
  next
    case False
    then have "unat idx \<in> bm_free b" using lt by (simp add: bitmap_get_used [OF s] bm_free_def)
    then have "exact_bounds (insert (unat idx) (bm_free c)) c"
      using wf by (simp add: free c bitmap_wf_def exact_bounds_def insert_absorb)
    then have "exact_bounds (bm_free c) (bitmap_refresh_bounds_after_set c idx)"
      using wf lt free c by (intro refresh_exact [OF s'(1)]) (simp_all add: bitmap_wf_def)
    moreover have "r" "b' = bitmap_refresh_bounds_after_set c idx"
      using False res s by (simp_all add: bitmap_set_def in_range c_def)
    ultimately show ?thesis using wf s by (auto simp: bitmap_wf_def free c s')
  qed
  then show "r" "bitmap_wf b'" "bit_count b' = bit_count b" "bm_free b' = bm_free b - {unat idx}"
    by simp_all
qed

lemma bitmap_clear_spec:
  assumes wf: "bitmap_wf b" and idx: "idx < bit_count b" and res: "bitmap_clear b idx = (r, b')"
  shows "r" "bitmap_wf b'" "bit_count b' = bit_count b"
    "bm_free b' = insert (unat idx) (bm_free b)"
proof -
  obtain s where s: "storage b = Some s" using wf by (auto simp: bitmap_wf_def)
  have lt: "unat idx < unat (bit_count b)" using idx by (simp add: word_nat)
  have in_range: "bit_count b \<le> idx \<longleftrightarrow> False" using idx by auto
  define c where "c = store_byte b idx (\<lambda>w. w AND NOT (push_bit (unat (idx AND 7)) 1))"
  obtain s' where s': "storage c = Some s'" "length s' = length s"
    by (simp add: c_def store_byte_def s)
  have c: "bit_count c = bit_count b" "byte_count c = byte_count b"
    "lowest_clear_idx c = lowest_clear_idx b" "highest_clear_idx c = highest_clear_idx b"
    by (simp_all add: c_def)
  have free: "bm_free c = insert (unat idx) (bm_free b)"
    unfolding c_def using store_byte_free [OF wf idx, of _ False]
    by (simp add: and_not_bit del: push_bit_of_1)
  have bounds: "exact_bounds (bm_free b) b" using wf by (simp add: bitmap_wf_def)
  have "r \<and> bitmap_wf b' \<and> bit_count b' = bit_count b \<and>
    bm_free b' = insert (unat idx) (bm_free b)"
  proof (cases "bitmap_get b idx")
    case False
    then have "unat idx \<in> bm_free b" using lt by (simp add: bitmap_get_used [OF s] bm_free_def)
    with False wf res s show ?thesis by (simp add: bitmap_clear_def insert_absorb in_range)
  next
    case used: True
    let ?full = "bm_free b = {}"
    note res' = res [unfolded bitmap_clear_def Let_def bounds_none [OF wf] c_def [symmetric]]
    have b': "r" "storage b' = Some s'" "bit_count b' = bit_count b" "byte_count b' = byte_count b"
      "lowest_clear_idx b' = (if ?full \<or> idx < lowest_clear_idx b then idx else lowest_clear_idx b)"
      "highest_clear_idx b' = (if ?full \<or> highest_clear_idx b < idx then idx else highest_clear_idx b)"
      using res' used s c s'(1) by (auto simp: in_range split: if_splits)
    have "bm_free b' = bm_free c" using b' c s' by (intro bm_free_cong) simp_all
    moreover have "exact_bounds (insert (unat idx) (bm_free b)) b'"
      using bounds unfolding exact_bounds_def b' by (auto simp: word_nat)
    ultimately show ?thesis using wf s b' by (auto simp: bitmap_wf_def free s')
  qed
  then show "r" "bitmap_wf b'" "bit_count b' = bit_count b"
    "bm_free b' = insert (unat idx) (bm_free b)"
    by simp_all
qed

lemma bitmap_find_clear_spec:
  assumes wf: "bitmap_wf b"
  shows "bitmap_find_clear b = None \<longleftrightarrow> bm_free b = {}"
    "bitmap_find_clear b = Some i \<Longrightarrow> unat i \<in> bm_free b \<and> (\<forall>j\<in>bm_free b. unat i \<le> j)"
proof -
  obtain s where s: "storage b = Some s" using wf by (auto simp: bitmap_wf_def)
  have bounds: "exact_bounds (bm_free b) b" using wf by (simp add: bitmap_wf_def)
  note spec = find_clear_forward_spec [OF s, where lo = "lowest_clear_idx b" and hi = "highest_clear_idx b"]
  show "bitmap_find_clear b = None \<longleftrightarrow> bm_free b = {}"
    using bounds_none [OF wf] bounds spec s
    by (auto simp: bitmap_find_clear_def exact_bounds_def split: option.splits)
  show "unat i \<in> bm_free b \<and> (\<forall>j\<in>bm_free b. unat i \<le> j)" if "bitmap_find_clear b = Some i"
    using bounds spec that
    by (auto simp: bitmap_find_clear_def exact_bounds_def split: if_splits)
qed

lemma memset_bytes_bit:
  "i div 8 < n \<Longrightarrow> n \<le> length buf \<Longrightarrow>
    bm_bit (memset_bytes buf (if d then 255 else 0) n) i \<longleftrightarrow> d"
  by (simp add: bm_bit_def memset_bytes_def nth_append byte_all_ones bit_mask_iff)

lemma bitmap_init_spec:
  assumes small: "unat n + 7 < 2 ^ 64" and len: "unat (bitmap_storage_size n) \<le> length buf"
  shows "bitmap_wf (bitmap_init (Some buf) n d)"
    "bm_free (bitmap_init (Some buf) n d) = (if d then {} else {..<unat n})"
proof -
  have size: "unat (bitmap_storage_size n) = (unat n + 7) div 8"
    using small unat_add_small [of n 7] by (simp add: bitmap_storage_size_def word_nat)
  let ?b = "bitmap_init (Some buf) n d"
  have pos: "0 < unat n" if "n \<noteq> 0" using that by (simp add: unat_gt_0)
  have "i div 8 < unat (bitmap_storage_size n)" if "i < unat n" for i
    unfolding size using that by linarith
  then show free: "bm_free ?b = (if d then {} else {..<unat n})"
    using memset_bytes_bit [OF _ len, of _ d] pos
    by (cases d) (auto simp: bm_free_def bm_used_def bitmap_init_def Let_def)
  have "bit_count ?b = n" "byte_count ?b = bitmap_storage_size n"
    "\<exists>s. storage ?b = Some s \<and> unat (bitmap_storage_size n) \<le> length s"
    using len by (auto simp: bitmap_init_def Let_def memset_bytes_def)
  moreover have "exact_bounds (if d then {} else {..<unat n}) ?b"
    using pos by (auto simp: exact_bounds_def bitmap_init_def Let_def unat_minus_one)
  ultimately show "bitmap_wf ?b" using small by (simp add: bitmap_wf_def free)
qed

section \<open>The interface of the bitmap's clients\<close>

text \<open>
  A pool of numbered resources: \<open>find\<close> proposes the least free number, \<open>mark\<close> takes it and
  \<open>release\<close> gives it back. What the frame allocator and the slab allocator do with the bitmap
  follows from these laws alone.
\<close>

locale index_pool =
  fixes inv :: "'p \<Rightarrow> bool" and capacity :: "'p \<Rightarrow> nat" and free :: "'p \<Rightarrow> nat set"
    and find :: "'p \<Rightarrow> u64 option" and mark :: "'p \<Rightarrow> u64 \<Rightarrow> 'p" and release :: "'p \<Rightarrow> u64 \<Rightarrow> 'p"
  assumes free_bound: "inv p \<Longrightarrow> free p \<subseteq> {..<capacity p}"
    and find_none: "inv p \<Longrightarrow> find p = None \<longleftrightarrow> free p = {}"
    and find_some: "inv p \<Longrightarrow> find p = Some i \<Longrightarrow> unat i \<in> free p \<and> (\<forall>j\<in>free p. unat i \<le> j)"
    and mark_ok: "inv p \<Longrightarrow> unat i < capacity p \<Longrightarrow>
      inv (mark p i) \<and> capacity (mark p i) = capacity p \<and> free (mark p i) = free p - {unat i}"
    and release_ok: "inv p \<Longrightarrow> unat i < capacity p \<Longrightarrow>
      inv (release p i) \<and> capacity (release p i) = capacity p \<and>
      free (release p i) = insert (unat i) (free p)"
begin

lemma finite_free: "inv p \<Longrightarrow> finite (free p)"
  using free_bound finite_subset by blast

lemma find_capacity: "inv p \<Longrightarrow> find p = Some i \<Longrightarrow> unat i < capacity p"
  using find_some free_bound by blast

lemma take_step:
  assumes "inv p" "find p = Some i"
  shows "inv (mark p i)" "capacity (mark p i) = capacity p" "free (mark p i) = free p - {unat i}"
    "unat i \<in> free p" "card (free p) = Suc (card (free (mark p i)))"
proof -
  show marked: "inv (mark p i)" "capacity (mark p i) = capacity p" "free (mark p i) = free p - {unat i}"
    and i: "unat i \<in> free p"
    using assms mark_ok find_some find_capacity by blast+
  show "card (free p) = Suc (card (free (mark p i)))"
    using finite_free [OF assms(1)] i by (simp only: marked(3) card_Suc_Diff1)
qed

lemma take_release:
  assumes "inv p" "find p = Some i"
  shows "inv (release (mark p i) i)" "free (release (mark p i) i) = free p"
  using take_step [OF assms] release_ok [of "mark p i" i] find_capacity [OF assms]
  by (auto simp: insert_absorb)

fun take_n :: "nat \<Rightarrow> 'p \<Rightarrow> u64 list \<times> 'p" where
  "take_n 0 p = ([], p)"
| "take_n (Suc n) p =
     (case find p of
        None \<Rightarrow> ([], p)
      | Some i \<Rightarrow> (let (is, q) = take_n n (mark p i) in (i # is, q)))"

lemma take_n_spec:
  "inv p \<Longrightarrow> take_n n p = (is, q) \<Longrightarrow>
     inv q \<and> distinct is \<and> unat ` set is \<subseteq> free p \<and> free q = free p - unat ` set is \<and>
     length is = min n (card (free p))"
proof (induction n arbitrary: p "is" q)
  case (Suc n)
  show ?case
  proof (cases "find p")
    case None
    moreover have "free p = {}" using None Suc.prems(1) find_none by blast
    ultimately show ?thesis using Suc.prems by simp
  next
    case (Some i)
    obtain js where js: "take_n n (mark p i) = (js, q)" "is = i # js"
      using Suc.prems Some by (auto split: prod.splits)
    note step = take_step [OF Suc.prems(1) Some]
    from Suc.IH [OF step(1) js(1)]
    have IH: "inv q" "distinct js" "unat ` set js \<subseteq> free p - {unat i}"
      "free q = free p - {unat i} - unat ` set js" "length js = min n (card (free (mark p i)))"
      by (simp_all only: step(3))
    have "i \<notin> set js" using IH(3) by blast
    moreover have "length is = min (Suc n) (card (free p))"
      unfolding step(5) js(2) using IH(5) by simp
    ultimately show ?thesis using IH(1-4) step(4) unfolding js(2) by auto
  qed
qed auto

end

interpretation bm: index_pool bitmap_wf "\<lambda>b. unat (bit_count b)" bm_free bitmap_find_clear
  "\<lambda>b i. snd (bitmap_set b i)" "\<lambda>b i. snd (bitmap_clear b i)"
proof unfold_locales
  fix p and i :: u64 assume p: "bitmap_wf p" "unat i < unat (bit_count p)"
  then have lt: "i < bit_count p" by (simp add: word_nat)
  show "bitmap_wf (snd (bitmap_set p i)) \<and> unat (bit_count (snd (bitmap_set p i))) = unat (bit_count p) \<and>
    bm_free (snd (bitmap_set p i)) = bm_free p - {unat i}"
    using bitmap_set_spec [OF p(1) lt prod.collapse [symmetric]] by simp
  show "bitmap_wf (snd (bitmap_clear p i)) \<and> unat (bit_count (snd (bitmap_clear p i))) = unat (bit_count p) \<and>
    bm_free (snd (bitmap_clear p i)) = insert (unat i) (bm_free p)"
    using bitmap_clear_spec [OF p(1) lt prod.collapse [symmetric]] by simp
qed (use bitmap_find_clear_spec in \<open>auto simp: bm_free_def\<close>)

section \<open>Properties\<close>

lemma bitmap_get_free:
  assumes "bitmap_wf b"
  shows "bitmap_get b j \<longleftrightarrow> j < bit_count b \<and> unat j \<notin> bm_free b"
proof -
  obtain s where s: "storage b = Some s" using assms wf_storage by blast
  show ?thesis by (auto simp: bitmap_get_used [OF s] bm_used_free word_nat)
qed

text \<open>C19. Setting and clearing a bit keep the cached bounds exact (the invariant), report whether
  the index is in range, and change what \<open>bitmap_get\<close> returns at that index only.\<close>

theorem bitmap_set_clear_get:
  assumes "bitmap_wf b"
  shows "bitmap_wf (snd (bitmap_set b i)) \<and> fst (bitmap_set b i) = (i < bit_count b) \<and>
    (\<forall>j. bitmap_get (snd (bitmap_set b i)) j = (if j = i then i < bit_count b else bitmap_get b j)) \<and>
    bitmap_wf (snd (bitmap_clear b i)) \<and> fst (bitmap_clear b i) = (i < bit_count b) \<and>
    (\<forall>j. bitmap_get (snd (bitmap_clear b i)) j = (if j = i then False else bitmap_get b j))"
proof (cases "i < bit_count b")
  case True
  note set = bitmap_set_spec [OF assms True prod.collapse [symmetric]]
  note clr = bitmap_clear_spec [OF assms True prod.collapse [symmetric]]
  show ?thesis
    using True set(1,2) clr(1,2)
    by (auto simp: bitmap_get_free [OF assms] bitmap_get_free [OF set(2)]
        bitmap_get_free [OF clr(2)] set(3,4) clr(3,4) dest: unat_inj)
next
  case False
  then show ?thesis using assms by (auto simp: set_oob clear_oob bitmap_get_free)
qed

theorem bitmap_set_clear_get_witness:
  "bitmap_wf (bitmap_init (Some [0, 0]) 12 False) \<and>
   bitmap_get (snd (bitmap_set (bitmap_init (Some [0, 0]) 12 False) 9)) 9"
proof -
  have "bitmap_wf (bitmap_init (Some [0, 0]) 12 False)"
    by (rule bitmap_init_spec) (simp_all add: bitmap_storage_size_def)
  from this bitmap_set_clear_get [OF this, of 9] show ?thesis by (simp add: bitmap_init_def Let_def)
qed

text \<open>C18. A search finds the least clear index, and it fails only when every bit is set: the
  byte-wise scan between the cached bounds misses nothing.\<close>

theorem bitmap_find_clear_least:
  assumes "bitmap_wf b"
  shows "case bitmap_find_clear b of
      Some i \<Rightarrow> i < bit_count b \<and> \<not> bitmap_get b i \<and> (\<forall>j. j < i \<longrightarrow> bitmap_get b j)
    | None \<Rightarrow> \<forall>j. j < bit_count b \<longrightarrow> bitmap_get b j"
proof (cases "bitmap_find_clear b")
  case None
  then show ?thesis using bm.find_none [OF assms] by (simp add: bitmap_get_free [OF assms])
next
  case (Some i)
  then show ?thesis
    using bm.find_some [OF assms Some] bm.find_capacity [OF assms Some]
    by (auto simp: bitmap_get_free [OF assms] word_nat)
qed

theorem bitmap_find_clear_least_witness:
  "bitmap_wf (snd (bitmap_set (bitmap_init (Some [0, 0]) 12 False) 0)) \<and>
   (case bitmap_find_clear (snd (bitmap_set (bitmap_init (Some [0, 0]) 12 False) 0)) of
      Some i \<Rightarrow> \<not> bitmap_get (snd (bitmap_set (bitmap_init (Some [0, 0]) 12 False) 0)) i
    | None \<Rightarrow> True)"
proof -
  have "bitmap_wf (bitmap_init (Some [0, 0]) 12 False)"
    by (rule bitmap_init_spec) (simp_all add: bitmap_storage_size_def)
  then have "bitmap_wf (snd (bitmap_set (bitmap_init (Some [0, 0]) 12 False) 0))"
    by (intro conjunct1 [OF bm.mark_ok]) (simp_all add: bitmap_init_def Let_def)
  from this bitmap_find_clear_least [OF this] show ?thesis by (auto split: option.splits)
qed

end
