(* ===== verification/Pmm.thy ===== *)
theory Pmm
  imports Bitmap
begin

text \<open>
  The physical memory manager of \<^verbatim>\<open>kernel/memory/pmm.c\<close>. The global \<open>pmm\<close> and the file's static
  \<open>pmm_bitmap\<close> are one record. What the boot loader reports (the load addresses and the memory
  map) is an argument of \<open>pmm_initialize\<close>; the bytes found at the virtual address of the bitmap
  are an argument of \<open>pmm_initialize_bitmap\<close>, which also returns the mappings it asks the virtual
  memory manager for; the number of frames each mapping takes for tables is its argument \<open>took\<close>. The halts of the source are values of \<open>pmm_error\<close>. The spin lock is taken
  and released by the same call and has no counterpart.
\<close>

section \<open>Model\<close>

record pmm_state =
  total_mem :: haddr
  total_pages :: haddr
  free_pages :: haddr
  page_size :: haddr
  kernel_start :: haddr
  kernel_vstart :: haddr
  kernel_end :: haddr
  kernel_vend :: haddr
  kernel_page_count :: haddr
  mem_bitmap :: haddr
  bitmap_size :: haddr
  max_section_length :: haddr
  max_section_start_addr :: haddr
  first_early_alloc_addr :: haddr
  last_early_alloc_addr :: haddr
  memmap_is_initialized :: bool
  pmm_bitmap :: bitmap

record memmap_entry =
  mm_base :: u64
  mm_length :: u64
  mm_type :: u64

datatype pmm_error = NotEnoughMemory | NoFreePages

abbreviation PAGE_SIZE :: u64 where
  "PAGE_SIZE \<equiv> 4096"

definition align_to_next_page :: "haddr \<Rightarrow> haddr" where
  "align_to_next_page addr = drop_bit 12 addr + 1"

definition align_to_prev_page :: "haddr \<Rightarrow> haddr" where
  "align_to_prev_page addr = drop_bit 12 addr"

definition pmm_addr_to_page :: "haddr \<Rightarrow> haddr" where
  "pmm_addr_to_page addr = align_to_prev_page addr"

definition pmm_addr_to_page_ceil :: "haddr \<Rightarrow> haddr" where
  "pmm_addr_to_page_ceil addr = drop_bit 12 (addr + PAGE_SIZE - 1)"

definition pmm_page_to_addr_base :: "haddr \<Rightarrow> haddr" where
  "pmm_page_to_addr_base page = push_bit 12 page"

definition pmm_state_get_free_mem :: "pmm_state \<Rightarrow> haddr" where
  "pmm_state_get_free_mem p = push_bit 12 (free_pages p)"

definition early_alloc :: "pmm_state \<Rightarrow> haddr \<times> pmm_state" where
  "early_alloc p =
     (last_early_alloc_addr p, p\<lparr>last_early_alloc_addr := last_early_alloc_addr p + PAGE_SIZE\<rparr>)"

definition mark_page :: "haddr \<Rightarrow> pmm_state \<Rightarrow> pmm_state" where
  "mark_page idx p =
     (if total_pages p \<le> idx \<or> bitmap_get (pmm_bitmap p) idx then p
      else
        (let p1 = p\<lparr>pmm_bitmap := snd (bitmap_set (pmm_bitmap p) idx)\<rparr>
         in if 0 < free_pages p1 then p1\<lparr>free_pages := free_pages p1 - 1\<rparr> else p1))"

definition clear_page :: "haddr \<Rightarrow> pmm_state \<Rightarrow> pmm_state" where
  "clear_page idx p =
     (if total_pages p \<le> idx \<or> \<not> bitmap_get (pmm_bitmap p) idx then p
      else p\<lparr>pmm_bitmap := snd (bitmap_clear (pmm_bitmap p) idx), free_pages := free_pages p + 1\<rparr>)"

text \<open>The scan over the memory map: total memory and the largest usable section.\<close>

fun memmap_scan :: "memmap_entry list \<Rightarrow> pmm_state \<Rightarrow> pmm_state" where
  "memmap_scan [] p = p"
| "memmap_scan (e # es) p =
     (let p1 = p\<lparr>total_mem := total_mem p + mm_length e\<rparr>;
          usable = mm_type e = 0 \<or> mm_type e = 2
      in memmap_scan es
           (if usable \<and> max_section_length p1 < mm_length e
            then p1\<lparr>max_section_length := mm_length e, max_section_start_addr := mm_base e\<rparr>
            else p1))"

text \<open>\<open>pmm_initialize\<close> in three stretches: the resets and the kernel's bounds, the scan, and the
  sizing of the bitmap with the choice of the first early frame.\<close>

definition pmm_kernel_bounds :: "haddr \<Rightarrow> haddr \<Rightarrow> haddr \<Rightarrow> haddr \<Rightarrow> pmm_state \<Rightarrow> pmm_state" where
  "pmm_kernel_bounds kernel_start_vaddr kernel_end_vaddr physical_base virtual_base p =
     (let kernel_size_bytes = kernel_end_vaddr - kernel_start_vaddr;
          kernel_end' = physical_base + kernel_size_bytes
      in p\<lparr>page_size := PAGE_SIZE, total_mem := 0, total_pages := 0, free_pages := 0,
           max_section_length := 0, max_section_start_addr := 0, memmap_is_initialized := False,
           kernel_start := physical_base, kernel_vstart := virtual_base,
           kernel_vend := pmm_page_to_addr_base
             (align_to_next_page (virtual_base + kernel_size_bytes + 1)),
           kernel_end := pmm_page_to_addr_base (align_to_next_page kernel_end'),
           kernel_page_count := pmm_addr_to_page (kernel_end' - physical_base + 4095)\<rparr>)"

definition pmm_size_bitmap :: "pmm_state \<Rightarrow> pmm_error + pmm_state" where
  "pmm_size_bitmap p =
     (let pages = drop_bit 12 (total_mem p);
          size = bitmap_storage_size pages;
          sec_len = max_section_length p;
          sec_end = max_section_start_addr p + sec_len;
          first = pmm_page_to_addr_base (align_to_next_page (max_section_start_addr p))
      in if sec_len < kernel_end p - kernel_start p + size then Inl NotEnoughMemory
         else Inr (p\<lparr>total_pages := pages, bitmap_size := size,
                     max_section_length :=
                       (if total_mem p < sec_end then sec_len - (sec_end - total_mem p) else sec_len),
                     first_early_alloc_addr := first, last_early_alloc_addr := first\<rparr>))"

definition pmm_initialize ::
  "haddr \<Rightarrow> haddr \<Rightarrow> haddr \<Rightarrow> haddr \<Rightarrow> memmap_entry list \<Rightarrow> pmm_state \<Rightarrow> pmm_error + pmm_state"
where
  "pmm_initialize kernel_start_vaddr kernel_end_vaddr physical_base virtual_base entries p =
     pmm_size_bitmap (memmap_scan entries
       (pmm_kernel_bounds kernel_start_vaddr kernel_end_vaddr physical_base virtual_base p))"

text \<open>The first loop of \<open>pmm_initialize_bitmap\<close>, from \<open>i\<close> with \<open>n\<close> iterations left: one early
  frame per page of the bitmap, and the mapping asked for it, which takes \<open>took i\<close> more early
  frames for the tables it installs. The source keeps the frame of the first iteration in
  \<open>bitmap_paddr\<close>.\<close>

fun map_bitmap_pages ::
  "(u64 \<Rightarrow> u64) \<Rightarrow> nat \<Rightarrow> u64 \<Rightarrow> pmm_state \<Rightarrow> (haddr \<times> haddr) list \<times> pmm_state"
where
  "map_bitmap_pages took 0 i p = ([], p)"
| "map_bitmap_pages took (Suc n) i p =
     (let (addr, p1) = early_alloc p;
          p1 = p1\<lparr>last_early_alloc_addr := last_early_alloc_addr p1 + PAGE_SIZE * took i\<rparr>;
          (ms, p2) = map_bitmap_pages took n (i + 1) p1
      in ((kernel_vend p + PAGE_SIZE * i, addr) # ms, p2))"

lemma next_page_bound: "unat (align_to_next_page addr) \<le> 4503599627370496"
proof -
  have "unat addr div 4096 < 4503599627370496"
    using unat_u64_less [of addr] by (simp add: div_less_iff_less_mult)
  then show ?thesis
    unfolding align_to_next_page_def by (subst unat_add_small) (simp_all add: word_nat)
qed

text \<open>The second loop: the source evaluates \<open>align_to_next_page\<close> of the section's end again in
  each iteration.\<close>

function clear_pages :: "haddr \<Rightarrow> pmm_state \<Rightarrow> pmm_state" where
  "clear_pages i p =
     (if i \<le> align_to_next_page (max_section_start_addr p + max_section_length p)
      then clear_pages (i + 1) (clear_page i p) else p)"
  by pat_completeness auto

lemma clear_page_fields [simp]:
  "max_section_start_addr (clear_page i p) = max_section_start_addr p"
  "max_section_length (clear_page i p) = max_section_length p"
  "total_pages (clear_page i p) = total_pages p"
  "last_early_alloc_addr (clear_page i p) = last_early_alloc_addr p"
  "first_early_alloc_addr (clear_page i p) = first_early_alloc_addr p"
  "memmap_is_initialized (clear_page i p) = memmap_is_initialized p"
  by (simp_all add: clear_page_def)

lemma page_suc: "i \<le> align_to_next_page a \<Longrightarrow> unat (i + 1) = unat i + 1"
  using next_page_bound [of a] by (simp add: unat_suc_small word_le_nat_alt)

termination clear_pages
proof (relation "measure (\<lambda>(i, p).
    unat (align_to_next_page (max_section_start_addr p + max_section_length p)) + 1 - unat i)",
    goal_cases)
  case (2 i p)
  then show ?case using page_suc [OF 2] by (simp add: word_nat)
qed simp

declare clear_pages.simps [simp del]

text \<open>With no page of bitmap to map, \<open>bitmap_paddr\<close> is read uninitialised: \<open>hd []\<close> here.\<close>

definition pmm_publish_bitmap :: "u8 list \<Rightarrow> haddr \<Rightarrow> pmm_state \<Rightarrow> pmm_error + pmm_state" where
  "pmm_publish_bitmap backing bitmap_paddr p =
     (let p = p\<lparr>mem_bitmap := kernel_vend p + PAGE_SIZE\<rparr>;
          p = p\<lparr>pmm_bitmap := bitmap_init (Some backing) (total_pages p) True\<rparr>;
          last_page = align_to_prev_page (max_section_start_addr p + max_section_length p);
          first_page_after_bitmap = align_to_next_page (bitmap_paddr + bitmap_size p)
      in if last_page \<le> first_page_after_bitmap then Inl NoFreePages
         else Inr (clear_pages first_page_after_bitmap p))"

definition pages_for_bitmap :: "pmm_state \<Rightarrow> u64" where
  "pages_for_bitmap p = (bitmap_size p + PAGE_SIZE - 1) div PAGE_SIZE"

definition pmm_initialize_bitmap ::
  "(u64 \<Rightarrow> u64) \<Rightarrow> u8 list \<Rightarrow> pmm_state \<Rightarrow> pmm_error + (haddr \<times> haddr) list \<times> pmm_state"
where
  "pmm_initialize_bitmap took backing p =
     (let (ms, p) = map_bitmap_pages took (unat (pages_for_bitmap p)) 1 p
      in map_sum id (Pair ms) (pmm_publish_bitmap backing (snd (hd ms)) p))"

definition pmm_alloc_frame :: "pmm_state \<Rightarrow> haddr \<times> pmm_state" where
  "pmm_alloc_frame p =
     (if \<not> memmap_is_initialized p then early_alloc p
      else
        (case bitmap_find_clear (pmm_bitmap p) of
           Some page_idx \<Rightarrow> (pmm_page_to_addr_base page_idx, mark_page page_idx p)
         | None \<Rightarrow> (0, p)))"

definition pmm_free_frame :: "haddr \<Rightarrow> pmm_state \<Rightarrow> pmm_state" where
  "pmm_free_frame addr p = clear_page (pmm_addr_to_page addr) p"

section \<open>Invariant\<close>

definition pmm_wf :: "pmm_state \<Rightarrow> bool" where
  "pmm_wf p \<longleftrightarrow>
     bitmap_wf (pmm_bitmap p) \<and> bit_count (pmm_bitmap p) = total_pages p \<and>
     unat (total_pages p) \<le> 2 ^ 52 \<and> unat (free_pages p) = card (bm_free (pmm_bitmap p))"

text \<open>The frames the bitmap records as free, by their physical address.\<close>

definition free_frames :: "pmm_state \<Rightarrow> nat set" where
  "free_frames p = (\<lambda>i. 4096 * i) ` bm_free (pmm_bitmap p)"

lemma pmm_card:
  assumes "pmm_wf p"
  shows "finite (bm_free (pmm_bitmap p))" "card (bm_free (pmm_bitmap p)) \<le> unat (total_pages p)"
proof -
  have sub: "bm_free (pmm_bitmap p) \<subseteq> {..<unat (total_pages p)}"
    using assms by (auto simp: pmm_wf_def bm_free_def)
  show "finite (bm_free (pmm_bitmap p))" using sub finite_subset by blast
  show "card (bm_free (pmm_bitmap p)) \<le> unat (total_pages p)"
    using card_mono [OF _ sub] by simp
qed

lemma pmm_get:
  assumes "pmm_wf p" "idx < total_pages p"
  shows "bitmap_get (pmm_bitmap p) idx \<longleftrightarrow> unat idx \<notin> bm_free (pmm_bitmap p)"
proof -
  obtain s where s: "storage (pmm_bitmap p) = Some s"
    using assms(1) wf_storage by (auto simp: pmm_wf_def)
  then show ?thesis
    using assms by (auto simp: bitmap_get_used [OF s] bm_free_def pmm_wf_def word_nat)
qed

lemma mark_page_spec:
  assumes wf: "pmm_wf p" and idx: "idx < total_pages p"
  shows "pmm_wf (mark_page idx p)"
    "bm_free (pmm_bitmap (mark_page idx p)) = bm_free (pmm_bitmap p) - {unat idx}"
proof -
  let ?F = "bm_free (pmm_bitmap p)"
  have b: "bitmap_wf (pmm_bitmap p)" "unat idx < unat (bit_count (pmm_bitmap p))"
    using assms by (simp_all add: pmm_wf_def word_nat)
  note set = bm.mark_ok [OF b]
  have "pmm_wf (mark_page idx p) \<and> bm_free (pmm_bitmap (mark_page idx p)) = ?F - {unat idx}"
  proof (cases "unat idx \<in> ?F")
    case False
    then have "mark_page idx p = p" using pmm_get [OF assms] by (simp add: mark_page_def)
    then show ?thesis using wf False by simp
  next
    case True
    have pos: "0 < card ?F" using True pmm_card(1) [OF wf] by (simp add: card_gt_0_iff) blast
    then have "0 < free_pages p" "free_pages p \<noteq> 0"
      using wf by (auto simp: pmm_wf_def word_nat)
    then have "mark_page idx p = p\<lparr>pmm_bitmap := snd (bitmap_set (pmm_bitmap p) idx),
        free_pages := free_pages p - 1\<rparr>"
      using True pmm_get [OF assms] idx by (simp add: mark_page_def)
    moreover have "unat (free_pages p - 1) = card (?F - {unat idx})"
      using \<open>free_pages p \<noteq> 0\<close> True wf by (simp add: unat_minus_one pmm_wf_def)
    ultimately show ?thesis
      using wf set by (simp add: pmm_wf_def word_unat_eq_iff)
  qed
  then show "pmm_wf (mark_page idx p)"
    "bm_free (pmm_bitmap (mark_page idx p)) = ?F - {unat idx}" by simp_all
qed

lemma clear_page_spec:
  assumes wf: "pmm_wf p" and idx: "idx < total_pages p"
  shows "pmm_wf (clear_page idx p)"
    "bm_free (pmm_bitmap (clear_page idx p)) = insert (unat idx) (bm_free (pmm_bitmap p))"
proof -
  let ?F = "bm_free (pmm_bitmap p)"
  have b: "bitmap_wf (pmm_bitmap p)" "unat idx < unat (bit_count (pmm_bitmap p))"
    using assms by (simp_all add: pmm_wf_def word_nat)
  note clr = bm.release_ok [OF b]
  have "pmm_wf (clear_page idx p) \<and> bm_free (pmm_bitmap (clear_page idx p)) = insert (unat idx) ?F"
  proof (cases "unat idx \<in> ?F")
    case True
    then have "clear_page idx p = p" using pmm_get [OF assms] by (simp add: clear_page_def)
    then show ?thesis using wf True by (simp add: insert_absorb)
  next
    case False
    have "unat (free_pages p) + 1 < 18446744073709551616"
      using pmm_card [OF wf] wf by (simp add: pmm_wf_def)
    then have "unat (free_pages p + 1) = card (insert (unat idx) ?F)"
      using False wf pmm_card(1) [OF wf] unat_add_small [of "free_pages p" 1]
      by (simp add: pmm_wf_def)
    moreover have "clear_page idx p = p\<lparr>pmm_bitmap := snd (bitmap_clear (pmm_bitmap p) idx),
        free_pages := free_pages p + 1\<rparr>"
      using False pmm_get [OF assms] idx by (simp add: clear_page_def)
    ultimately show ?thesis
      using wf clr by (simp add: pmm_wf_def word_unat_eq_iff)
  qed
  then show "pmm_wf (clear_page idx p)"
    "bm_free (pmm_bitmap (clear_page idx p)) = insert (unat idx) ?F" by simp_all
qed

lemma clear_page_oob: "total_pages p \<le> i \<Longrightarrow> clear_page i p = p"
  by (simp add: clear_page_def)

lemma clear_pages_spec:
  assumes "pmm_wf p"
  shows "pmm_wf (clear_pages i p) \<and>
    bm_free (pmm_bitmap (clear_pages i p)) = bm_free (pmm_bitmap p) \<union>
      {j. unat i \<le> j \<and> j < unat (total_pages p) \<and>
          j \<le> unat (align_to_next_page (max_section_start_addr p + max_section_length p))}"
  using assms
proof (induction i p rule: clear_pages.induct)
  case (1 i p)
  let ?last = "align_to_next_page (max_section_start_addr p + max_section_length p)"
  show ?case
  proof (cases "i \<le> ?last")
    case False
    then show ?thesis using "1.prems" by (auto simp: clear_pages.simps word_nat)
  next
    case True
    have le: "unat i \<le> unat ?last" using True by (simp add: word_nat)
    have wf: "pmm_wf (clear_page i p)" and free: "bm_free (pmm_bitmap (clear_page i p)) =
        bm_free (pmm_bitmap p) \<union> {j. j = unat i \<and> j < unat (total_pages p)}"
      using clear_page_spec [OF "1.prems", of i] clear_page_oob [of p i] "1.prems"
      by (cases "i < total_pages p"; auto simp: word_nat)+
    have range: "{j. unat i \<le> j \<and> P j} = {j. j = unat i \<and> P j} \<union> {j. unat i + 1 \<le> j \<and> P j}" for P
      by auto
    have "clear_pages i p = clear_pages (i + 1) (clear_page i p)"
      using True by (simp add: clear_pages.simps)
    then show ?thesis
      using "1.IH" [OF True wf] le by (simp add: free page_suc [OF True] range Un_assoc) auto
  qed
qed

lemma map_bitmap_pages_spec:
  "map_bitmap_pages took n i p = (ms, q) \<Longrightarrow>
     length ms = n \<and> (\<exists>a. q = p\<lparr>last_early_alloc_addr := a\<rparr>) \<and>
     (\<forall>k<n. fst (ms ! k) = kernel_vend p + PAGE_SIZE * (i + word_of_nat k))"
proof (induction n arbitrary: i p ms q)
  case 0
  have "\<exists>a. p = p\<lparr>last_early_alloc_addr := a\<rparr>"
    by (rule exI [of _ "last_early_alloc_addr p"]) simp
  then show ?case using 0 by simp
next
  case (Suc n)
  let ?p = "p\<lparr>last_early_alloc_addr := last_early_alloc_addr p + PAGE_SIZE + PAGE_SIZE * took i\<rparr>"
  obtain ms' where ms': "map_bitmap_pages took n (i + 1) ?p = (ms', q)"
    "ms = (kernel_vend p + PAGE_SIZE * i, last_early_alloc_addr p) # ms'"
    using Suc.prems by (auto simp: early_alloc_def split: prod.splits)
  then obtain a where a: "q = p\<lparr>last_early_alloc_addr := a\<rparr>"
    using Suc.IH [OF ms'(1)] by auto
  show ?case using Suc.IH [OF ms'(1)] ms'(2)
    by (auto simp: nth_Cons a algebra_simps split: nat.splits)
qed

lemma page_addr:
  assumes "unat page < 2 ^ 52"
  shows "unat (pmm_page_to_addr_base page) = 4096 * unat page"
    "pmm_addr_to_page (pmm_page_to_addr_base page) = page"
proof -
  show 1: "unat (pmm_page_to_addr_base page) = 4096 * unat page"
    using assms by (simp add: pmm_page_to_addr_base_def push_bit_eq_mult unat_word_ariths)
  show "pmm_addr_to_page (pmm_page_to_addr_base page) = page"
    using 1 by (intro unat_inj) (simp add: pmm_addr_to_page_def align_to_prev_page_def word_nat)
qed

text \<open>Frame allocation from the bitmap, on each branch.\<close>

lemma alloc_frame_empty:
  assumes "pmm_wf p" "memmap_is_initialized p" "free_frames p = {}"
  shows "pmm_alloc_frame p = (0, p)"
  using assms bm.find_none [of "pmm_bitmap p"]
  by (simp add: pmm_alloc_frame_def pmm_wf_def free_frames_def)

lemma alloc_frame_some:
  assumes wf: "pmm_wf p" and init: "memmap_is_initialized p" and some: "free_frames p \<noteq> {}"
    and res: "pmm_alloc_frame p = (a, q)"
  shows "pmm_wf q" "unat a \<in> free_frames p" "\<forall>f\<in>free_frames p. unat a \<le> f"
    "free_frames q = free_frames p - {unat a}" "unat (free_pages q) = unat (free_pages p) - 1"
proof -
  have b: "bitmap_wf (pmm_bitmap p)" using wf by (simp add: pmm_wf_def)
  obtain i where i: "bitmap_find_clear (pmm_bitmap p) = Some i"
    using some bm.find_none [OF b] by (cases "bitmap_find_clear (pmm_bitmap p)")
      (auto simp: free_frames_def)
  note find = bm.find_some [OF b i] and cap = bm.find_capacity [OF b i]
  have q: "a = pmm_page_to_addr_base i" "q = mark_page i p"
    using res init i by (auto simp: pmm_alloc_frame_def)
  have lt: "i < total_pages p" "unat i < 2 ^ 52" using cap wf by (auto simp: pmm_wf_def word_nat)
  note mark = mark_page_spec [OF wf lt(1)]
  have a: "unat a = 4096 * unat i" by (simp add: q page_addr [OF lt(2)])
  show "pmm_wf q" using mark q by simp
  show "unat a \<in> free_frames p" "\<forall>f\<in>free_frames p. unat a \<le> f"
    "free_frames q = free_frames p - {unat a}"
    using find mark(2) unfolding free_frames_def a q(2) by auto
  show "unat (free_pages q) = unat (free_pages p) - 1"
    using mark wf find unfolding q pmm_wf_def by (simp add: card_Diff_singleton)
qed

lemma free_frame_spec:
  assumes wf: "pmm_wf p" and addr: "pmm_addr_to_page addr < total_pages p"
  shows "pmm_wf (pmm_free_frame addr p)"
    "free_frames (pmm_free_frame addr p) =
       insert (4096 * (unat addr div 4096)) (free_frames p)"
  using clear_page_spec [OF assms]
  by (auto simp: pmm_free_frame_def free_frames_def pmm_addr_to_page_def align_to_prev_page_def
      word_nat)

text \<open>The steps the kernel takes on the allocator once it is set up.\<close>

inductive pmm_reach :: "pmm_state \<Rightarrow> pmm_state \<Rightarrow> bool" for p0 where
  start: "pmm_reach p0 p0"
| alloc: "pmm_reach p0 p \<Longrightarrow> pmm_reach p0 (snd (pmm_alloc_frame p))"
| free: "pmm_reach p0 p \<Longrightarrow> pmm_reach p0 (pmm_free_frame addr p)"

fun alloc_frames :: "nat \<Rightarrow> pmm_state \<Rightarrow> haddr list \<times> pmm_state" where
  "alloc_frames 0 p = ([], p)"
| "alloc_frames (Suc n) p =
     (let (a, p1) = pmm_alloc_frame p; (as, p2) = alloc_frames n p1 in (a # as, p2))"

lemma pmm_reach_flag: "pmm_reach p0 p \<Longrightarrow> memmap_is_initialized p = memmap_is_initialized p0"
  by (induction rule: pmm_reach.induct)
     (auto simp: pmm_alloc_frame_def early_alloc_def mark_page_def pmm_free_frame_def Let_def
       split: option.splits)


lemma alloc_frames_early:
  "\<not> memmap_is_initialized p \<Longrightarrow> alloc_frames n p = (as, q) \<Longrightarrow>
    as = map (\<lambda>k. last_early_alloc_addr p + PAGE_SIZE * word_of_nat k) [0..<n]"
proof (induction n arbitrary: p as q)
  case (Suc n)
  let ?p = "p\<lparr>last_early_alloc_addr := last_early_alloc_addr p + PAGE_SIZE\<rparr>"
  obtain as' where as': "alloc_frames n ?p = (as', q)" "as = last_early_alloc_addr p # as'"
    using Suc.prems by (auto simp: pmm_alloc_frame_def early_alloc_def split: prod.splits)
  have "as' = map (\<lambda>k. last_early_alloc_addr p + PAGE_SIZE * word_of_nat (Suc k)) [0..<n]"
    using Suc.IH [OF _ as'(1)] Suc.prems(1) by (simp add: algebra_simps)
  then show ?case unfolding as'(2) by (simp add: upt_conv_Cons map_Suc_upt [symmetric] del: upt_Suc)
qed auto

lemma memmap_scan_fields:
  "memmap_is_initialized (memmap_scan es p) = memmap_is_initialized p"
  "free_pages (memmap_scan es p) = free_pages p"
  by (induction es p rule: memmap_scan.induct) (simp_all add: Let_def)

lemma pmm_initialize_fields:
  assumes "pmm_initialize ks ke pb vb entries p = Inr q"
  shows "\<not> memmap_is_initialized q" "free_pages q = 0" "unat (total_pages q) < 2 ^ 52"
    "bitmap_size q = bitmap_storage_size (total_pages q)"
    "last_early_alloc_addr q =
       pmm_page_to_addr_base (align_to_next_page (max_section_start_addr q))"
proof -
  have page: "unat (drop_bit 12 (m :: u64)) < 2 ^ 52" for m
    using unat_u64_less [of m] by (simp add: word_nat div_less_iff_less_mult)
  show "\<not> memmap_is_initialized q" "free_pages q = 0" "unat (total_pages q) < 2 ^ 52"
    "bitmap_size q = bitmap_storage_size (total_pages q)"
    "last_early_alloc_addr q =
       pmm_page_to_addr_base (align_to_next_page (max_section_start_addr q))"
    using assms page by (auto simp: pmm_initialize_def pmm_size_bitmap_def pmm_kernel_bounds_def
        Let_def memmap_scan_fields split: if_splits)
qed

lemma storage_size_le: "unat n \<le> 2 ^ 52 \<Longrightarrow> unat (bitmap_storage_size n) = (unat n + 7) div 8"
  using unat_add_small [of n 7] by (simp add: bitmap_storage_size_def word_nat)

lemma initialize_bitmap_spec:
  assumes res: "pmm_initialize_bitmap took backing p = Inr (ms, q)"
    and p: "free_pages p = 0" "unat (total_pages p) < 2 ^ 52"
      "unat (bitmap_storage_size (total_pages p)) \<le> length backing"
  shows "pmm_wf q" "memmap_is_initialized q = memmap_is_initialized p"
    "bm_free (pmm_bitmap q) = {j. unat (align_to_next_page (snd (hd ms) + bitmap_size p)) \<le> j \<and>
       j < unat (total_pages p) \<and>
       j \<le> unat (align_to_next_page (max_section_start_addr p + max_section_length p))}"
    "\<not> align_to_prev_page (max_section_start_addr p + max_section_length p)
       \<le> align_to_next_page (snd (hd ms) + bitmap_size p)"
proof -
  obtain p1 where p1: "map_bitmap_pages took (unat (pages_for_bitmap p)) 1 p = (ms, p1)"
    "pmm_publish_bitmap backing (snd (hd ms)) p1 = Inr q"
    using res by (cases "pmm_publish_bitmap backing
        (snd (hd (fst (map_bitmap_pages took (unat (pages_for_bitmap p)) 1 p))))
        (snd (map_bitmap_pages took (unat (pages_for_bitmap p)) 1 p))")
      (auto simp: pmm_initialize_bitmap_def split: prod.splits)
  obtain a where pages: "p1 = p\<lparr>last_early_alloc_addr := a\<rparr>"
    using map_bitmap_pages_spec [OF p1(1)] by blast
  define r where "r = p1\<lparr>mem_bitmap := kernel_vend p1 + PAGE_SIZE,
    pmm_bitmap := bitmap_init (Some backing) (total_pages p1) True\<rparr>"
  have q: "q = clear_pages (align_to_next_page (snd (hd ms) + bitmap_size p)) r"
    using p1(2) pages by (auto simp: pmm_publish_bitmap_def Let_def r_def split: if_splits)
  have "unat (total_pages p) + 7 < 2 ^ 64" using p(2) by simp
  note init = bitmap_init_spec [OF this p(3), of True]
  have wf: "pmm_wf r"
    using pages p init by (simp add: pmm_wf_def r_def bitmap_init_def Let_def)
  have flag: "memmap_is_initialized (clear_pages i r') = memmap_is_initialized r'" for i r'
    by (induction i r' rule: clear_pages.induct) (subst clear_pages.simps, simp)
  show "pmm_wf q" "bm_free (pmm_bitmap q) = {j. unat (align_to_next_page (snd (hd ms) + bitmap_size p)) \<le> j \<and>
       j < unat (total_pages p) \<and>
       j \<le> unat (align_to_next_page (max_section_start_addr p + max_section_length p))}"
    using clear_pages_spec [OF wf] pages init(2) unfolding q by (simp_all add: r_def)
  show "memmap_is_initialized q = memmap_is_initialized p"
    using flag pages unfolding q by (simp add: r_def)
  show "\<not> align_to_prev_page (max_section_start_addr p + max_section_length p)
       \<le> align_to_next_page (snd (hd ms) + bitmap_size p)"
    using p1(2) by (auto simp: pmm_publish_bitmap_def Let_def pages split: if_splits)
qed

section \<open>Properties\<close>


definition pmm_example :: pmm_state where
  "pmm_example = \<lparr>total_mem = 65536, total_pages = 16, free_pages = 16, page_size = 4096,
     kernel_start = 0, kernel_vstart = 0, kernel_end = 0, kernel_vend = 0, kernel_page_count = 0,
     mem_bitmap = 0, bitmap_size = 2, max_section_length = 65536, max_section_start_addr = 0,
     first_early_alloc_addr = 4096, last_early_alloc_addr = 4096, memmap_is_initialized = True,
     pmm_bitmap = bitmap_init (Some [0, 0]) 16 False\<rparr>"

lemma pmm_example_wf: "pmm_wf pmm_example" "free_frames pmm_example = (\<lambda>i. 4096 * i) ` {..<16}"
proof -
  have "bitmap_wf (bitmap_init (Some [0, 0]) 16 False)"
    "bm_free (bitmap_init (Some [0, 0]) 16 False) = {..<unat (16 :: u64)}"
    using bitmap_init_spec [of 16 "[0, 0]" False] by (simp_all add: bitmap_storage_size_def)
  then show "pmm_wf pmm_example" "free_frames pmm_example = (\<lambda>i. 4096 * i) ` {..<16}"
    by (simp_all add: pmm_wf_def pmm_example_def free_frames_def bitmap_init_def Let_def)
qed


text \<open>Allocation and release are inverse: releasing the frame just allocated restores the free
  set and the free count, and on an empty free set the allocator returns 0 and changes nothing.\<close>

theorem pmm_free_undoes_alloc:
  assumes "pmm_wf p" "memmap_is_initialized p" "pmm_alloc_frame p = (a, q)"
  shows "if free_frames p = {} then a = 0 \<and> q = p
    else free_frames (pmm_free_frame a q) = free_frames p \<and>
         free_pages (pmm_free_frame a q) = free_pages p"
proof (cases "free_frames p = {}")
  case True
  then show ?thesis using alloc_frame_empty assms by simp
next
  case False
  note al = alloc_frame_some [OF assms(1,2) False assms(3)]
  obtain i where i: "unat a = 4096 * i" "i \<in> bm_free (pmm_bitmap p)"
    using al(2) by (auto simp: free_frames_def)
  have "total_pages q = total_pages p"
    using assms(2,3) by (auto simp: pmm_alloc_frame_def mark_page_def Let_def split: option.splits)
  moreover have "i < unat (total_pages p)"
    using i(2) assms(1) by (simp add: bm_free_def pmm_wf_def)
  ultimately have "pmm_addr_to_page a < total_pages q"
    using i(1) by (simp add: pmm_addr_to_page_def align_to_prev_page_def word_nat)
  note fr = free_frame_spec [OF al(1) this]
  have eq: "free_frames (pmm_free_frame a q) = free_frames p"
    using fr(2) al(2,4) i(1) by (simp add: insert_absorb)
  then have "bm_free (pmm_bitmap (pmm_free_frame a q)) = bm_free (pmm_bitmap p)"
    by (simp add: free_frames_def inj_image_eq_iff [OF injI])
  then show ?thesis using eq fr(1) assms(1) False by (auto simp: pmm_wf_def intro: unat_inj)
qed

theorem pmm_free_undoes_alloc_witness:
  "pmm_wf pmm_example \<and>
   free_frames (pmm_free_frame (fst (pmm_alloc_frame pmm_example)) (snd (pmm_alloc_frame pmm_example)))
     = free_frames pmm_example"
proof -
  have "memmap_is_initialized pmm_example" by (simp add: pmm_example_def)
  moreover have "free_frames pmm_example \<noteq> {}"
    unfolding pmm_example_wf by (metis empty_iff image_is_empty lessThan_iff zero_less_numeral)
  ultimately show ?thesis
    using pmm_free_undoes_alloc [OF pmm_example_wf(1) _ prod.collapse [symmetric]] pmm_example_wf(1)
    by simp
qed

text \<open>C29. After the two initialisation steps the state is well formed, and yet every allocation of
  every later state is a bump allocation: no step sets \<open>memmap_is_initialized\<close>, so that a freed
  frame is never handed out again.\<close>

theorem pmm_bitmap_never_used:
  assumes "pmm_initialize ks ke pb vb entries p = Inr p0"
    and "pmm_initialize_bitmap took backing p0 = Inr (ms, p1)"
    and "unat (bitmap_size p0) \<le> length backing" and "pmm_reach p1 q"
  shows "pmm_wf p1 \<and> pmm_alloc_frame q = early_alloc q"
proof -
  note init = pmm_initialize_fields [OF assms(1)]
  note bmp = initialize_bitmap_spec [OF assms(2) init(2,3) assms(3) [unfolded init(4)]]
  have "\<not> memmap_is_initialized q" using pmm_reach_flag [OF assms(4)] bmp(2) init(1) by simp
  then show ?thesis using bmp(1) by (simp add: pmm_alloc_frame_def)
qed

definition memmap_example :: "memmap_entry list" where
  "memmap_example = [\<lparr>mm_base = 0, mm_length = 0x100000, mm_type = 1\<rparr>,
                     \<lparr>mm_base = 0x100000, mm_length = 0x100000, mm_type = 0\<rparr>]"

definition zero_page :: "u8 list" where
  "zero_page = replicate 4096 0"

theorem pmm_bitmap_never_used_witness:
  "\<exists>p0 ms p1.
     pmm_initialize 0xffffffff80000000 0xffffffff80001000 0x100000 0xffffffff80000000
       memmap_example pmm_example = Inr p0 \<and>
     pmm_initialize_bitmap (\<lambda>_. 3) zero_page p0 = Inr (ms, p1) \<and>
     pmm_alloc_frame p1 = early_alloc p1"
proof -
  let ?i = "pmm_initialize 0xffffffff80000000 0xffffffff80001000 0x100000 0xffffffff80000000
       memmap_example pmm_example"
  define p0 where "p0 = projr ?i"
  have p0: "?i = Inr p0" "bitmap_size p0 = 64" "max_section_start_addr p0 = 0x100000"
    "max_section_length p0 = 0x100000" "last_early_alloc_addr p0 = 0x101000"
    unfolding p0_def by code_simp+
  define p1 where "p1 = projr (pmm_initialize_bitmap (\<lambda>_. 3) zero_page p0)"
  have "(64 + 4095 :: u64) div 4096 = 1" by (simp add: word_div_def)
  then have p1: "pmm_initialize_bitmap (\<lambda>_. 3) zero_page p0 = Inr p1"
    by (simp add: p1_def pmm_initialize_bitmap_def pmm_publish_bitmap_def pages_for_bitmap_def Let_def p0 early_alloc_def
        align_to_next_page_def align_to_prev_page_def split: prod.splits)
  have "pmm_alloc_frame (snd p1) = early_alloc (snd p1)"
    using pmm_bitmap_never_used [OF p0(1), of "\<lambda>_. 3" zero_page "fst p1" "snd p1" "snd p1"] p1 p0(2)
    by (simp add: pmm_reach.start zero_page_def)
  then show ?thesis using p0(1) p1 by (metis prod.collapse)
qed

text \<open>Bump allocation from any state hands out consecutive frames, which are distinct until
  the address wraps at \<open>2 ^ 52\<close> frames.\<close>

theorem pmm_early_frames_distinct:
  assumes "\<not> memmap_is_initialized p" "alloc_frames n p = (as, q)" "n \<le> 2 ^ 52"
  shows "distinct as \<and> (\<forall>k<n. as ! k = last_early_alloc_addr p + PAGE_SIZE * word_of_nat k)"
proof -
  note as = alloc_frames_early [OF assms(1,2)]
  have "i = j" if "i < n" "j < n" "PAGE_SIZE * word_of_nat i = PAGE_SIZE * word_of_nat j" for i j
  proof -
    have "unat (PAGE_SIZE * word_of_nat k) = 4096 * k" if "k < n" for k
      using that assms(3) by (simp add: unat_word_ariths unat_of_nat_small)
    then show ?thesis using that by (metis nat_mult_eq_cancel_disj zero_neq_numeral)
  qed
  then show ?thesis unfolding as by (auto simp: distinct_map inj_on_def)
qed

theorem pmm_early_frames_distinct_witness:
  "distinct (fst (alloc_frames 2 (pmm_example\<lparr>memmap_is_initialized := False\<rparr>)))"
  using pmm_early_frames_distinct [OF _ prod.collapse [symmetric],
    of "pmm_example\<lparr>memmap_is_initialized := False\<rparr>" 2]
  by simp

text \<open>The loop that is meant to release only the largest section also releases the page after
  it: when the section ends below the end of memory, the page that follows the section's last
  page is recorded as free.\<close>

theorem pmm_frees_past_section:
  assumes "pmm_initialize ks ke pb vb entries p = Inr p0"
    and "pmm_initialize_bitmap took backing p0 = Inr (ms, p1)"
    and "unat (bitmap_size p0) \<le> length backing"
    and "unat (max_section_start_addr p0 + max_section_length p0) div 4096 + 1 < unat (total_pages p0)"
  shows "4096 * (unat (max_section_start_addr p0 + max_section_length p0) div 4096 + 1) \<in> free_frames p1"
proof -
  let ?fin = "max_section_start_addr p0 + max_section_length p0"
  note init = pmm_initialize_fields [OF assms(1)]
  note bmp = initialize_bitmap_spec [OF assms(2) init(2,3) assms(3) [unfolded init(4)]]
  have "unat (align_to_next_page ?fin) = unat ?fin div 4096 + 1"
    using page_suc [of "drop_bit 12 ?fin" ?fin] next_page_bound [of ?fin]
    unfolding align_to_next_page_def
    by (subst unat_suc_small) (use unat_u64_less [of ?fin] in \<open>auto simp: word_nat\<close>)
  then have "unat ?fin div 4096 + 1 \<in> bm_free (pmm_bitmap p1)"
    using assms(4) bmp(4) by (simp add: bmp(3) align_to_prev_page_def word_nat)
  then show ?thesis unfolding free_frames_def by (rule imageI)
qed

definition memmap_example2 :: "memmap_entry list" where
  "memmap_example2 = [\<lparr>mm_base = 0, mm_length = 0x100000, mm_type = 1\<rparr>,
                      \<lparr>mm_base = 0x100000, mm_length = 0x100000, mm_type = 0\<rparr>,
                      \<lparr>mm_base = 0x200000, mm_length = 0x80000, mm_type = 1\<rparr>]"

theorem pmm_frees_past_section_witness:
  "\<exists>p0 ms p1.
     pmm_initialize 0xffffffff80000000 0xffffffff80001000 0x100000 0xffffffff80000000
       memmap_example2 pmm_example = Inr p0 \<and>
     pmm_initialize_bitmap (\<lambda>_. 3) zero_page p0 = Inr (ms, p1) \<and> 0x201000 \<in> free_frames p1"
proof -
  let ?i = "pmm_initialize 0xffffffff80000000 0xffffffff80001000 0x100000 0xffffffff80000000
       memmap_example2 pmm_example"
  define p0 where "p0 = projr ?i"
  have p0: "?i = Inr p0" "bitmap_size p0 = 80" "max_section_start_addr p0 = 0x100000"
    "max_section_length p0 = 0x100000" "last_early_alloc_addr p0 = 0x101000" "total_pages p0 = 640"
    unfolding p0_def by code_simp+
  define p1 where "p1 = projr (pmm_initialize_bitmap (\<lambda>_. 3) zero_page p0)"
  have "(80 + 4095 :: u64) div 4096 = 1" by (simp add: word_div_def)
  then have p1: "pmm_initialize_bitmap (\<lambda>_. 3) zero_page p0 = Inr p1"
    by (simp add: p1_def pmm_initialize_bitmap_def pmm_publish_bitmap_def pages_for_bitmap_def Let_def p0 early_alloc_def
        align_to_next_page_def align_to_prev_page_def split: prod.splits)
  have "0x201000 \<in> free_frames (snd p1)"
    using pmm_frees_past_section [OF p0(1), of "\<lambda>_. 3" zero_page "fst p1" "snd p1"] p1
    by (simp add: p0 zero_page_def)
  then show ?thesis using p0(1) p1 by (metis prod.collapse)
qed

end
