(* ===== verification/Vma.thy ===== *)
theory Vma
  imports Hojicha_Prelude
begin

text \<open>
  The virtual memory areas of \<^verbatim>\<open>kernel/memory/vma.c\<close>: a list of disjoint page ranges sorted by
  address. An area keeps its inclusive bounds as 64-bit words. The operations are modelled on the
  list of areas; whether \<open>slab_calloc\<close> finds memory for a new node is an argument. The last
  section models the two pointer operations, \<open>vma_link_before\<close> and \<open>vma_unlink\<close>, on the
  \<open>next\<close> and \<open>prev\<close> fields and shows that they insert and delete in the list.
  The logging calls have no effect on the list and are left out.
\<close>

section \<open>Model\<close>

record vma =
  vstart :: haddr
  vend :: haddr
  access :: u64
  flags :: u64
  voffset :: u64

definition vma_range_valid :: "haddr \<Rightarrow> haddr \<Rightarrow> bool" where
  "vma_range_valid start end \<longleftrightarrow>
     \<not> end < start \<and> start AND 4095 = 0 \<and> (end + 1) AND 4095 = 0"

definition vma_overlaps :: "vma \<Rightarrow> haddr \<Rightarrow> haddr \<Rightarrow> bool" where
  "vma_overlaps v start end \<longleftrightarrow> vstart v \<le> end \<and> start \<le> vend v"

definition vma_align_up :: "haddr \<Rightarrow> haddr" where
  "vma_align_up addr = (addr + 4096 - 1) AND NOT 4095"

definition vma_align_down :: "haddr \<Rightarrow> haddr" where
  "vma_align_down addr = addr AND NOT 4095"

definition vma_range_fits :: "haddr \<Rightarrow> haddr \<Rightarrow> haddr \<Rightarrow> haddr \<Rightarrow> haddr option" where
  "vma_range_fits start lo hi len =
     (if start < lo \<or> hi < start then None
      else if - 1 - start < len - 1 then None
      else (let end = start + len - 1 in if hi < end then None else Some end))"

text \<open>The walk of \<open>vma_insert\<close>: the areas that end below \<open>start\<close>, and the rest; \<open>None\<close> is the
  early return on an area that ends at the last address.\<close>

fun vma_insert_walk :: "haddr \<Rightarrow> vma list \<Rightarrow> (vma list \<times> vma list) option" where
  "vma_insert_walk start [] = Some ([], [])"
| "vma_insert_walk start (v # vs) =
     (if vend v < start then
        (if vend v = - 1 then None
         else map_option (\<lambda>(pre, post). (v # pre, post)) (vma_insert_walk start vs))
      else Some ([], v # vs))"

definition vma_insert ::
  "bool \<Rightarrow> vma list \<Rightarrow> haddr \<Rightarrow> haddr \<Rightarrow> u64 \<Rightarrow> u64 \<Rightarrow> u64 \<Rightarrow> bool \<times> vma list"
where
  "vma_insert mem vs start end acc fl off =
     (if \<not> vma_range_valid start end then (False, vs)
      else
        (case vma_insert_walk start vs of
           None \<Rightarrow> (False, vs)
         | Some (pre, post) \<Rightarrow>
             if (case post of [] \<Rightarrow> False | v # _ \<Rightarrow> vma_overlaps v start end) then (False, vs)
             else if \<not> mem then (False, vs)
             else (True, pre @ \<lparr>vstart = start, vend = end, access = acc, flags = fl, voffset = off\<rparr> # post)))"

definition vma_remove :: "bool \<Rightarrow> vma list \<Rightarrow> haddr \<Rightarrow> haddr \<Rightarrow> bool \<times> vma list" where
  "vma_remove mem vs start end =
     (if \<not> vma_range_valid start end then (False, vs)
      else
        (let pre = takeWhile (\<lambda>v. vend v < start) vs; post = dropWhile (\<lambda>v. vend v < start) vs
         in case post of
              [] \<Rightarrow> (True, vs)
            | v # rest \<Rightarrow>
                if start < vstart v then (True, vs)
                else
                  (let remove_end = (if end < vend v then end else vend v)
                   in if start = vstart v \<and> remove_end = vend v then (True, pre @ rest)
                      else if start = vstart v then (True, pre @ v\<lparr>vstart := remove_end + 1\<rparr> # rest)
                      else if remove_end = vend v then (True, pre @ v\<lparr>vend := start - 1\<rparr> # rest)
                      else if \<not> mem then (False, vs)
                      else (True, pre @ v\<lparr>vend := start - 1\<rparr> # v\<lparr>vstart := remove_end + 1\<rparr> # rest))))"

text \<open>\<open>vma_copy_list\<close>: \<open>mem i\<close> tells whether the \<open>i\<close>-th node can be allocated. \<open>vma_clear\<close>
  leaves the empty list.\<close>

definition vma_clear :: "vma list \<Rightarrow> vma list" where
  "vma_clear vs = []"

fun vma_copy_loop :: "(nat \<Rightarrow> bool) \<Rightarrow> nat \<Rightarrow> vma list \<Rightarrow> vma list \<Rightarrow> bool \<times> vma list" where
  "vma_copy_loop mem i dst [] = (True, dst)"
| "vma_copy_loop mem i dst (v # src) =
     (let (ok, dst') = vma_insert (mem i) dst (vstart v) (vend v) (access v) (flags v) (voffset v)
      in if \<not> ok then (False, vma_clear dst') else vma_copy_loop mem (Suc i) dst' src)"

definition vma_copy_list :: "(nat \<Rightarrow> bool) \<Rightarrow> vma list \<Rightarrow> vma list \<Rightarrow> bool \<times> vma list" where
  "vma_copy_list mem dst src = (if dst \<noteq> [] then (False, dst) else vma_copy_loop mem 0 dst src)"

fun find_forward_loop ::
  "haddr \<Rightarrow> haddr \<Rightarrow> haddr \<Rightarrow> haddr \<Rightarrow> haddr \<Rightarrow> vma list \<Rightarrow> haddr option"
where
  "find_forward_loop lo hi len candidate end [] = Some candidate"
| "find_forward_loop lo hi len candidate end (v # vs) =
     (if vend v < candidate then find_forward_loop lo hi len candidate end vs
      else if end < vstart v then Some candidate
      else if vend v = - 1 then None
      else
        (let c = vend v + 1
         in case vma_range_fits c lo hi len of
              None \<Rightarrow> None
            | Some e \<Rightarrow> find_forward_loop lo hi len c e vs))"

definition vma_find_free_forward ::
  "vma list \<Rightarrow> haddr \<Rightarrow> haddr \<Rightarrow> haddr \<Rightarrow> haddr \<Rightarrow> haddr option"
where
  "vma_find_free_forward vs hint lo hi len =
     (if len = 0 \<or> hi < lo then None
      else if len AND 4095 \<noteq> 0 then None
      else
        (let candidate = (if hint = 0 then lo else hint)
         in if candidate AND 4095 \<noteq> 0 \<and> - 1 - 4095 < candidate then None
            else
              (let candidate = (if candidate AND 4095 \<noteq> 0 then vma_align_up candidate else candidate);
                   candidate = (if candidate < lo then lo else candidate)
               in case vma_range_fits candidate lo hi len of
                    None \<Rightarrow> None
                  | Some e \<Rightarrow> find_forward_loop lo hi len candidate e vs)))"

text \<open>The second loop of \<open>vma_find_free_backward\<close> walks the \<open>prev\<close> pointers: its list is the
  prefix of the areas in reverse.\<close>

function find_backward_loop ::
  "haddr \<Rightarrow> haddr \<Rightarrow> haddr \<Rightarrow> haddr \<Rightarrow> vma list \<Rightarrow> haddr option"
where
  "find_backward_loop lo hi len candidate rvs =
     (case vma_range_fits candidate lo hi len of
        None \<Rightarrow> None
      | Some e \<Rightarrow>
          (case dropWhile (\<lambda>v. e < vstart v) rvs of
             [] \<Rightarrow> Some candidate
           | v # rest \<Rightarrow>
               if vend v < candidate then Some candidate
               else if vstart v \<le> lo then None
               else if vstart v - lo < len then None
               else find_backward_loop lo hi len (vma_align_down (vstart v - len)) rest))"
  by pat_completeness auto
termination
proof (relation "measure (\<lambda>(lo, hi, len, c, rvs). length rvs)", goal_cases)
  case (2 lo hi len c rvs e v rest)
  then show ?case using length_dropWhile_le [of "\<lambda>v. e < vstart v" rvs] by simp
qed simp

definition vma_find_free_backward ::
  "vma list \<Rightarrow> haddr \<Rightarrow> haddr \<Rightarrow> haddr \<Rightarrow> haddr \<Rightarrow> haddr option"
where
  "vma_find_free_backward vs hint lo hi len =
     (if len = 0 \<or> hi < lo then None
      else if len AND 4095 \<noteq> 0 then None
      else if hi - lo < len - 1 then None
      else
        (let highest = vma_align_down (hi - len + 1);
             candidate = (if hint = 0 then highest else vma_align_down hint);
             candidate = (if highest < candidate then highest else candidate)
         in case vma_range_fits candidate lo hi len of
              None \<Rightarrow> None
            | Some e \<Rightarrow>
                find_backward_loop lo hi len candidate (rev (takeWhile (\<lambda>v. vstart v \<le> e) vs))))"

fun find_fixed_loop :: "haddr \<Rightarrow> haddr \<Rightarrow> vma list \<Rightarrow> haddr option" where
  "find_fixed_loop addr end [] = Some addr"
| "find_fixed_loop addr end (v # vs) =
     (if end < vstart v then Some addr
      else if vma_overlaps v addr end then None
      else find_fixed_loop addr end vs)"

definition vma_find_free_fixed ::
  "vma list \<Rightarrow> haddr \<Rightarrow> haddr \<Rightarrow> haddr \<Rightarrow> haddr \<Rightarrow> haddr option"
where
  "vma_find_free_fixed vs addr lo hi len =
     (if len = 0 \<or> hi < lo then None
      else if addr AND 4095 \<noteq> 0 then None
      else if len AND 4095 \<noteq> 0 then None
      else
        (case vma_range_fits addr lo hi len of
           None \<Rightarrow> None
         | Some e \<Rightarrow> find_fixed_loop addr e vs))"

declare find_backward_loop.simps [simp del]

section \<open>Invariant\<close>

definition vma_wf :: "vma list \<Rightarrow> bool" where
  "vma_wf vs \<longleftrightarrow>
     sorted_wrt (\<lambda>v w. vend v < vstart w) vs \<and> (\<forall>v\<in>set vs. vma_range_valid (vstart v) (vend v))"

text \<open>The addresses the areas cover.\<close>

definition vma_addrs :: "vma list \<Rightarrow> haddr set" where
  "vma_addrs vs = (\<Union>v\<in>set vs. {vstart v..vend v})"

lemma aligned_iff: "(x :: u64) AND 4095 = 0 \<longleftrightarrow> unat x mod 4096 = 0"
  by (metis unat_and_4095 unat_eq_zero)

lemma suc_aligned_iff: "((x :: u64) + 1) AND 4095 = 0 \<longleftrightarrow> (unat x + 1) mod 4096 = 0"
proof -
  have "unat (x + 1) mod 4096 = (unat x + 1) mod 18446744073709551616 mod 4096"
    by (simp add: unat_word_ariths)
  also have "\<dots> = (unat x + 1) mod 4096" by (simp add: mod_mod_cancel)
  finally show ?thesis by (simp only: aligned_iff)
qed

lemma range_valid_iff:
  "vma_range_valid s e \<longleftrightarrow> unat s \<le> unat e \<and> unat s mod 4096 = 0 \<and> (unat e + 1) mod 4096 = 0"
  unfolding vma_range_valid_def suc_aligned_iff by (simp add: aligned_iff not_less word_le_nat_alt)

lemma overlaps_iff: "vma_overlaps v s e \<longleftrightarrow> s \<le> e \<and> vstart v \<le> vend v \<and> {vstart v..vend v} \<inter> {s..e} \<noteq> {}"
  if "s \<le> e" "vstart v \<le> vend v"
  using that by (auto simp: vma_overlaps_def intro: order.trans)

lemma vma_wf_Nil [simp]: "vma_wf []"
  by (simp add: vma_wf_def)

lemma vma_wf_Cons:
  "vma_wf (v # vs) \<longleftrightarrow>
     vma_range_valid (vstart v) (vend v) \<and> (\<forall>w\<in>set vs. vend v < vstart w) \<and> vma_wf vs"
  by (auto simp: vma_wf_def)

lemma vma_wf_append:
  "vma_wf (xs @ ys) \<longleftrightarrow>
     vma_wf xs \<and> vma_wf ys \<and> (\<forall>v\<in>set xs. \<forall>w\<in>set ys. vend v < vstart w)"
  by (auto simp: vma_wf_def sorted_wrt_append)

lemma vma_addrs_simps [simp]:
  "vma_addrs [] = {}"
  "vma_addrs (v # vs) = {vstart v..vend v} \<union> vma_addrs vs"
  "vma_addrs (xs @ ys) = vma_addrs xs \<union> vma_addrs ys"
  by (auto simp: vma_addrs_def)

lemma insert_walk:
  "vma_insert_walk start vs =
     Some (takeWhile (\<lambda>v. vend v < start) vs, dropWhile (\<lambda>v. vend v < start) vs)"
  by (induction vs) auto

text \<open>The two parts of a list at an address: what lies below, and the first area at or above.\<close>

lemma split_at:
  obtains pre post where "takeWhile (\<lambda>v. vend v < s) vs = pre" "dropWhile (\<lambda>v. vend v < s) vs = post"
    "vs = pre @ post" "\<forall>v\<in>set pre. vend v < s" "\<forall>v rest. post = v # rest \<longrightarrow> s \<le> vend v"
proof
  show "vs = takeWhile (\<lambda>v. vend v < s) vs @ dropWhile (\<lambda>v. vend v < s) vs" by simp
  show "\<forall>v rest. dropWhile (\<lambda>v. vend v < s) vs = v # rest \<longrightarrow> s \<le> vend v"
    by (auto simp: dropWhile_eq_Cons_conv)
qed (auto dest: set_takeWhileD)

lemma insert_spec:
  assumes wf: "vma_wf vs" and res: "vma_insert mem vs s e a f off = (r, vs')"
  shows "r \<longleftrightarrow> mem \<and> vma_range_valid s e \<and> (\<forall>v\<in>set vs. \<not> vma_overlaps v s e)"
    "vma_wf vs'" "\<not> r \<Longrightarrow> vs' = vs"
    "r \<Longrightarrow> set vs' = insert \<lparr>vstart = s, vend = e, access = a, flags = f, voffset = off\<rparr> (set vs)"
proof -
  obtain pre post where pp: "takeWhile (\<lambda>v. vend v < s) vs = pre"
    "dropWhile (\<lambda>v. vend v < s) vs = post" "vs = pre @ post" "\<forall>v\<in>set pre. vend v < s"
    "\<forall>v rest. post = v # rest \<longrightarrow> s \<le> vend v"
    by (rule split_at)
  let ?n = "\<lparr>vstart = s, vend = e, access = a, flags = f, voffset = off\<rparr>"
  let ?hit = "case post of [] \<Rightarrow> False | v # _ \<Rightarrow> vma_overlaps v s e"
  have res': "(r, vs') = (if \<not> vma_range_valid s e \<or> ?hit \<or> \<not> mem then (False, vs)
      else (True, pre @ ?n # post))"
    using res by (simp add: vma_insert_def insert_walk pp(1,2) split: if_splits)
  have below: "\<not> vma_overlaps v s e" if "v \<in> set pre" for v
    using that pp(4) by (auto simp: vma_overlaps_def)
  have above: "e < vstart w" if "w \<in> set post" "\<not> ?hit" for w
  proof (cases post)
    case (Cons v rest)
    then have v: "e < vstart v" "vma_wf (v # rest)"
      using that(2) pp(3,5) wf by (auto simp: vma_overlaps_def vma_wf_append)
    then show ?thesis
      using that(1) Cons by (auto simp: vma_wf_Cons vma_range_valid_def)
  qed (use that in simp)
  have hit: "?hit \<longleftrightarrow> (\<exists>v\<in>set post. vma_overlaps v s e)"
    using above by (cases post) (simp, metis leD list.set_intros(1) list.simps(5) vma_overlaps_def)
  show r: "r \<longleftrightarrow> mem \<and> vma_range_valid s e \<and> (\<forall>v\<in>set vs. \<not> vma_overlaps v s e)"
    using res' below unfolding hit pp(3) by (auto split: if_splits)
  show "vma_wf vs'"
    using res' wf above pp(4) unfolding pp(3)
    by (auto simp: vma_wf_append vma_wf_Cons split: if_splits)
  show "\<not> r \<Longrightarrow> vs' = vs" "r \<Longrightarrow> set vs' = insert ?n (set vs)"
    using res' unfolding pp(3) by (auto split: if_splits)
qed

lemma addrs_disjoint:
  assumes "vma_wf (pre @ v # rest)" "vstart v \<le> s" "e \<le> vend v"
  shows "{s..e} \<inter> vma_addrs pre = {}" "{s..e} \<inter> vma_addrs rest = {}"
  using assms unfolding vma_addrs_def vma_wf_append vma_wf_Cons
  by (fastforce dest: order.strict_trans1 order.trans leD)+

lemma cut_bounds:
  assumes "vma_range_valid (vstart v) (vend v)" "vma_range_valid s e"
  shows "e < vend v \<Longrightarrow> vstart v \<le> s \<Longrightarrow> unat (e + 1) = unat e + 1 \<and> vma_range_valid (e + 1) (vend v)"
    "vstart v < s \<Longrightarrow> s \<le> vend v \<Longrightarrow> unat (s - 1) = unat s - 1 \<and> vma_range_valid (vstart v) (s - 1)"
proof -
  show "unat (e + 1) = unat e + 1 \<and> vma_range_valid (e + 1) (vend v)"
    if "e < vend v" "vstart v \<le> s"
  proof -
    have "unat (e + 1) = unat e + 1"
      using that unat_u64_less [of "vend v"] by (intro unat_suc_small) (simp add: word_nat)
    then show ?thesis using that assms by (simp add: range_valid_iff word_nat)
  qed
  show "unat (s - 1) = unat s - 1 \<and> vma_range_valid (vstart v) (s - 1)"
    if "vstart v < s" "s \<le> vend v"
  proof -
    have "s \<noteq> 0" using that(1) by auto
    then have "unat (s - 1) = unat s - 1" by (rule unat_minus_one)
    then show ?thesis using that assms by (simp add: range_valid_iff word_nat)
  qed
qed

lemma remove_noop:
  assumes wf: "vma_wf vs" and valid: "vma_range_valid s e" and out: "s \<notin> vma_addrs vs"
  shows "vma_remove mem vs s e = (True, vs)"
proof -
  obtain pre post where pp: "takeWhile (\<lambda>v. vend v < s) vs = pre"
    "dropWhile (\<lambda>v. vend v < s) vs = post" "vs = pre @ post" "\<forall>v\<in>set pre. vend v < s"
    "\<forall>v rest. post = v # rest \<longrightarrow> s \<le> vend v"
    by (rule split_at)
  have "s < vstart v" if "post = v # rest" for v rest
    using that pp(3,5) out by (auto simp: not_le)
  then show ?thesis
    using valid unfolding vma_remove_def Let_def pp(1,2) by (auto split: list.split)
qed

lemma replace_middle:
  assumes wf: "vma_wf (pre @ v # rest)" and M: "vma_wf M"
    "\<forall>m\<in>set M. vstart v \<le> vstart m \<and> vend m \<le> vend v"
    "vma_addrs M = {vstart v..vend v} - {s..k}" and sk: "vstart v \<le> s" "k \<le> vend v"
  shows "vma_wf (pre @ M @ rest)"
    "vma_addrs (pre @ M @ rest) = vma_addrs (pre @ v # rest) - {s..k}"
proof -
  show "vma_wf (pre @ M @ rest)"
    using wf M(1,2) unfolding vma_wf_append vma_wf_Cons
    by (fastforce intro: order.strict_trans1 order.strict_trans2)
  show "vma_addrs (pre @ M @ rest) = vma_addrs (pre @ v # rest) - {s..k}"
    using addrs_disjoint [OF wf sk] M(3) by auto
qed

lemma range_le: "vma_range_valid s e \<Longrightarrow> s \<le> e"
  by (auto simp: vma_range_valid_def)

lemma middle_both:
  assumes "vma_range_valid (vstart v) (vend v)" "vma_range_valid s e" "vstart v < s" "e < vend v"
  defines "M \<equiv> [v\<lparr>vend := s - 1\<rparr>, v\<lparr>vstart := e + 1\<rparr>]"
  shows "vma_wf M" "\<forall>m\<in>set M. vstart v \<le> vstart m \<and> vend m \<le> vend v"
    "vma_addrs M = {vstart v..vend v} - {s..e}"
proof -
  have se: "s \<le> e" by (rule range_le [OF assms(2)])
  have e: "unat (e + 1) = unat e + 1" "vma_range_valid (e + 1) (vend v)"
    using cut_bounds(1) [OF assms(1,2,4)] assms(3) by auto
  have s: "unat (s - 1) = unat s - 1" "vma_range_valid (vstart v) (s - 1)"
    using cut_bounds(2) [OF assms(1-3)] se assms(4) by auto
  show "vma_wf M" "\<forall>m\<in>set M. vstart v \<le> vstart m \<and> vend m \<le> vend v"
    using s e se assms(3,4) by (auto simp: M_def vma_wf_Cons word_nat)
  show "vma_addrs M = {vstart v..vend v} - {s..e}"
    using s(1) e(1) se assms(3,4) by (auto simp: M_def word_nat)
qed

lemma middle_head:
  assumes "vma_range_valid (vstart v) (vend v)" "vma_range_valid (vstart v) e" "e < vend v"
  defines "M \<equiv> [v\<lparr>vstart := e + 1\<rparr>]"
  shows "vma_wf M" "\<forall>m\<in>set M. vstart v \<le> vstart m \<and> vend m \<le> vend v"
    "vma_addrs M = {vstart v..vend v} - {vstart v..e}"
proof -
  have e: "unat (e + 1) = unat e + 1" "vma_range_valid (e + 1) (vend v)"
    using cut_bounds(1) [OF assms(1-3)] by auto
  show "vma_wf M" "\<forall>m\<in>set M. vstart v \<le> vstart m \<and> vend m \<le> vend v"
    "vma_addrs M = {vstart v..vend v} - {vstart v..e}"
    using e range_le [OF assms(2)] assms(3) by (auto simp: M_def vma_wf_Cons word_nat)
qed

lemma middle_tail:
  assumes "vma_range_valid (vstart v) (vend v)" "vma_range_valid s e" "vstart v < s" "s \<le> vend v"
  defines "M \<equiv> [v\<lparr>vend := s - 1\<rparr>]"
  shows "vma_wf M" "\<forall>m\<in>set M. vstart v \<le> vstart m \<and> vend m \<le> vend v"
    "vma_addrs M = {vstart v..vend v} - {s..vend v}"
proof -
  have s: "unat (s - 1) = unat s - 1" "vma_range_valid (vstart v) (s - 1)"
    using cut_bounds(2) [OF assms(1-4)] by auto
  show "vma_wf M" "\<forall>m\<in>set M. vstart v \<le> vstart m \<and> vend m \<le> vend v"
    "vma_addrs M = {vstart v..vend v} - {s..vend v}"
    using s assms(3,4) by (auto simp: M_def vma_wf_Cons word_nat)
qed

lemma remove_hit:
  assumes wf: "vma_wf vs" and valid: "vma_range_valid s e"
    and v: "v \<in> set vs" "vstart v \<le> s" "s \<le> vend v"
    and res: "vma_remove mem vs s e = (r, vs')"
  shows "vma_wf vs'"
    "r \<longleftrightarrow> mem \<or> s = vstart v \<or> vend v \<le> e"
    "vma_addrs vs' = vma_addrs vs - (if r then {s..min e (vend v)} else {})"
proof -
  obtain pre post where pp: "takeWhile (\<lambda>v. vend v < s) vs = pre"
    "dropWhile (\<lambda>v. vend v < s) vs = post" "vs = pre @ post" "\<forall>v\<in>set pre. vend v < s"
    "\<forall>v rest. post = v # rest \<longrightarrow> s \<le> vend v"
    by (rule split_at)
  have "v \<notin> set pre" using pp(4) v(3) by auto
  then obtain u rest where post: "post = u # rest" "v \<in> set (u # rest)"
    using v(1) pp(3) by (cases post) auto
  have wf': "vma_wf (pre @ u # rest)" using wf pp(3) post(1) by simp
  have "v = u"
  proof (rule ccontr)
    assume "v \<noteq> u"
    then have "vend u < vstart v" using post(2) wf' by (auto simp: vma_wf_append vma_wf_Cons)
    moreover have "s \<le> vend u" using pp(5) post(1) by blast
    ultimately show False using v(2) by simp
  qed
  with wf' post have wfv: "vma_wf (pre @ v # rest)" and vs: "vs = pre @ v # rest" using pp(3) by auto
  have vv: "vma_range_valid (vstart v) (vend v)" using wfv by (simp add: vma_wf_append vma_wf_Cons)
  define k where "k = (if e < vend v then e else vend v)"
  have res': "(r, vs') =
     (if s = vstart v \<and> k = vend v then (True, pre @ rest)
      else if s = vstart v then (True, pre @ v\<lparr>vstart := k + 1\<rparr> # rest)
      else if k = vend v then (True, pre @ v\<lparr>vend := s - 1\<rparr> # rest)
      else if \<not> mem then (False, vs)
      else (True, pre @ v\<lparr>vend := s - 1\<rparr> # v\<lparr>vstart := k + 1\<rparr> # rest))"
  proof -
    have "\<not> s < vstart v" using v(2) by auto
    then show ?thesis
      using res [symmetric, unfolded vma_remove_def Let_def pp(1,2) post(1) \<open>v = u\<close> [symmetric]]
        valid
      by (simp only: list.case if_False if_True not_True_eq_False k_def)
  qed
  show "r \<longleftrightarrow> mem \<or> s = vstart v \<or> vend v \<le> e"
    using res' by (auto simp: k_def split: if_splits)
  have k: "k = min e (vend v)" "k = e \<or> k = vend v" "k \<le> vend v" by (auto simp: k_def)
  have "vma_wf vs' \<and> vma_addrs vs' = vma_addrs vs - (if r then {s..k} else {})"
  proof -
    consider "s = vstart v" "k = vend v" | "s = vstart v" "k = e" "e < vend v"
      | "vstart v < s" "k = vend v" | "vstart v < s" "k = e" "e < vend v"
      using order.order_iff_strict [THEN iffD1, OF v(2)] by (cases "e < vend v") (auto simp: k_def)
    then show ?thesis
    proof cases
      case 1
      have "vma_wf (pre @ [] @ rest)" "vma_addrs (pre @ [] @ rest) = vma_addrs (pre @ v # rest) - {s..k}"
        using replace_middle [OF wfv, of "[]" s k] 1 by simp_all
      then show ?thesis using res' 1 vs by simp
    next
      case 2
      note m = middle_head [OF vv valid [unfolded 2(1)] 2(3)]
      show ?thesis using replace_middle [OF wfv m] res' 2 vs by (auto split: if_splits)
    next
      case 3
      note m = middle_tail [OF vv valid 3(1) v(3)]
      show ?thesis using replace_middle [OF wfv m] res' 3 vs by (auto split: if_splits)
    next
      case 4
      note m = middle_both [OF vv valid 4(1,3)]
      show ?thesis using replace_middle [OF wfv m] res' 4 vs wf by (auto split: if_splits)
    qed
  qed
  then show "vma_wf vs'" "vma_addrs vs' = vma_addrs vs - (if r then {s..min e (vend v)} else {})"
    by (simp_all add: k(1))
qed

section \<open>Searching for a gap\<close>

lemma unat_minus_one_diff: "unat (- 1 - (x :: u64)) = 18446744073709551615 - unat x"
  by (simp add: unat_sub_small)

lemma range_fits_iff:
  assumes "len \<noteq> 0"
  shows "vma_range_fits c lo hi len = Some e \<longleftrightarrow>
    lo \<le> c \<and> unat e = unat c + unat len - 1 \<and> unat e \<le> unat hi"
proof -
  have len: "unat (len - 1) = unat len - 1" "0 < unat len"
    using assms by (auto simp: unat_minus_one unat_gt_0)
  have sum: "unat (c + len - 1) = unat c + unat len - 1" if "unat c + unat len - 1 < 18446744073709551616"
  proof -
    have "unat (c + (len - 1)) = unat c + unat (len - 1)"
      using that len by (intro unat_add_small) simp
    then show ?thesis using len by (simp add: algebra_simps)
  qed
  have max: "unat hi < 18446744073709551616" by (rule unat_u64_less)
  show ?thesis
  proof (cases "unat c + unat len - 1 < 18446744073709551616")
    case True
    have "Some (c + len - 1) = Some e \<longleftrightarrow> unat e = unat c + unat len - 1"
      using sum [OF True] by (auto intro: unat_inj)
    then show ?thesis
      using True len sum [OF True]
      by (auto simp: vma_range_fits_def Let_def word_nat unat_minus_one_diff)
  next
    case False
    then have "- 1 - c < len - 1"
      using len unat_u64_less [of c] unfolding word_less_nat_alt unat_minus_one_diff by linarith
    then show ?thesis using False max by (auto simp: vma_range_fits_def)
  qed
qed

lemma range_fits_mono:
  assumes "len \<noteq> 0" "vma_range_fits c lo hi len = Some e" "vma_range_fits b lo hi len = Some e'"
  shows "c \<le> b \<longleftrightarrow> e \<le> e'"
proof -
  have "0 < unat len" using assms(1) by (simp add: unat_gt_0)
  then show ?thesis using assms(2,3) unfolding range_fits_iff [OF assms(1)] word_le_nat_alt by linarith
qed

lemma range_fits_down:
  assumes "len \<noteq> 0" "vma_range_fits b lo hi len = Some e" "lo \<le> c" "c \<le> b"
  shows "\<exists>e. vma_range_fits c lo hi len = Some e"
proof -
  have "0 < unat len" using assms(1) by (simp add: unat_gt_0)
  then have "unat c + unat len - 1 \<le> unat hi"
    using assms(2,4) unfolding range_fits_iff [OF assms(1)] word_le_nat_alt by linarith
  moreover from this have "unat (word_of_nat (unat c + unat len - 1) :: u64) = unat c + unat len - 1"
    using unat_u64_less [of hi] by (intro unat_of_nat_small) linarith
  ultimately show ?thesis using assms(3) range_fits_iff [OF assms(1)] by metis
qed

text \<open>A position that a search may return: the range of \<open>len\<close> bytes at it lies within the
  bounds and meets no area.\<close>

definition gap_at :: "vma list \<Rightarrow> haddr \<Rightarrow> haddr \<Rightarrow> haddr \<Rightarrow> haddr \<Rightarrow> bool" where
  "gap_at vs lo hi len a \<longleftrightarrow>
     (case vma_range_fits a lo hi len of
        None \<Rightarrow> False
      | Some e \<Rightarrow> \<forall>v\<in>set vs. \<not> vma_overlaps v a e)"

lemma gap_atI:
  "vma_range_fits a lo hi len = Some e \<Longrightarrow> (\<And>v. v \<in> set vs \<Longrightarrow> \<not> vma_overlaps v a e) \<Longrightarrow>
    gap_at vs lo hi len a"
  by (simp add: gap_at_def)

lemma gap_atE:
  assumes "gap_at vs lo hi len a"
  obtains e where "vma_range_fits a lo hi len = Some e" "\<And>v. v \<in> set vs \<Longrightarrow> \<not> vma_overlaps v a e"
  using assms by (auto simp: gap_at_def split: option.splits)

lemma find_forward_loop_spec:
  assumes "vma_wf vs" "len \<noteq> 0" "vma_range_fits c lo hi len = Some e"
  shows "case find_forward_loop lo hi len c e vs of
      Some a \<Rightarrow> c \<le> a \<and> gap_at vs lo hi len a \<and> (\<forall>b. c \<le> b \<and> gap_at vs lo hi len b \<longrightarrow> a \<le> b) \<and>
        (a = c \<or> (\<exists>v\<in>set vs. a = vend v + 1))
    | None \<Rightarrow> \<forall>b. c \<le> b \<longrightarrow> \<not> gap_at vs lo hi len b"
  using assms
proof (induction lo hi len c e vs rule: find_forward_loop.induct)
  case (1 lo hi len c e)
  then show ?case by (simp add: gap_at_def)
next
  case (2 lo hi len c e v vs)
  have wf: "vma_wf vs" and v: "vstart v \<le> vend v" "\<forall>w\<in>set vs. vend v < vstart w"
    using "2.prems"(1) by (auto simp: vma_wf_Cons intro: range_le)
  have gap_Cons: "gap_at (v # vs) lo hi len b \<longleftrightarrow>
      gap_at vs lo hi len b \<and> (\<forall>e. vma_range_fits b lo hi len = Some e \<longrightarrow> \<not> vma_overlaps v b e)" for b
    by (auto simp: gap_at_def split: option.splits)
  show ?case
  proof (cases "vend v < c")
    case True
    then have "gap_at (v # vs) lo hi len b \<longleftrightarrow> gap_at vs lo hi len b" if "c \<le> b" for b
      using that unfolding gap_Cons by (auto simp: vma_overlaps_def)
    then show ?thesis
      using "2.IH"(1) [OF True wf "2.prems"(2,3)] True by (auto split: option.splits)
  next
    case c: False
    show ?thesis
    proof (cases "e < vstart v")
      case True
      then have "gap_at (v # vs) lo hi len c"
        using v by (intro gap_atI [OF "2.prems"(3)]) (auto simp: vma_overlaps_def)
      then show ?thesis using c True by simp
    next
      case e: False
      have beyond: "vend v < b" if b: "c \<le> b" "gap_at (v # vs) lo hi len b" for b
      proof -
        obtain e' where e': "vma_range_fits b lo hi len = Some e'" "\<not> vma_overlaps v b e'"
          using b(2) by (auto elim!: gap_atE)
        have "e \<le> e'" using range_fits_mono [OF "2.prems"(2,3) e'(1)] b(1) by simp
        then show ?thesis using e'(2) e by (auto simp: vma_overlaps_def)
      qed
      show ?thesis
      proof (cases "vend v = - 1")
        case True
        then show ?thesis using beyond c e by auto
      next
        case no_max: False
        then have "vend v < - 1" by (simp add: word_order.not_eq_extremum)
        then have suc: "unat (vend v + 1) = unat (vend v) + 1"
          by (intro unat_suc_small) (simp add: word_less_nat_alt)
        then have le: "vend v < b \<longleftrightarrow> vend v + 1 \<le> b" for b by (auto simp: word_nat)
        have same: "gap_at (v # vs) lo hi len b \<longleftrightarrow> gap_at vs lo hi len b" if "vend v + 1 \<le> b" for b
          using that unfolding gap_Cons le [symmetric] by (auto simp: vma_overlaps_def)
        show ?thesis
        proof (cases "vma_range_fits (vend v + 1) lo hi len")
          case None
          have "\<not> gap_at (v # vs) lo hi len b" if "c \<le> b" for b
          proof
            assume gap: "gap_at (v # vs) lo hi len b"
            then obtain e' where "vma_range_fits b lo hi len = Some e'" by (auto elim: gap_atE)
            moreover have "vend v + 1 \<le> b" using beyond [OF that gap] le by blast
            moreover have "lo \<le> c" using "2.prems"(3) range_fits_iff [OF "2.prems"(2)] by auto
            ultimately show False
              using range_fits_down [OF "2.prems"(2), of b lo hi e' "vend v + 1"] c suc None
              by (simp add: word_nat)
          qed
          then show ?thesis using c e no_max None by simp
        next
          case (Some e2)
          have "c \<le> vend v + 1" using c le by (metis linorder_not_less order.strict_implies_order)
          have loop: "find_forward_loop lo hi len c e (v # vs) =
              find_forward_loop lo hi len (vend v + 1) e2 vs"
            using c e no_max Some by simp
          have up: "vend v + 1 \<le> b \<and> gap_at vs lo hi len b" if "c \<le> b" "gap_at (v # vs) lo hi len b" for b
            using beyond [OF that] le same that(2) by blast
          note IH = "2.IH"(2) [OF c e no_max refl Some wf "2.prems"(2) Some]
          show ?thesis
          proof (cases "find_forward_loop lo hi len (vend v + 1) e2 vs")
            case None
            then show ?thesis using IH up unfolding loop None option.case by blast
          next
            case found: (Some a)
            have a: "vend v + 1 \<le> a" "gap_at vs lo hi len a"
              "\<forall>b. vend v + 1 \<le> b \<and> gap_at vs lo hi len b \<longrightarrow> a \<le> b"
              "a = vend v + 1 \<or> (\<exists>w\<in>set vs. a = vend w + 1)"
              using IH unfolding found option.case by blast+
            have "c \<le> a" using \<open>c \<le> vend v + 1\<close> a(1) by (rule order.trans)
            then show ?thesis
              using same [OF a(1)] up a unfolding loop found option.case by (auto simp: gap_Cons)
          qed
        qed
      qed
    qed
  qed
qed

lemma unat_align_down: "unat (vma_align_down x) = unat x - unat x mod 4096"
  by (simp only: vma_align_down_def unat_and_not_4095)

lemma align_down_props:
  "vma_align_down x \<le> x" "unat (vma_align_down x) mod 4096 = 0"
  "unat b mod 4096 = 0 \<Longrightarrow> b \<le> x \<Longrightarrow> b \<le> vma_align_down x"
proof -
  show "vma_align_down x \<le> x" by (simp add: word_le_nat_alt unat_align_down)
  show "unat (vma_align_down x) mod 4096 = 0"
    by (simp add: unat_align_down minus_mod_eq_mult_div)
  assume b: "unat b mod 4096 = 0" "b \<le> x"
  then have "unat b div 4096 \<le> unat x div 4096" by (simp add: word_le_nat_alt div_le_mono)
  moreover have "unat b = 4096 * (unat b div 4096)" using b(1) by auto
  ultimately have "unat b \<le> 4096 * (unat x div 4096)" by linarith
  then show "b \<le> vma_align_down x"
    by (simp add: word_le_nat_alt unat_align_down minus_mod_eq_mult_div)
qed

lemma align_up_props:
  assumes "unat x \<le> 18446744073709551615 - 4095"
  shows "x \<le> vma_align_up x" "unat (vma_align_up x) mod 4096 = 0"
    "unat b mod 4096 = 0 \<Longrightarrow> x \<le> b \<Longrightarrow> vma_align_up x \<le> b"
proof -
  have "x + 4096 - 1 = x + 4095" by simp
  moreover have "unat (x + 4095) = unat x + 4095" using assms by (intro unat_add_small [of x 4095, simplified]) simp
  ultimately have u: "unat (vma_align_up x) = (unat x + 4095) - (unat x + 4095) mod 4096"
    by (simp only: vma_align_up_def unat_and_not_4095)
  have m: "(unat x + 4095) mod 4096 \<le> 4095" by (simp add: less_Suc_eq_le [symmetric])
  show "x \<le> vma_align_up x" unfolding word_le_nat_alt u using m by linarith
  show "unat (vma_align_up x) mod 4096 = 0" unfolding u by (simp add: minus_mod_eq_mult_div)
  assume b: "unat b mod 4096 = 0" "x \<le> b"
  have "unat b = 4096 * (unat b div 4096)" using b(1) by auto
  moreover have "(unat x + 4095) div 4096 \<le> (unat b + 4095) div 4096"
    using b(2) by (simp add: word_le_nat_alt div_le_mono)
  moreover have "(4096 * q + 4095) div 4096 = q" for q :: nat by simp
  ultimately have "(unat x + 4095) div 4096 \<le> unat b div 4096" by metis
  then show "vma_align_up x \<le> b"
    unfolding word_le_nat_alt u minus_mod_eq_mult_div using \<open>unat b = 4096 * _\<close> by linarith
qed

lemma gap_skip_high:
  assumes "len \<noteq> 0" "vma_range_fits c lo hi len = Some e" "\<forall>v\<in>set skip. e < vstart v" "b \<le> c"
  shows "gap_at (skip @ vs) lo hi len b \<longleftrightarrow> gap_at vs lo hi len b"
proof -
  have "\<not> vma_overlaps v b e'" if "v \<in> set skip" "vma_range_fits b lo hi len = Some e'" for v e'
    using range_fits_mono [OF assms(1) that(2) assms(2)] that(1) assms(3,4)
    by (auto simp: vma_overlaps_def)
  then show ?thesis by (auto simp: gap_at_def split: option.splits)
qed

lemma gap_below:
  assumes "len \<noteq> 0" "gap_at (v # rest) lo hi len b" "b \<le> vend v"
  shows "unat b + unat len \<le> unat (vstart v)" "unat lo \<le> unat b" "gap_at rest lo hi len b"
proof -
  obtain e' where e': "vma_range_fits b lo hi len = Some e'" "\<And>w. w \<in> set (v # rest) \<Longrightarrow> \<not> vma_overlaps w b e'"
    using assms(2) by (auto elim!: gap_atE)
  have "e' < vstart v" using e'(2) [of v] assms(3) by (auto simp: vma_overlaps_def)
  then show "unat b + unat len \<le> unat (vstart v)" "unat lo \<le> unat b"
    using e'(1) unfolding range_fits_iff [OF assms(1)] word_nat by auto
  show "gap_at rest lo hi len b" using e' by (auto intro: gap_atI)
qed

lemma next_candidate:
  assumes "\<not> (vstart v \<le> lo \<or> vstart v - lo < len)"
  defines "c \<equiv> vma_align_down (vstart v - len)"
  shows "unat c + unat len \<le> unat (vstart v)" "unat c mod 4096 = 0"
    "unat b mod 4096 = 0 \<Longrightarrow> unat b + unat len \<le> unat (vstart v) \<Longrightarrow> b \<le> c"
proof -
  have vl: "unat (vstart v - len) = unat (vstart v) - unat len" "unat len \<le> unat (vstart v)"
    using assms(1) by (auto simp: word_nat unat_sub_if' split: if_splits)
  show "unat c + unat len \<le> unat (vstart v)" "unat c mod 4096 = 0"
    using align_down_props(1,2) [of "vstart v - len"] vl by (auto simp: c_def word_nat)
  show "b \<le> c" if "unat b mod 4096 = 0" "unat b + unat len \<le> unat (vstart v)"
    unfolding c_def using that vl by (intro align_down_props(3)) (auto simp: word_nat)
qed

text \<open>What a backward search from \<open>c\<close> must return: the greatest aligned gap at or below \<open>c\<close>.\<close>

definition backward_ok :: "vma list \<Rightarrow> haddr \<Rightarrow> haddr \<Rightarrow> haddr \<Rightarrow> haddr \<Rightarrow> haddr option \<Rightarrow> bool" where
  "backward_ok vs lo hi len c r \<longleftrightarrow>
     (case r of
        Some a \<Rightarrow> a \<le> c \<and> gap_at vs lo hi len a \<and> unat a mod 4096 = 0 \<and>
          (\<forall>b. b \<le> c \<and> unat b mod 4096 = 0 \<and> gap_at vs lo hi len b \<longrightarrow> b \<le> a)
      | None \<Rightarrow> \<forall>b. b \<le> c \<and> unat b mod 4096 = 0 \<longrightarrow> \<not> gap_at vs lo hi len b)"

lemma backward_ok_step:
  assumes len: "len \<noteq> 0" and c: "vma_range_fits c lo hi len = Some e" "vstart v \<le> e" "c \<le> vend v"
    and room: "\<not> (vstart v \<le> lo \<or> vstart v - lo < len)"
    and IH: "backward_ok rest lo hi len (vma_align_down (vstart v - len)) r"
  shows "backward_ok (v # rest) lo hi len c r"
proof -
  define c' where "c' = vma_align_down (vstart v - len)"
  note cand = next_candidate [OF room, folded c'_def]
  have pos: "0 < unat len" using len by (simp add: unat_gt_0)
  have "unat (vstart v) \<le> unat c + unat len - 1"
    using c(1,2) unfolding range_fits_iff [OF len] word_nat by simp
  then have "c' \<le> c" using cand(1) pos unfolding word_le_nat_alt by linarith
  have up: "b \<le> c' \<and> gap_at rest lo hi len b"
    if "b \<le> c" "unat b mod 4096 = 0" "gap_at (v # rest) lo hi len b" for b
    using gap_below [OF len that(3)] cand(3) [OF that(2)] that(1) c(3) order.trans by blast
  have down: "gap_at (v # rest) lo hi len a" if a: "a \<le> c'" "gap_at rest lo hi len a" for a
  proof -
    obtain e' where e': "vma_range_fits a lo hi len = Some e'" "\<And>w. w \<in> set rest \<Longrightarrow> \<not> vma_overlaps w a e'"
      using a(2) by (auto elim!: gap_atE)
    then have "\<not> vma_overlaps v a e'"
      using a(1) cand(1) pos unfolding range_fits_iff [OF len] vma_overlaps_def word_nat by linarith
    then show ?thesis using e' by (auto simp: gap_at_def)
  qed
  show ?thesis
  proof (cases r)
    case None
    have "\<not> gap_at (v # rest) lo hi len b" if b: "b \<le> c" "unat b mod 4096 = 0" for b
      using up [OF b] b(2) IH unfolding None backward_ok_def c'_def [symmetric] by auto
    then show ?thesis by (simp add: None backward_ok_def)
  next
    case (Some a)
    then have a: "a \<le> c'" "gap_at rest lo hi len a" "unat a mod 4096 = 0"
      "\<forall>b. b \<le> c' \<and> unat b mod 4096 = 0 \<and> gap_at rest lo hi len b \<longrightarrow> b \<le> a"
      using IH unfolding backward_ok_def c'_def [symmetric] by auto
    then show ?thesis
      using down up order.trans [OF a(1) \<open>c' \<le> c\<close>] unfolding Some backward_ok_def by simp
  qed
qed

lemma backward_none:
  assumes "len \<noteq> 0" "vma_range_fits c lo hi len = None" "c \<le> hi'"
    "\<exists>e. vma_range_fits hi' lo hi len = Some e"
  shows "backward_ok vs lo hi len c None"
proof -
  have "lo \<le> b" if "gap_at vs lo hi len b" for b
    using that assms(1) by (auto elim!: gap_atE simp: range_fits_iff)
  moreover have "\<not> lo \<le> c" using assms range_fits_down by fastforce
  ultimately show ?thesis unfolding backward_ok_def by (auto dest: order.trans)
qed

lemma find_backward_loop_spec:
  assumes "vma_wf (rev rvs)" "len \<noteq> 0" "unat c mod 4096 = 0"
    and "c \<le> cmax" "\<exists>e. vma_range_fits cmax lo hi len = Some e"
  shows "backward_ok rvs lo hi len c (find_backward_loop lo hi len c rvs)"
  using assms
proof (induction lo hi len c rvs rule: find_backward_loop.induct)
  case (1 lo hi len c rvs)
  note unfold = find_backward_loop.simps [of lo hi len c rvs] and len = "1.prems"(2)
  show ?case
  proof (cases "vma_range_fits c lo hi len")
    case None
    then show ?thesis using backward_none [OF len None "1.prems"(4,5)] by (simp add: unfold)
  next
    case e: (Some e)
    define rest0 where "rest0 = dropWhile (\<lambda>v. e < vstart v) rvs"
    have "rvs = takeWhile (\<lambda>v. e < vstart v) rvs @ rest0" by (simp add: rest0_def)
    then have drop: "gap_at rvs lo hi len b \<longleftrightarrow> gap_at rest0 lo hi len b" if "b \<le> c" for b
      using gap_skip_high [OF len e _ that] by (metis set_takeWhileD)
    have ok: "backward_ok rvs lo hi len c r \<longleftrightarrow> backward_ok rest0 lo hi len c r" for r
      unfolding backward_ok_def using drop by (cases r) auto
    show ?thesis
    proof (cases rest0)
      case Nil
      then have "find_backward_loop lo hi len c rvs = Some c" 
        unfolding unfold e option.case using Nil [unfolded rest0_def] by (simp only: list.case)
      moreover have "gap_at rvs lo hi len c" using drop [of c] Nil e by (simp add: gap_at_def)
      ultimately show ?thesis using "1.prems"(3) by (simp add: backward_ok_def)
    next
      case (Cons v rest)
      have low: "vstart v \<le> e" using Cons by (auto simp: rest0_def dropWhile_eq_Cons_conv)
      have "vma_wf (rev rest0)"
        using "1.prems"(1) \<open>rvs = _ @ rest0\<close> by (metis rev_append vma_wf_append)
      then have wf: "vma_wf (rev rest)" "vstart v \<le> vend v" "\<forall>w\<in>set rest. vend w < vstart v"
        unfolding Cons by (auto simp: vma_wf_append vma_wf_Cons intro: range_le)
      have drop0: "dropWhile (\<lambda>v. e < vstart v) rvs = v # rest" using Cons by (simp add: rest0_def)
      note loop = unfold [unfolded e option.case drop0 list.case]
      show ?thesis
      proof (cases "vend v < c")
        case True
        then have "vend w < c" if "w \<in> set (v # rest)" for w using that wf(2,3) by fastforce
        then have "gap_at (v # rest) lo hi len c"
          by (intro gap_atI [OF e]) (auto simp: vma_overlaps_def dest: leD)
        then show ?thesis
          unfolding ok Cons using True "1.prems"(3) by (simp add: loop backward_ok_def)
      next
        case False
        then have cv: "c \<le> vend v" by simp
        have pos: "0 < unat len" using len by (simp add: unat_gt_0)
        show ?thesis
        proof (cases "vstart v \<le> lo \<or> vstart v - lo < len")
          case True
          have "\<not> gap_at (v # rest) lo hi len b" if "b \<le> c" for b
          proof
            assume "gap_at (v # rest) lo hi len b"
            from gap_below [OF len this order.trans [OF that cv]] pos
            have "unat len \<le> unat (vstart v) - unat lo" "unat lo < unat (vstart v)" by linarith+
            then show False using True unat_sub_small [of lo "vstart v"] by (auto simp: word_nat)
          qed
          then show ?thesis unfolding ok Cons using True False by (auto simp: loop backward_ok_def)
        next
          case room: False
          let ?c = "vma_align_down (vstart v - len)"
          have "?c \<le> c"
            using next_candidate(1) [OF room] low e pos
            unfolding range_fits_iff [OF len] word_nat by linarith
          then have "backward_ok rest lo hi len ?c (find_backward_loop lo hi len ?c rest)"
            using "1.IH" [OF e drop0 False] room wf(1) len next_candidate(2) [OF room] "1.prems"(4,5)
            by auto
          from backward_ok_step [OF len e low cv room this] show ?thesis
            unfolding ok Cons using room False by (simp add: loop)
        qed
      qed
    qed
  qed
qed

text \<open>The start of a forward search.\<close>

definition forward_start :: "haddr \<Rightarrow> haddr \<Rightarrow> haddr option" where
  "forward_start hint lo =
     (let candidate = (if hint = 0 then lo else hint)
      in if candidate AND 4095 \<noteq> 0 \<and> - 1 - 4095 < candidate then None
         else
           (let up = (if candidate AND 4095 \<noteq> 0 then vma_align_up candidate else candidate)
            in Some (if up < lo then lo else up)))"

lemma forward_unfold:
  "vma_find_free_forward vs hint lo hi len =
     (if len = 0 \<or> hi < lo \<or> len AND 4095 \<noteq> 0 then None
      else
        (case forward_start hint lo of
           None \<Rightarrow> None
         | Some c \<Rightarrow>
             (case vma_range_fits c lo hi len of
                None \<Rightarrow> None
              | Some e \<Rightarrow> find_forward_loop lo hi len c e vs)))"
  by (auto simp: vma_find_free_forward_def forward_start_def Let_def)

lemma forward_start_aligned:
  assumes "unat lo mod 4096 = 0" "forward_start hint lo = Some c"
  shows "unat c mod 4096 = 0" "lo \<le> c"
proof -
  let ?c = "if hint = 0 then lo else hint"
  have "unat (if ?c AND 4095 \<noteq> 0 then vma_align_up ?c else ?c) mod 4096 = 0"
  proof (cases "?c AND 4095 = 0")
    case False
    then have "\<not> - 1 - 4095 < ?c" using assms(2) by (auto simp: forward_start_def Let_def split: if_splits)
    then have "unat ?c \<le> 18446744073709551615 - 4095"
      unfolding word_less_nat_alt unat_minus_one_diff by simp
    from align_up_props(2) [OF this] show ?thesis using False by simp
  qed (simp add: aligned_iff)
  then show "unat c mod 4096 = 0" "lo \<le> c"
    using assms by (auto simp: forward_start_def Let_def split: if_splits)
qed

lemma forward_sound:
  assumes wf: "vma_wf vs" and lo: "unat lo mod 4096 = 0"
    and res: "vma_find_free_forward vs hint lo hi len = Some a"
  shows "gap_at vs lo hi len a" "unat a mod 4096 = 0" "len \<noteq> 0" "unat len mod 4096 = 0"
proof -
  from res obtain c e where len: "len \<noteq> 0" "len AND 4095 = 0" and c: "forward_start hint lo = Some c"
    and e: "vma_range_fits c lo hi len = Some e" and loop: "find_forward_loop lo hi len c e vs = Some a"
    by (auto simp: forward_unfold split: if_splits option.splits)
  have spec: "gap_at vs lo hi len a" "a = c \<or> (\<exists>v\<in>set vs. a = vend v + 1)"
    using find_forward_loop_spec [OF wf len(1) e] loop by auto
  show "gap_at vs lo hi len a" by (rule spec(1))
  show "unat a mod 4096 = 0"
    using spec(2) forward_start_aligned [OF lo c] wf
    by (auto simp: vma_wf_def vma_range_valid_def aligned_iff)
  show "len \<noteq> 0" "unat len mod 4096 = 0" using len by (simp_all add: aligned_iff)
qed

lemma above_sorted:
  assumes "vma_wf (dropWhile (\<lambda>v. vstart v \<le> e) vs)"
  shows "\<forall>w\<in>set (dropWhile (\<lambda>v. vstart v \<le> e) vs). e < vstart w"
proof (cases "dropWhile (\<lambda>v. vstart v \<le> e) vs")
  case (Cons u rest)
  then have "e < vstart u" by (auto simp: dropWhile_eq_Cons_conv)
  moreover have "vstart u \<le> vend u" "\<forall>w\<in>set rest. vend u < vstart w"
    using assms Cons by (auto simp: vma_wf_Cons intro: range_le)
  ultimately show ?thesis unfolding Cons by fastforce
qed (simp only: list.set ball_empty)

lemma gap_at_set: "set vs = set ws \<Longrightarrow> gap_at vs lo hi len b = gap_at ws lo hi len b"
  by (simp add: gap_at_def split: option.split)

text \<open>The start of a backward search.\<close>

definition backward_start :: "haddr \<Rightarrow> haddr \<Rightarrow> haddr \<Rightarrow> haddr" where
  "backward_start hint hi len =
     (let highest = vma_align_down (hi - len + 1);
          candidate = (if hint = 0 then highest else vma_align_down hint)
      in if highest < candidate then highest else candidate)"

lemma backward_unfold:
  "vma_find_free_backward vs hint lo hi len =
     (if len = 0 \<or> \<not> lo \<le> hi \<or> len AND 4095 \<noteq> 0 \<or> \<not> len - 1 \<le> hi - lo then None
      else
        (case vma_range_fits (backward_start hint hi len) lo hi len of
           None \<Rightarrow> None
         | Some e \<Rightarrow> find_backward_loop lo hi len (backward_start hint hi len)
             (rev (takeWhile (\<lambda>v. vstart v \<le> e) vs))))"
  unfolding vma_find_free_backward_def backward_start_def Let_def not_le by auto

lemma backward_exact:
  assumes wf: "vma_wf vs" and len: "len \<noteq> 0" "len AND 4095 = 0" "lo \<le> hi" "len - 1 \<le> hi - lo"
  shows "backward_ok vs lo hi len (backward_start hint hi len) (vma_find_free_backward vs hint lo hi len)"
proof -
  define cmax where "cmax = vma_align_down (hi - len + 1)"
  define c where "c = backward_start hint hi len"
  have pos: "0 < unat len" using len(1) by (simp add: unat_gt_0)
  have al: "unat c mod 4096 = 0" "c \<le> cmax"
    using align_down_props(2) [of hint] align_down_props(2) [of "hi - len + 1"]
    by (auto simp: c_def backward_start_def cmax_def Let_def)
  have "unat len - 1 \<le> unat hi - unat lo"
    using len pos by (auto simp: word_le_nat_alt unat_minus_one unat_sub_small)
  then have "unat (hi - (len - 1)) = unat hi - (unat len - 1)" "unat len - 1 \<le> unat hi"
    using len(1) unat_sub_small [of "len - 1" hi] by (auto simp: word_le_nat_alt unat_minus_one)
  moreover have "hi - len + 1 = hi - (len - 1)" by simp
  ultimately have "unat (hi - len + 1) = unat hi - (unat len - 1)" "unat len - 1 \<le> unat hi"
    by (simp_all only:)
  then have "unat cmax + unat len - 1 \<le> unat hi"
    using align_down_props(1) [of "hi - len + 1"] pos unfolding cmax_def word_le_nat_alt by linarith
  show ?thesis
  proof (cases "vma_range_fits c lo hi len")
    case None
    have "\<not> lo \<le> c"
    proof
      assume "lo \<le> c"
      moreover have "unat c + unat len - 1 \<le> unat hi"
        using al(2) \<open>unat cmax + _ - 1 \<le> _\<close> unfolding word_le_nat_alt by linarith
      moreover from this have "unat (word_of_nat (unat c + unat len - 1) :: u64) = unat c + unat len - 1"
        using unat_u64_less [of hi] by (intro unat_of_nat_small) linarith
      ultimately show False using None range_fits_iff [OF len(1)] by (metis option.simps(3))
    qed
    then have "backward_ok vs lo hi len c None"
      unfolding backward_ok_def using len(1)
      by (auto elim!: gap_atE simp: range_fits_iff dest: order.trans)
    moreover have "vma_find_free_backward vs hint lo hi len = None"
      using None len by (simp add: backward_unfold c_def)
    ultimately show ?thesis by (simp add: c_def)
  next
    case (Some e)
    let ?pre = "takeWhile (\<lambda>v. vstart v \<le> e) vs"
    have "vs = ?pre @ dropWhile (\<lambda>v. vstart v \<le> e) vs" by simp
    then have wfp: "vma_wf ?pre" and wfs: "vma_wf (dropWhile (\<lambda>v. vstart v \<le> e) vs)"
      using wf by (metis vma_wf_append)+
    have ok: "backward_ok (rev ?pre) lo hi len c (find_backward_loop lo hi len c (rev ?pre))"
      using find_backward_loop_spec [of "rev ?pre" len c c lo hi] wfp len(1) al Some by simp
    have "\<forall>w\<in>set (dropWhile (\<lambda>v. vstart v \<le> e) vs). e < vstart w"
      using wfs by (rule above_sorted)
    moreover have "set (?pre @ dropWhile (\<lambda>v. vstart v \<le> e) vs) =
        set (dropWhile (\<lambda>v. vstart v \<le> e) vs @ rev ?pre)"
      by (simp only: set_append set_rev Un_commute)
    then have "gap_at vs lo hi len b = gap_at (dropWhile (\<lambda>v. vstart v \<le> e) vs @ rev ?pre) lo hi len b" for b
      unfolding takeWhile_dropWhile_id by (rule gap_at_set)
    ultimately have "gap_at vs lo hi len b \<longleftrightarrow> gap_at (rev ?pre) lo hi len b" if "b \<le> c" for b
      using gap_skip_high [OF len(1) Some _ that] by simp
    with ok have "backward_ok vs lo hi len c (find_backward_loop lo hi len c (rev ?pre))"
      unfolding backward_ok_def by (auto split: option.splits)
    moreover have "vma_find_free_backward vs hint lo hi len = find_backward_loop lo hi len c (rev ?pre)"
      using Some len by (simp add: backward_unfold c_def)
    ultimately show ?thesis by (simp add: c_def)
  qed
qed

lemma fixed_loop:
  "vma_wf vs \<Longrightarrow> addr \<le> end \<Longrightarrow>
    find_fixed_loop addr end vs = (if \<forall>v\<in>set vs. \<not> vma_overlaps v addr end then Some addr else None)"
proof (induction addr "end" vs rule: find_fixed_loop.induct)
  case (2 addr "end" v vs)
  have v: "vma_wf vs" "\<forall>w\<in>set vs. vend v < vstart w" "vstart v \<le> vend v"
    using "2.prems"(1) by (auto simp: vma_wf_Cons intro: range_le)
  show ?case
  proof (cases "end < vstart v")
    case True
    then have "end < vstart w" if "w \<in> set (v # vs)" for w using that v(2,3) by fastforce
    then have "\<forall>w\<in>set (v # vs). \<not> vma_overlaps w addr end" by (auto simp: vma_overlaps_def dest: leD)
    then show ?thesis using True by simp
  qed (use 2 v(1) in simp)
qed simp

lemma fixed_exact:
  assumes "vma_wf vs"
  shows "vma_find_free_fixed vs addr lo hi len =
    (if len \<noteq> 0 \<and> lo \<le> hi \<and> unat addr mod 4096 = 0 \<and> unat len mod 4096 = 0 \<and> gap_at vs lo hi len addr
     then Some addr else None)"
proof -
  have "addr \<le> e" if "vma_range_fits addr lo hi len = Some e" "len \<noteq> 0" for e
    using that(1) that(2) unat_gt_0 [of len] unfolding range_fits_iff [OF that(2)] word_le_nat_alt by linarith
  then show ?thesis
    using fixed_loop [OF assms]
    by (auto simp: vma_find_free_fixed_def gap_at_def aligned_iff not_less split: option.splits)
qed

section \<open>The contract of the three searches\<close>

locale gap_search =
  fixes find :: "vma list \<Rightarrow> haddr \<Rightarrow> haddr \<Rightarrow> haddr \<Rightarrow> haddr \<Rightarrow> haddr option"
  assumes find_gap: "vma_wf vs \<Longrightarrow> unat lo mod 4096 = 0 \<Longrightarrow> find vs hint lo hi len = Some a \<Longrightarrow>
    gap_at vs lo hi len a \<and> unat a mod 4096 = 0 \<and> len \<noteq> 0 \<and> unat len mod 4096 = 0"
begin

lemma found_range:
  assumes "vma_wf vs" "unat lo mod 4096 = 0" "find vs hint lo hi len = Some a"
  shows "vma_range_fits a lo hi len = Some (a + len - 1)" "vma_range_valid a (a + len - 1)"
    "\<forall>v\<in>set vs. \<not> vma_overlaps v a (a + len - 1)"
proof -
  note gap = find_gap [OF assms]
  obtain e where e: "vma_range_fits a lo hi len = Some e" "\<forall>v\<in>set vs. \<not> vma_overlaps v a e"
    using gap by (auto elim!: gap_atE)
  have "e = a + len - 1"
    using e(1) by (auto simp: vma_range_fits_def Let_def split: if_splits)
  then show "vma_range_fits a lo hi len = Some (a + len - 1)"
    "\<forall>v\<in>set vs. \<not> vma_overlaps v a (a + len - 1)" using e by auto
  have "0 < unat len" using gap by (simp add: unat_gt_0)
  moreover have "unat e = unat a + unat len - 1" using e(1) gap range_fits_iff by blast
  ultimately have "unat e + 1 = unat a + unat len" "unat a \<le> unat e" by linarith+
  then show "vma_range_valid a (a + len - 1)"
    using gap \<open>e = _\<close> by (auto simp: range_valid_iff dvd_add simp flip: dvd_eq_mod_eq_0)
qed

lemma insert_after_find:
  assumes "vma_wf vs" "unat lo mod 4096 = 0" "find vs hint lo hi len = Some a"
    and "vma_insert True vs a (a + len - 1) acc fl off = (r, vs')"
  shows "r \<and> vma_wf vs' \<and> lo \<le> a \<and> a + len - 1 \<le> hi \<and>
    vma_addrs vs' = vma_addrs vs \<union> {a..a + len - 1} \<and> {a..a + len - 1} \<inter> vma_addrs vs = {}"
proof -
  note found = found_range [OF assms(1-3)] and ins = insert_spec [OF assms(1,4)]
  have r: "r" using ins(1) found by simp
  have len: "len \<noteq> 0" using find_gap [OF assms(1-3)] by simp
  have "vma_addrs vs' = vma_addrs vs \<union> {a..a + len - 1}" using ins(4) [OF r] by (auto simp: vma_addrs_def)
  moreover have "{a..a + len - 1} \<inter> vma_addrs vs = {}"
    using found(3) by (fastforce simp: vma_addrs_def vma_overlaps_def intro: order.trans)
  ultimately show ?thesis
    using r ins(2) found(1) by (auto simp: range_fits_iff [OF len] word_le_nat_alt)
qed

end

interpretation forward: gap_search vma_find_free_forward
proof
  fix vs lo hint hi len a
  assume "vma_wf vs" "unat lo mod 4096 = 0" "vma_find_free_forward vs hint lo hi len = Some a"
  from forward_sound [OF this]
  show "gap_at vs lo hi len a \<and> unat a mod 4096 = 0 \<and> len \<noteq> 0 \<and> unat len mod 4096 = 0" by simp
qed

interpretation backward: gap_search vma_find_free_backward
proof
  fix vs lo hint hi len a
  assume wf: "vma_wf vs" and res: "vma_find_free_backward vs hint lo hi len = Some a"
  then have len: "len \<noteq> 0" "len AND 4095 = 0" "lo \<le> hi" "len - 1 \<le> hi - lo"
    by (auto simp: backward_unfold split: if_splits)
  then show "gap_at vs lo hi len a \<and> unat a mod 4096 = 0 \<and> len \<noteq> 0 \<and> unat len mod 4096 = 0"
    using backward_exact [OF wf len, of hint] res by (simp add: backward_ok_def aligned_iff)
qed

interpretation fixed: gap_search vma_find_free_fixed
  by unfold_locales (auto simp: fixed_exact split: if_splits)

section \<open>Copying a list\<close>

lemma insert_at_end:
  assumes "vma_wf (dst @ [v])"
  shows "vma_insert mem dst (vstart v) (vend v) (access v) (flags v) (voffset v) =
    (if mem then (True, dst @ [v]) else (False, dst))"
proof -
  have "\<forall>u\<in>set dst. vend u < vstart v" "vma_range_valid (vstart v) (vend v)"
    using assms by (auto simp: vma_wf_append vma_wf_Cons)
  then show ?thesis by (simp add: vma_insert_def insert_walk takeWhile_eq_all_conv [THEN iffD2]
        dropWhile_eq_Nil_conv [THEN iffD2])
qed

lemma copy_loop:
  "vma_wf (dst @ src) \<Longrightarrow>
    vma_copy_loop mem i dst src = (if \<forall>j<length src. mem (i + j) then (True, dst @ src) else (False, []))"
proof (induction mem i dst src rule: vma_copy_loop.induct)
  case (2 mem i dst v src)
  have "vma_wf (dst @ [v])" using "2.prems" by (auto simp: vma_wf_append vma_wf_Cons)
  note ins = insert_at_end [OF this, of "mem i"]
  have all: "(\<forall>j<length (v # src). mem (i + j)) \<longleftrightarrow> mem i \<and> (\<forall>j<length src. mem (Suc i + j))"
    by (auto simp: less_Suc_eq_0_disj)
  show ?case
  proof (cases "mem i")
    case True
    then have "vma_copy_loop mem i dst (v # src) = vma_copy_loop mem (Suc i) (dst @ [v]) src"
      using ins by simp
    also have "\<dots> = (if \<forall>j<length src. mem (Suc i + j) then (True, (dst @ [v]) @ src) else (False, []))"
      using "2.IH" [OF refl, of True "dst @ [v]"] ins True "2.prems" by simp
    finally show ?thesis unfolding all using True by simp
  next
    case False
    then show ?thesis unfolding all using ins by (simp add: vma_clear_def)
  qed
qed simp

section \<open>The list as linked nodes\<close>

record vma_heap =
  nxt :: "nat \<Rightarrow> nat option"
  prv :: "nat \<Rightarrow> nat option"

text \<open>The walk to the tail in \<open>vma_link_before\<close>; it does not end on a cyclic list.\<close>

partial_function (option) last_node :: "vma_heap \<Rightarrow> nat \<Rightarrow> nat option" where
  "last_node h tail = (case nxt h tail of None \<Rightarrow> Some tail | Some t \<Rightarrow> last_node h t)"

text \<open>Both operations return the new head with the new fields.\<close>

definition vma_link_before ::
  "vma_heap \<Rightarrow> nat option \<Rightarrow> nat option \<Rightarrow> nat \<Rightarrow> (nat option \<times> vma_heap) option"
where
  "vma_link_before h head before node =
     (case before of
        None \<Rightarrow>
          (case head of
             None \<Rightarrow> Some (Some node, h)
           | Some t \<Rightarrow>
               (case last_node h t of
                  None \<Rightarrow> None
                | Some tail \<Rightarrow>
                    Some (head, h\<lparr>nxt := (nxt h)(tail := Some node), prv := (prv h)(node := Some tail)\<rparr>)))
      | Some b \<Rightarrow>
          (let h1 = h\<lparr>nxt := (nxt h)(node := Some b), prv := (prv h)(node := prv h b)\<rparr>;
               h2 = h1\<lparr>prv := (prv h1)(b := Some node)\<rparr>
           in case prv h2 node of
                Some p \<Rightarrow> Some (head, h2\<lparr>nxt := (nxt h2)(p := Some node)\<rparr>)
              | None \<Rightarrow> Some (Some node, h2)))"

definition vma_unlink :: "vma_heap \<Rightarrow> nat option \<Rightarrow> nat \<Rightarrow> nat option \<times> vma_heap" where
  "vma_unlink h head node =
     (let (head1, h1) =
            (case prv h node of
               Some p \<Rightarrow> (head, h\<lparr>nxt := (nxt h)(p := nxt h node)\<rparr>)
             | None \<Rightarrow> (nxt h node, h))
      in case nxt h1 node of
           Some n \<Rightarrow> (head1, h1\<lparr>prv := (prv h1)(n := prv h1 node)\<rparr>)
         | None \<Rightarrow> (head1, h1))"

fun first_or :: "nat list \<Rightarrow> nat option \<Rightarrow> nat option" where
  "first_or [] q = q"
| "first_or (x # xs) q = Some x"

fun last_or :: "nat option \<Rightarrow> nat list \<Rightarrow> nat option" where
  "last_or p [] = p"
| "last_or p (x # xs) = last_or (Some x) xs"

text \<open>\<open>dll h p xs q\<close>: the nodes \<open>xs\<close> are linked both ways, entered from \<open>p\<close> and left to \<open>q\<close>.\<close>

fun dll :: "vma_heap \<Rightarrow> nat option \<Rightarrow> nat list \<Rightarrow> nat option \<Rightarrow> bool" where
  "dll h p [] q \<longleftrightarrow> True"
| "dll h p (x # xs) q \<longleftrightarrow> prv h x = p \<and> nxt h x = first_or xs q \<and> dll h (Some x) xs q"

lemma first_or_append [simp]: "first_or (xs @ ys) q = first_or xs (first_or ys q)"
  by (cases xs) auto

lemma last_or_append [simp]: "last_or p (xs @ ys) = last_or (last_or p xs) ys"
  by (induction p xs rule: last_or.induct) auto

lemma dll_append [simp]:
  "dll h p (xs @ ys) q \<longleftrightarrow> dll h p xs (first_or ys q) \<and> dll h (last_or p xs) ys q"
  by (induction xs arbitrary: p) auto

lemma dll_cong:
  "(\<And>x. x \<in> set xs \<Longrightarrow> nxt h x = nxt h' x \<and> prv h x = prv h' x) \<Longrightarrow> dll h p xs q = dll h' p xs q"
  by (induction xs arbitrary: p) auto

lemma last_or_Some [simp]: "last_or (Some a) xs = Some (last (a # xs))"
  by (induction xs arbitrary: a) auto

lemma last_or_snoc: "last_or None pre = (if pre = [] then None else Some (last pre))"
  by (induction pre rule: rev_induct) auto

lemma last_node_dll: "dll h p (x # xs) None \<Longrightarrow> last_node h x = Some (last (x # xs))"
proof (induction xs arbitrary: p x)
  case Nil
  then show ?case by (subst last_node.simps) simp
next
  case (Cons y ys)
  then show ?case by (subst last_node.simps) auto
qed

lemma link_before_refines:
  assumes "dll h None (pre @ post) None" "distinct (pre @ post)" "node \<notin> set (pre @ post)"
    and "nxt h node = None" "prv h node = None"
  shows "\<exists>h'. vma_link_before h (first_or (pre @ post) None) (first_or post None) node =
      Some (first_or (pre @ node # post) None, h') \<and> dll h' None (pre @ node # post) None"
proof (cases post)
  case Nil
  show ?thesis
  proof (cases pre rule: rev_cases)
    case (snoc ys t)
    obtain z zs where z: "pre = z # zs" using snoc by (metis list.exhaust snoc_eq_iff_butlast)
    have tail: "last_node h z = Some t"
      using last_node_dll [of h None z zs] assms(1) Nil z snoc by (metis append_Nil2 last_snoc)
    let ?h = "h\<lparr>nxt := (nxt h)(t := Some node), prv := (prv h)(node := Some t)\<rparr>"
    have "dll ?h None ys (Some t)"
      using assms Nil snoc by (subst dll_cong [of ys ?h h]) auto
    then have "dll ?h None (pre @ [node]) None" using assms Nil snoc by simp
    moreover have "vma_link_before h (first_or (pre @ post) None) (first_or post None) node =
        Some (first_or (pre @ node # post) None, ?h)"
      using Nil z tail by (simp add: vma_link_before_def)
    ultimately show ?thesis using Nil by blast
  qed (use assms Nil in \<open>simp add: vma_link_before_def\<close>)
next
  case (Cons b bs)
  show ?thesis
  proof (cases pre rule: rev_cases)
    case Nil
    let ?h = "h\<lparr>nxt := (nxt h)(node := Some b), prv := (prv h)(node := None, b := Some node)\<rparr>"
    have "dll ?h (Some b) bs None"
      using assms Nil Cons by (subst dll_cong [of bs ?h h]) auto
    then show ?thesis using assms Nil Cons by (auto simp: vma_link_before_def)
  next
    case (snoc ys t)
    let ?h = "h\<lparr>prv := (prv h)(node := Some t, b := Some node),
                nxt := (nxt h)(node := Some b, t := Some node)\<rparr>"
    have "dll ?h (Some b) bs None" "dll ?h None ys (Some t)"
      using assms snoc Cons by (subst dll_cong [where h = ?h and h' = h]; auto)+
    moreover have "prv h b = Some t" using assms(1) snoc Cons by simp
    ultimately show ?thesis
      using assms snoc Cons by (auto simp: vma_link_before_def)
  qed
qed

lemma unlink_refines:
  assumes "dll h None (pre @ node # post) None" "distinct (pre @ node # post)"
  shows "\<exists>h'. vma_unlink h (first_or (pre @ node # post) None) node =
      (first_or (pre @ post) None, h') \<and> dll h' None (pre @ post) None"
proof -
  define h1 where "h1 = (case last_or None pre of
      Some p \<Rightarrow> h\<lparr>nxt := (nxt h)(p := nxt h node)\<rparr> | None \<Rightarrow> h)"
  define h2 where "h2 = (case post of
      n # _ \<Rightarrow> h1\<lparr>prv := (prv h1)(n := prv h1 node)\<rparr> | [] \<Rightarrow> h1)"
  have node: "prv h node = last_or None pre" "nxt h node = first_or post None" using assms(1) by auto
  have node1: "nxt h1 node = first_or post None" "prv h1 = prv h"
    using assms(2) node by (auto simp: h1_def last_or_snoc split: option.splits)
  have res: "vma_unlink h (first_or (pre @ node # post) None) node = (first_or (pre @ post) None, h2)"
    using node node1
    by (cases pre; cases post) (auto simp: vma_unlink_def h1_def h2_def last_or_snoc split: option.splits)
  have "dll h2 None pre (first_or post None)"
  proof (cases pre rule: rev_cases)
    case (snoc ys t)
    have "dll h2 None ys (Some t)"
      using assms snoc node1
      by (subst dll_cong [of ys h2 h]) (auto simp: h1_def h2_def split: list.splits)
    then show ?thesis using assms snoc node node1 by (auto simp: h1_def h2_def split: list.splits)
  qed simp
  moreover have "dll h2 (last_or None pre) post None"
  proof (cases post)
    case (Cons n ns)
    have "last pre \<notin> set post" if "pre \<noteq> []" using assms(2) last_in_set [OF that] by auto
    then have "dll h2 (Some n) ns None"
      using assms Cons node1
      by (subst dll_cong [of ns h2 h]) (auto simp: h1_def h2_def last_or_snoc split: option.splits)
    then show ?thesis
      using assms Cons node node1 by (auto simp: h1_def h2_def last_or_snoc split: option.splits)
  qed simp
  ultimately show ?thesis using res by auto
qed

section \<open>Properties\<close>

text \<open>A list with two areas, for the concrete cases.\<close>

definition vma_example :: "vma list" where
  "vma_example =
     [\<lparr>vstart = 0x1000, vend = 0x3fff, access = 1, flags = 0, voffset = 0\<rparr>,
      \<lparr>vstart = 0x8000, vend = 0x8fff, access = 3, flags = 2, voffset = 0\<rparr>]"

lemma vma_example_wf: "vma_wf vma_example"
  by (simp add: vma_example_def vma_wf_Cons vma_range_valid_def)

lemma disjoint_iff_no_overlap:
  assumes "vma_wf vs" "vma_range_valid s e"
  shows "(\<forall>v\<in>set vs. \<not> vma_overlaps v s e) \<longleftrightarrow> {s..e} \<inter> vma_addrs vs = {}"
proof -
  have "vma_overlaps v s e \<longleftrightarrow> {vstart v..vend v} \<inter> {s..e} \<noteq> {}" if "v \<in> set vs" for v
  proof -
    have "vstart v \<le> vend v" using that assms(1) range_le by (auto simp: vma_wf_def)
    then show ?thesis using overlaps_iff [OF range_le [OF assms(2)], of v] range_le [OF assms(2)] by simp
  qed
  then show ?thesis unfolding vma_addrs_def by blast
qed

text \<open>C5. Inserting succeeds exactly when the range is page aligned, meets no area and a node can be
  allocated; then the areas cover the old addresses and the new range, in order and without
  overlap, and otherwise the list is unchanged.\<close>

theorem vma_insert_exact:
  assumes "vma_wf vs" "vma_insert mem vs s e a f off = (r, vs')"
  shows "vma_wf vs' \<and> (r \<longleftrightarrow> mem \<and> vma_range_valid s e \<and> {s..e} \<inter> vma_addrs vs = {}) \<and>
    (if r then vma_addrs vs' = vma_addrs vs \<union> {s..e} else vs' = vs)"
proof -
  note ins = insert_spec [OF assms]
  have "(\<forall>v\<in>set vs. \<not> vma_overlaps v s e) \<longleftrightarrow> {s..e} \<inter> vma_addrs vs = {}" if "vma_range_valid s e"
    by (rule disjoint_iff_no_overlap [OF assms(1) that])
  moreover have "vma_addrs vs' = vma_addrs vs \<union> {s..e}" if "r"
    using ins(4) [OF that] by (auto simp: vma_addrs_def)
  ultimately show ?thesis using ins(1-3) by (cases r) (simp_all, blast)
qed

theorem vma_insert_exact_witness:
  "vma_wf (snd (vma_insert True vma_example 0x4000 0x7fff 1 0 0)) \<and>
   vma_addrs (snd (vma_insert True vma_example 0x4000 0x7fff 1 0 0)) =
     vma_addrs vma_example \<union> {0x4000..0x7fff}"
proof -
  have "fst (vma_insert True vma_example 0x4000 0x7fff 1 0 0)" by code_simp
  then show ?thesis using vma_insert_exact [OF vma_example_wf prod.collapse [symmetric]] by metis
qed

text \<open>C28. Removing a range that starts in an area takes the range out of that area, cutting it at
  the area's end: an area that follows within the range stays mapped. A range that starts in no
  area changes nothing. The list stays well formed, also when no node can be allocated for the
  split.\<close>

theorem vma_remove_exact:
  assumes "vma_wf vs" "vma_range_valid s e" "vma_remove mem vs s e = (r, vs')"
  shows "vma_wf vs' \<and>
    (if s \<in> vma_addrs vs
     then \<exists>v\<in>set vs. s \<in> {vstart v..vend v} \<and> (r \<longleftrightarrow> mem \<or> s = vstart v \<or> vend v \<le> e) \<and>
       vma_addrs vs' = vma_addrs vs - (if r then {s..min e (vend v)} else {})
     else r \<and> vs' = vs)"
proof (cases "s \<in> vma_addrs vs")
  case True
  then obtain v where v: "v \<in> set vs" "vstart v \<le> s" "s \<le> vend v" by (auto simp: vma_addrs_def)
  from remove_hit [OF assms(1,2) v assms(3)] v True show ?thesis by auto
next
  case False
  then show ?thesis using remove_noop [OF assms(1,2) False, of mem] assms(1,3) by auto
qed

theorem vma_remove_exact_witness:
  "vma_wf (snd (vma_remove True vma_example 0x2000 0x8fff)) \<and>
   0x8000 \<in> vma_addrs (snd (vma_remove True vma_example 0x2000 0x8fff))"
proof -
  have "vma_range_valid 0x2000 0x8fff" by (simp add: vma_range_valid_def)
  from vma_remove_exact [OF vma_example_wf this prod.collapse [symmetric], of True]
  have "vma_wf (snd (vma_remove True vma_example 0x2000 0x8fff))" by simp
  moreover have "0x8000 \<in> vma_addrs (snd (vma_remove True vma_example 0x2000 0x8fff))"
    by (simp add: vma_remove_def vma_example_def vma_range_valid_def)
  ultimately show ?thesis by simp
qed

text \<open>C15. The forward search returns the lowest gap at or above its start that lies within the
  bounds, and fails only when there is none.\<close>

theorem vma_forward_lowest_gap:
  assumes "vma_wf vs" "len \<noteq> 0" "len AND 4095 = 0" "lo \<le> hi" "forward_start hint lo = Some c" "lo \<le> c"
  shows "case vma_find_free_forward vs hint lo hi len of
      Some a \<Rightarrow> c \<le> a \<and> gap_at vs lo hi len a \<and> (\<forall>b. c \<le> b \<and> gap_at vs lo hi len b \<longrightarrow> a \<le> b)
    | None \<Rightarrow> \<forall>b. c \<le> b \<longrightarrow> \<not> gap_at vs lo hi len b"
proof (cases "vma_range_fits c lo hi len")
  case None
  have "\<not> gap_at vs lo hi len b" if "c \<le> b" for b
    using range_fits_down [OF assms(2) _ assms(6) that, of hi] None by (auto elim!: gap_atE)
  moreover have "vma_find_free_forward vs hint lo hi len = None" using None assms by (simp add: forward_unfold)
  ultimately show ?thesis by simp
next
  case (Some e)
  have "vma_find_free_forward vs hint lo hi len = find_forward_loop lo hi len c e vs"
    using Some assms by (simp add: forward_unfold leD)
  then show ?thesis using find_forward_loop_spec [OF assms(1,2) Some] by (auto split: option.splits)
qed

theorem vma_forward_lowest_gap_witness:
  "vma_find_free_forward vma_example 0 0x1000 0xffff 0x2000 = Some 0x4000 \<and>
   gap_at vma_example 0x1000 0xffff 0x2000 0x4000"
proof -
  have found: "vma_find_free_forward vma_example 0 0x1000 0xffff 0x2000 = Some 0x4000" by code_simp
  have start: "forward_start 0 0x1000 = Some 0x1000" by code_simp
  from vma_forward_lowest_gap [OF vma_example_wf _ _ _ start, of "0x2000" "0xffff"] found
  show ?thesis by simp
qed

text \<open>C16. The backward search returns the highest page-aligned gap at or below its start, and fails
  only when there is none.\<close>

theorem vma_backward_highest_gap:
  assumes "vma_wf vs" "len \<noteq> 0" "len AND 4095 = 0" "lo \<le> hi" "len - 1 \<le> hi - lo"
  shows "case vma_find_free_backward vs hint lo hi len of
      Some a \<Rightarrow> a \<le> backward_start hint hi len \<and> gap_at vs lo hi len a \<and> unat a mod 4096 = 0 \<and>
        (\<forall>b. b \<le> backward_start hint hi len \<and> unat b mod 4096 = 0 \<and> gap_at vs lo hi len b \<longrightarrow> b \<le> a)
    | None \<Rightarrow> \<forall>b. b \<le> backward_start hint hi len \<and> unat b mod 4096 = 0 \<longrightarrow> \<not> gap_at vs lo hi len b"
  using backward_exact [OF assms, of hint] unfolding backward_ok_def .

theorem vma_backward_highest_gap_witness:
  "vma_find_free_backward vma_example 0x8000 0x1000 0xffff 0x2000 = Some 0x6000 \<and>
   gap_at vma_example 0x1000 0xffff 0x2000 0x6000"
proof -
  have found: "vma_find_free_backward vma_example 0x8000 0x1000 0xffff 0x2000 = Some 0x6000" by code_simp
  from vma_backward_highest_gap [OF vma_example_wf, of "0x2000" "0x1000" "0xffff" "0x8000"] found
  show ?thesis by simp
qed

text \<open>C17. Whatever one of the three searches returns can be inserted: the following
  \<open>vma_insert\<close> succeeds, stays within the bounds and covers only new addresses.\<close>

theorem vma_find_then_insert:
  assumes "vma_wf vs" "unat lo mod 4096 = 0"
    and "vma_find_free_forward vs hint lo hi len = Some a \<or>
      vma_find_free_backward vs hint lo hi len = Some a \<or> vma_find_free_fixed vs hint lo hi len = Some a"
    and "vma_insert True vs a (a + len - 1) acc fl off = (r, vs')"
  shows "r \<and> vma_wf vs' \<and> lo \<le> a \<and> a + len - 1 \<le> hi \<and>
    vma_addrs vs' = vma_addrs vs \<union> {a..a + len - 1} \<and> {a..a + len - 1} \<inter> vma_addrs vs = {}"
  using assms(3)
proof (elim disjE)
  assume "vma_find_free_forward vs hint lo hi len = Some a"
  from forward.insert_after_find [OF assms(1,2) this assms(4)] show ?thesis .
next
  assume "vma_find_free_backward vs hint lo hi len = Some a"
  from backward.insert_after_find [OF assms(1,2) this assms(4)] show ?thesis .
next
  assume "vma_find_free_fixed vs hint lo hi len = Some a"
  from fixed.insert_after_find [OF assms(1,2) this assms(4)] show ?thesis .
qed

theorem vma_find_then_insert_witness:
  "fst (vma_insert True vma_example 0x4000 0x5fff 1 0 0)"
proof -
  have "vma_find_free_forward vma_example 0 0x1000 0xffff 0x2000 = Some 0x4000" by code_simp
  then show ?thesis
    using vma_find_then_insert [OF vma_example_wf _ _ prod.collapse [symmetric],
        of "0x1000" 0 "0xffff" "0x2000" "0x4000" 1 0 0]
    by simp
qed

text \<open>Copying a well-formed list gives the same list when every node can be allocated, and
  otherwise fails and leaves the destination empty.\<close>

theorem vma_copy_list_exact:
  assumes "vma_wf src"
  shows "vma_copy_list mem [] src = (if \<forall>i<length src. mem i then (True, src) else (False, []))"
  using copy_loop [of "[]" src mem 0] assms by (simp add: vma_copy_list_def)

theorem vma_copy_list_exact_witness: "vma_copy_list (\<lambda>i. True) [] vma_example = (True, vma_example)"
  using vma_copy_list_exact [OF vma_example_wf] by simp

text \<open>On linked nodes, linking a zeroed node before another one, or at the end when there is no
  other, inserts it at that place of the list, and unlinking a node deletes it; both keep the
  list doubly linked, and the walk to the tail ends.\<close>

theorem vma_link_unlink_refine:
  assumes "dll h None (pre @ post) None" "distinct (pre @ node # post)"
    "nxt h node = None" "prv h node = None"
  shows "\<exists>h1 h2. vma_link_before h (first_or (pre @ post) None) (first_or post None) node =
      Some (first_or (pre @ node # post) None, h1) \<and> dll h1 None (pre @ node # post) None \<and>
    vma_unlink h1 (first_or (pre @ node # post) None) node = (first_or (pre @ post) None, h2) \<and>
    dll h2 None (pre @ post) None"
proof -
  have fresh: "distinct (pre @ post)" "node \<notin> set (pre @ post)" using assms(2) by auto
  obtain h1 where "vma_link_before h (first_or (pre @ post) None) (first_or post None) node =
      Some (first_or (pre @ node # post) None, h1)" "dll h1 None (pre @ node # post) None"
    using link_before_refines [OF assms(1) fresh assms(3,4)] by blast
  then show ?thesis using unlink_refines [OF _ assms(2)] by blast
qed

theorem vma_link_unlink_refine_witness:
  "\<exists>h1. vma_link_before \<lparr>nxt = [1 \<mapsto> 2], prv = [2 \<mapsto> 1]\<rparr> (Some 1) (Some 2) 3 = Some (Some 1, h1) \<and>
     dll h1 None [1, 3, 2] None"
  using vma_link_unlink_refine [of "\<lparr>nxt = [1 \<mapsto> 2], prv = [2 \<mapsto> 1]\<rparr>" "[1]" "[2]" 3] by auto

end
