(* ===== verification/Vmm.thy ===== *)
theory Vmm
  imports Pmm Vma "HOL-Library.Monad_Syntax"
begin

text \<open>
  The virtual memory manager of \<^verbatim>\<open>kernel/memory/vmm.c\<close>.

  The state is the machine as far as paging is concerned: the physical memory, a frame at a time,
  as a map from the address of a frame to its 512 words; \<open>cr3\<close>; the addresses given to
  \<open>invlpg\<close>, the last one first; the physical memory manager; and the \<open>vmm_t\<close> objects by their
  address, with the one \<open>g_kernel.vmm\<close> points at. A pointer of the source is a virtual address:
  \<open>table_read\<close>, \<open>table_write\<close> and \<open>table_fill\<close> go through the walk of the processor from \<open>cr3\<close>,
  and \<open>None\<close> is a page fault. No entry is taken from a stale translation buffer, and all entries
  refer to tables or to pages of 4096 bytes, since the source never sets the bit for large pages.

  Results: \<open>0\<close> is \<open>NULL\<close>. The address \<open>slab_alloc\<close> returns and whether \<open>vma.c\<close> finds memory for a
  node of its list are arguments of the operations that ask for them.
\<close>

section \<open>Entries and addresses\<close>

abbreviation PAGE_PRESENT :: u64 where "PAGE_PRESENT \<equiv> 1"
abbreviation PAGE_WRITABLE :: u64 where "PAGE_WRITABLE \<equiv> 2"
abbreviation PAGE_USER_ACCESIBLE :: u64 where "PAGE_USER_ACCESIBLE \<equiv> 4"
abbreviation PAGE_EXECUTABLE :: u64 where "PAGE_EXECUTABLE \<equiv> 0x200"
abbreviation PAGE_NO_EXECUTE :: u64 where "PAGE_NO_EXECUTE \<equiv> 0x8000000000000000"
abbreviation MAPPING_STRUCTURE_MASK :: u64 where "MAPPING_STRUCTURE_MASK \<equiv> 0xFFFFFFFFFFFFF000"
abbreviation ENTRY_PHYS_MASK :: u64 where "ENTRY_PHYS_MASK \<equiv> 0x000FFFFFFFFFF000"
abbreviation CANONICAL_HIGH :: u64 where "CANONICAL_HIGH \<equiv> 0xFFFF000000000000"
abbreviation RECURSIVE_IDX :: nat where "RECURSIVE_IDX \<equiv> 510"
abbreviation KERNEL_PML4_FIRST :: nat where "KERNEL_PML4_FIRST \<equiv> 256"
abbreviation LOW_REGION_END :: u64 where "LOW_REGION_END \<equiv> 0x100000"
abbreviation LAST_VADDR :: u64 where "LAST_VADDR \<equiv> 0xFFFF7AAAAAAAAAAA"
abbreviation VIRT_SCRATCH_ADDR :: u64 where "VIRT_SCRATCH_ADDR \<equiv> 0xFFFFFFFF70000000"
abbreviation VIRT_PML4 :: u64 where "VIRT_PML4 \<equiv> 0xFFFFFFFF70001000"
abbreviation VIRT_SCRATCH_L4 :: u64 where "VIRT_SCRATCH_L4 \<equiv> 0xFFFFFFFF70002000"
abbreviation VIRT_SCRATCH_L3 :: u64 where "VIRT_SCRATCH_L3 \<equiv> 0xFFFFFFFF70003000"
abbreviation VIRT_SCRATCH_L2 :: u64 where "VIRT_SCRATCH_L2 \<equiv> 0xFFFFFFFF70004000"
abbreviation VIRT_SCRATCH_L1 :: u64 where "VIRT_SCRATCH_L1 \<equiv> 0xFFFFFFFF70005000"

definition entry_is_present :: "u64 \<Rightarrow> bool" where
  "entry_is_present entry \<longleftrightarrow> entry AND PAGE_PRESENT = PAGE_PRESENT"

definition entry_phys :: "u64 \<Rightarrow> haddr" where
  "entry_phys entry = entry AND ENTRY_PHYS_MASK"

definition entry_flags :: "u64 \<Rightarrow> u64" where
  "entry_flags entry = entry AND NOT ENTRY_PHYS_MASK"

definition get_pml4_idx :: "haddr \<Rightarrow> nat" where
  "get_pml4_idx virt = unat (drop_bit 39 virt AND 511)"

definition get_pml3_idx :: "haddr \<Rightarrow> nat" where
  "get_pml3_idx virt = unat (drop_bit 30 virt AND 511)"

definition get_pd_idx :: "haddr \<Rightarrow> nat" where
  "get_pd_idx virt = unat (drop_bit 21 virt AND 511)"

definition get_pt_idx :: "haddr \<Rightarrow> nat" where
  "get_pt_idx virt = unat (drop_bit 12 virt AND 511)"

definition get_pml4_entry :: "haddr \<Rightarrow> haddr" where
  "get_pml4_entry virt =
     CANONICAL_HIGH OR push_bit 39 510 OR push_bit 30 510 OR push_bit 21 510 OR
     push_bit 12 (word_of_nat (get_pml4_idx virt))"

definition get_current_pml4 :: haddr where
  "get_current_pml4 =
     CANONICAL_HIGH OR push_bit 39 510 OR push_bit 30 510 OR push_bit 21 510 OR push_bit 12 510"

definition get_pml3_entry :: "haddr \<Rightarrow> haddr" where
  "get_pml3_entry virt =
     CANONICAL_HIGH OR push_bit 39 510 OR push_bit 30 510 OR
     push_bit 21 (word_of_nat (get_pml4_idx virt)) OR push_bit 12 (word_of_nat (get_pml3_idx virt))"

definition get_pd_entry :: "haddr \<Rightarrow> haddr" where
  "get_pd_entry virt =
     CANONICAL_HIGH OR push_bit 39 510 OR push_bit 30 (word_of_nat (get_pml4_idx virt)) OR
     push_bit 21 (word_of_nat (get_pml3_idx virt)) OR push_bit 12 (word_of_nat (get_pd_idx virt))"

definition is_higher_half :: "haddr \<Rightarrow> bool" where
  "is_higher_half virt \<longleftrightarrow> KERNEL_PML4_FIRST \<le> get_pml4_idx virt"

definition normalize_leaf_flags :: "haddr \<Rightarrow> u64 \<Rightarrow> u64" where
  "normalize_leaf_flags virt fl =
     (let leaf = fl AND NOT PAGE_EXECUTABLE;
          leaf = (if is_higher_half virt then leaf AND NOT PAGE_USER_ACCESIBLE else leaf)
      in if is_higher_half virt \<and> fl AND PAGE_EXECUTABLE = 0 then leaf OR PAGE_NO_EXECUTE
         else if fl AND PAGE_EXECUTABLE \<noteq> 0 then leaf AND NOT PAGE_NO_EXECUTE
         else leaf)"

definition normalize_table_flags :: "haddr \<Rightarrow> u64 \<Rightarrow> u64" where
  "normalize_table_flags virt fl =
     (let tf = PAGE_PRESENT OR PAGE_WRITABLE;
          tf = (if fl AND PAGE_USER_ACCESIBLE \<noteq> 0 \<and> \<not> is_higher_half virt
                then tf OR PAGE_USER_ACCESIBLE else tf)
      in if is_higher_half virt \<and> fl AND PAGE_EXECUTABLE = 0 then tf OR PAGE_NO_EXECUTE
         else if fl AND PAGE_EXECUTABLE \<noteq> 0 then tf AND NOT PAGE_NO_EXECUTE
         else tf)"

definition flags_to_mapping_request :: "u64 \<Rightarrow> u64" where
  "flags_to_mapping_request fl =
     (if fl AND PAGE_NO_EXECUTE = 0 then fl OR PAGE_EXECUTABLE else fl)"

text \<open>What \<open>clear_nx\<close> and \<open>set_user_access\<close> store in the entry they are given.\<close>

definition clear_nx :: "u64 \<Rightarrow> u64 \<Rightarrow> u64" where
  "clear_nx entry fl =
     (if fl AND PAGE_EXECUTABLE \<noteq> 0 \<and> entry AND PAGE_NO_EXECUTE \<noteq> 0
      then entry AND NOT PAGE_NO_EXECUTE else entry)"

definition set_user_access :: "u64 \<Rightarrow> haddr \<Rightarrow> u64 \<Rightarrow> u64" where
  "set_user_access entry virt fl =
     (if fl AND PAGE_USER_ACCESIBLE = 0 then entry
      else if is_higher_half virt then entry
      else if entry AND PAGE_USER_ACCESIBLE = 0 then entry OR PAGE_USER_ACCESIBLE
      else entry)"

section \<open>The machine\<close>

type_synonym memory = "haddr \<Rightarrow> nat \<Rightarrow> u64"

text \<open>The walk of the processor from a table along a path of indices, and the frame of the page a
  virtual address lies in.\<close>

fun walk :: "memory \<Rightarrow> haddr \<Rightarrow> nat list \<Rightarrow> haddr option" where
  "walk m f [] = Some f"
| "walk m f (i # is) = (if entry_is_present (m f i) then walk m (entry_phys (m f i)) is else None)"

definition vpath :: "haddr \<Rightarrow> nat list" where
  "vpath virt = [get_pml4_idx virt, get_pml3_idx virt, get_pd_idx virt, get_pt_idx virt]"

definition translate :: "memory \<Rightarrow> haddr \<Rightarrow> haddr \<Rightarrow> haddr option" where
  "translate m root virt = walk m root (vpath virt)"

record vmm =
  first_available_vaddr :: haddr
  last_available_vaddr :: haddr
  kernel_offset :: haddr
  pml4_phys :: haddr
  vma_list :: "vma list"

record machine =
  mem :: memory
  cr3 :: haddr
  invlpgs :: "haddr list"
  pmm :: pmm_state
  vmms :: "haddr \<Rightarrow> vmm"
  kernel_vmm :: haddr
  virtual_directory :: haddr

definition table_read :: "haddr \<Rightarrow> nat \<Rightarrow> machine \<Rightarrow> u64 option" where
  "table_read p i s = map_option (\<lambda>f. mem s f i) (translate (mem s) (cr3 s) p)"

definition put_entry :: "haddr \<Rightarrow> nat \<Rightarrow> u64 \<Rightarrow> memory \<Rightarrow> memory" where
  "put_entry f i e m = m(f := (m f)(i := e))"

definition table_write :: "haddr \<Rightarrow> nat \<Rightarrow> u64 \<Rightarrow> machine \<Rightarrow> machine option" where
  "table_write p i e s =
     map_option (\<lambda>f. s\<lparr>mem := put_entry f i e (mem s)\<rparr>) (translate (mem s) (cr3 s) p)"

text \<open>\<open>memset\<close> and \<open>memcpy\<close> of a whole page.\<close>

definition table_fill :: "haddr \<Rightarrow> (nat \<Rightarrow> u64) \<Rightarrow> machine \<Rightarrow> machine option" where
  "table_fill p ws s = map_option (\<lambda>f. s\<lparr>mem := (mem s)(f := ws)\<rparr>) (translate (mem s) (cr3 s) p)"

definition page_copy :: "haddr \<Rightarrow> haddr \<Rightarrow> machine \<Rightarrow> machine option" where
  "page_copy dst src s =
     (case translate (mem s) (cr3 s) src of None \<Rightarrow> None | Some f \<Rightarrow> table_fill dst (mem s f) s)"

definition invlpg :: "haddr \<Rightarrow> machine \<Rightarrow> machine" where
  "invlpg virt s = s\<lparr>invlpgs := virt # invlpgs s\<rparr>"

definition load_pd :: "haddr \<Rightarrow> machine \<Rightarrow> machine" where
  "load_pd pd_addr s = s\<lparr>cr3 := pd_addr\<rparr>"

definition alloc_frame :: "machine \<Rightarrow> haddr \<times> machine" where
  "alloc_frame s = (let (a, p) = pmm_alloc_frame (pmm s) in (a, s\<lparr>pmm := p\<rparr>))"

definition free_frame :: "haddr \<Rightarrow> machine \<Rightarrow> machine" where
  "free_frame a s = s\<lparr>pmm := pmm_free_frame a (pmm s)\<rparr>"

section \<open>Mapping through the scratch addresses\<close>

text \<open>One level of \<open>map_in_current_cr3\<close>: a table is installed in the entry when the entry has
  neither the present nor the writable bit. The frame is not compared with \<open>0\<close>.\<close>

definition current_install :: "haddr \<Rightarrow> nat \<Rightarrow> haddr \<Rightarrow> machine \<Rightarrow> machine option" where
  "current_install table idx child s = do {
     e \<leftarrow> table_read table idx s;
     if e AND (PAGE_PRESENT OR PAGE_WRITABLE) = 0 then
       (let (a, s) = alloc_frame s in do {
          s \<leftarrow> table_write table idx (a OR PAGE_PRESENT OR PAGE_WRITABLE) s;
          table_fill child (\<lambda>_. 0) s })
     else Some s }"

definition map_in_current_cr3 :: "haddr \<Rightarrow> haddr \<Rightarrow> u64 \<Rightarrow> machine \<Rightarrow> (haddr \<times> machine) option" where
  "map_in_current_cr3 virt phys fl s =
     (let virt_base = virt AND MAPPING_STRUCTURE_MASK;
          pml4 = get_current_pml4;
          pml3 = get_pml4_entry virt;
          pd = get_pml3_entry virt;
          pt = get_pd_entry virt
      in if get_pml4_idx virt = RECURSIVE_IDX then Some (0, s)
         else do {
           s \<leftarrow> current_install pml4 (get_pml4_idx virt) pml3 s;
           s \<leftarrow> current_install pml3 (get_pml3_idx virt) pd s;
           s \<leftarrow> current_install pd (get_pd_idx virt) pt s;
           s \<leftarrow> table_write pt (get_pt_idx virt) (phys OR fl) s;
           Some (virt_base, invlpg virt s) })"

definition scratch_map_table :: "haddr \<Rightarrow> haddr \<Rightarrow> machine \<Rightarrow> (haddr \<times> machine) option" where
  "scratch_map_table scratch_addr phys s = do {
     (r, s) \<leftarrow> map_in_current_cr3 scratch_addr phys (PAGE_PRESENT OR PAGE_WRITABLE) s;
     if r = 0 then Some (0, s) else Some (scratch_addr, invlpg scratch_addr s) }"

definition scratch_map_page :: "haddr \<Rightarrow> haddr \<Rightarrow> machine \<Rightarrow> (haddr \<times> machine) option" where
  "scratch_map_page scratch_addr phys s = scratch_map_table scratch_addr phys s"

definition walk_to_child_table ::
  "haddr \<Rightarrow> nat \<Rightarrow> haddr \<Rightarrow> haddr \<Rightarrow> u64 \<Rightarrow> bool \<Rightarrow> machine \<Rightarrow> (haddr \<times> machine) option"
where
  "walk_to_child_table table idx scratch_addr virt fl create s = do {
     e \<leftarrow> table_read table idx s;
     if \<not> entry_is_present e then
       (if \<not> create then Some (0, s)
        else
          (let (new_table_phys, s) = alloc_frame s
           in if new_table_phys = 0 then Some (0, s)
              else do {
                s \<leftarrow> table_write table idx (new_table_phys OR normalize_table_flags virt fl) s;
                (new_table, s) \<leftarrow> scratch_map_table scratch_addr new_table_phys s;
                if new_table = 0 then do {
                  s \<leftarrow> table_write table idx 0 s;
                  Some (0, free_frame new_table_phys s) }
                else do {
                  s \<leftarrow> table_fill new_table (\<lambda>_. 0) s;
                  Some (new_table, s) } }))
     else do {
       s \<leftarrow> table_write table idx (clear_nx e fl) s;
       e \<leftarrow> table_read table idx s;
       s \<leftarrow> table_write table idx (set_user_access e virt fl) s;
       e \<leftarrow> table_read table idx s;
       scratch_map_table scratch_addr (entry_phys e) s } }"

definition walk_non_kernel_to_pt ::
  "haddr \<Rightarrow> haddr \<Rightarrow> u64 \<Rightarrow> bool \<Rightarrow> machine \<Rightarrow> (haddr \<times> machine) option"
where
  "walk_non_kernel_to_pt v virt fl create s =
     (if get_pml4_idx virt = RECURSIVE_IDX then Some (0, s)
      else do {
        (pml4, s) \<leftarrow> scratch_map_table VIRT_SCRATCH_L4 (pml4_phys (vmms s v)) s;
        if pml4 = 0 then Some (0, s) else do {
          (pml3, s) \<leftarrow> walk_to_child_table pml4 (get_pml4_idx virt) VIRT_SCRATCH_L3 virt fl create s;
          if pml3 = 0 then Some (0, s) else do {
            (pd, s) \<leftarrow> walk_to_child_table pml3 (get_pml3_idx virt) VIRT_SCRATCH_L2 virt fl create s;
            if pd = 0 then Some (0, s)
            else walk_to_child_table pd (get_pd_idx virt) VIRT_SCRATCH_L1 virt fl create s } } })"

section \<open>Mapping and unmapping pages\<close>

text \<open>One level of the kernel's path of \<open>map_at_paddr_internal\<close>; \<open>False\<close> is its early return.\<close>

definition kernel_install ::
  "haddr \<Rightarrow> nat \<Rightarrow> haddr \<Rightarrow> haddr \<Rightarrow> u64 \<Rightarrow> machine \<Rightarrow> (bool \<times> machine) option"
where
  "kernel_install table idx child virt fl s = do {
     e \<leftarrow> table_read table idx s;
     (ok, s) \<leftarrow>
       (if entry_is_present e then Some (True, s)
        else
          (let (a, s) = alloc_frame s
           in if a = 0 then Some (False, s)
              else do {
                s \<leftarrow> table_write table idx (a OR normalize_table_flags virt fl) s;
                s \<leftarrow> table_fill child (\<lambda>_. 0) s;
                Some (True, s) }));
     if \<not> ok then Some (False, s) else do {
       e \<leftarrow> table_read table idx s;
       s \<leftarrow> table_write table idx (clear_nx e fl) s;
       e \<leftarrow> table_read table idx s;
       s \<leftarrow> table_write table idx (set_user_access e virt fl) s;
       Some (True, s) } }"

definition map_at_paddr_kernel :: "haddr \<Rightarrow> haddr \<Rightarrow> u64 \<Rightarrow> machine \<Rightarrow> (haddr \<times> machine) option" where
  "map_at_paddr_kernel virt phys fl s =
     (let pml3 = get_pml4_entry virt; pd = get_pml3_entry virt; pt = get_pd_entry virt
      in do {
        (ok, s) \<leftarrow> kernel_install (virtual_directory s) (get_pml4_idx virt) pml3 virt fl s;
        if \<not> ok then Some (0, s) else do {
          (ok, s) \<leftarrow> kernel_install pml3 (get_pml3_idx virt) pd virt fl s;
          if \<not> ok then Some (0, s) else do {
            (ok, s) \<leftarrow> kernel_install pd (get_pd_idx virt) pt virt fl s;
            if \<not> ok then Some (0, s) else do {
              s \<leftarrow> table_write pt (get_pt_idx virt) (phys OR normalize_leaf_flags virt fl) s;
              Some (virt AND MAPPING_STRUCTURE_MASK, invlpg virt s) } } } })"

definition map_at_paddr_internal ::
  "haddr \<Rightarrow> haddr \<Rightarrow> haddr \<Rightarrow> u64 \<Rightarrow> machine \<Rightarrow> (haddr \<times> machine) option"
where
  "map_at_paddr_internal v virt phys fl s =
     (if get_pml4_idx virt = RECURSIVE_IDX then Some (0, s)
      else if v \<noteq> kernel_vmm s then do {
        (pt, s) \<leftarrow> walk_non_kernel_to_pt v virt fl True s;
        if pt = 0 then Some (0, s) else do {
          s \<leftarrow> table_write pt (get_pt_idx virt) (phys OR normalize_leaf_flags virt fl) s;
          Some (virt AND MAPPING_STRUCTURE_MASK, invlpg virt s) } }
      else map_at_paddr_kernel virt phys fl s)"

definition unmap_internal :: "haddr \<Rightarrow> haddr \<Rightarrow> machine \<Rightarrow> (haddr \<times> machine) option" where
  "unmap_internal v virt s =
     (let virt_base = virt AND MAPPING_STRUCTURE_MASK
      in if get_pml4_idx virt = RECURSIVE_IDX then Some (0, s)
         else if v \<noteq> kernel_vmm s then do {
           (pt, s) \<leftarrow> walk_non_kernel_to_pt v virt 0 False s;
           if pt = 0 then Some (0, s) else do {
             s \<leftarrow> table_write pt (get_pt_idx virt) 0 s;
             Some (virt_base, s) } }
         else do {
           e4 \<leftarrow> table_read (virtual_directory s) (get_pml4_idx virt) s;
           if \<not> entry_is_present e4 then Some (0, s) else do {
             e3 \<leftarrow> table_read (get_pml4_entry virt) (get_pml3_idx virt) s;
             if \<not> entry_is_present e3 then Some (0, s) else do {
               e2 \<leftarrow> table_read (get_pml3_entry virt) (get_pd_idx virt) s;
               if \<not> entry_is_present e2 then Some (0, s) else do {
                 s \<leftarrow> table_write (get_pd_entry virt) (get_pt_idx virt) 0 s;
                 Some (virt_base, invlpg virt_base s) } } } })"

section \<open>Areas\<close>

text \<open>The flag \<open>has\<close> says whether \<open>vma.c\<close> finds memory for a node.\<close>

definition track_vma :: "haddr \<Rightarrow> haddr \<Rightarrow> u64 \<Rightarrow> machine \<Rightarrow> bool" where
  "track_vma v virt fl s \<longleftrightarrow>
     \<not> (v = 0 \<or> v = kernel_vmm s) \<and> \<not> is_higher_half virt \<and> fl AND PAGE_USER_ACCESIBLE \<noteq> 0"

definition set_areas :: "haddr \<Rightarrow> vma list \<Rightarrow> machine \<Rightarrow> machine" where
  "set_areas v as s = s\<lparr>vmms := (vmms s)(v := (vmms s v)\<lparr>vma_list := as\<rparr>)\<rparr>"

definition insert_vma :: "bool \<Rightarrow> haddr \<Rightarrow> haddr \<Rightarrow> haddr \<Rightarrow> u64 \<Rightarrow> machine \<Rightarrow> bool \<times> machine" where
  "insert_vma has v virt bytes fl s =
     (if \<not> track_vma v virt fl s then (True, s)
      else if bytes = 0 then (True, s)
      else if - 1 - virt < bytes - 1 then (False, s)
      else
        (let (ok, as) = vma_insert has (vma_list (vmms s v)) virt (virt + bytes - 1) fl 0 0
         in (ok, set_areas v as s)))"

definition remove_vma :: "bool \<Rightarrow> haddr \<Rightarrow> haddr \<Rightarrow> machine \<Rightarrow> bool \<times> machine" where
  "remove_vma has v virt s =
     (if v = 0 \<or> v = kernel_vmm s then (True, s)
      else if is_higher_half virt then (True, s)
      else
        (let (ok, as) = vma_remove has (vma_list (vmms s v)) virt (virt OR (PAGE_SIZE - 1))
         in (ok, set_areas v as s)))"

section \<open>The interface\<close>

definition map_single :: "haddr \<Rightarrow> haddr \<Rightarrow> u64 \<Rightarrow> machine \<Rightarrow> (haddr \<times> machine) option" where
  "map_single v virt fl s =
     (let (new_page, s) = alloc_frame s
      in if new_page = 0 then Some (0, s) else map_at_paddr_internal v virt new_page fl s)"

text \<open>The loop of \<open>vmm_map\<close> with the number of pages left; \<open>False\<close> when a page could not be
  mapped.\<close>

fun map_pages :: "haddr \<Rightarrow> haddr \<Rightarrow> nat \<Rightarrow> u64 \<Rightarrow> machine \<Rightarrow> (bool \<times> machine) option" where
  "map_pages v virt 0 fl s = Some (True, s)"
| "map_pages v virt (Suc n) fl s = do {
     (res, s) \<leftarrow> map_single v virt fl s;
     if res = 0 then Some (False, s) else map_pages v (virt + PAGE_SIZE) n fl s }"

definition vmm_map ::
  "bool \<Rightarrow> haddr \<Rightarrow> haddr \<Rightarrow> u64 \<Rightarrow> u64 \<Rightarrow> machine \<Rightarrow> (haddr \<times> machine) option"
where
  "vmm_map has v virt page_count fl s =
     (let virt_base = virt AND MAPPING_STRUCTURE_MASK
      in if (- 1) div PAGE_SIZE < page_count then Some (0, s)
         else
           (let (ok, s) = insert_vma has v virt_base (page_count * PAGE_SIZE) fl s
            in if \<not> ok then Some (0, s)
               else do {
                 (ok, s) \<leftarrow> map_pages v virt (unat page_count) fl s;
                 if \<not> ok then Some (0, snd (remove_vma has v virt_base s))
                 else Some (virt_base, s) }))"

definition vmm_map_at_paddr ::
  "bool \<Rightarrow> haddr \<Rightarrow> haddr \<Rightarrow> haddr \<Rightarrow> u64 \<Rightarrow> machine \<Rightarrow> (haddr \<times> machine) option"
where
  "vmm_map_at_paddr has v virt phys fl s =
     (let (ok, s) = insert_vma has v (virt AND MAPPING_STRUCTURE_MASK) PAGE_SIZE fl s
      in if \<not> ok then Some (0, s)
         else do {
           (virt_base, s) \<leftarrow> map_at_paddr_internal v virt phys fl s;
           if virt_base = 0
           then Some (0, snd (remove_vma has v (virt AND MAPPING_STRUCTURE_MASK) s))
           else Some (virt_base, s) })"

definition vmm_unmap :: "bool \<Rightarrow> haddr \<Rightarrow> haddr \<Rightarrow> machine \<Rightarrow> (haddr \<times> machine) option" where
  "vmm_unmap has v virt s = do {
     (virt_base, s) \<leftarrow> unmap_internal v virt s;
     if virt_base = 0 then Some (0, s)
     else
       (let (ok, s) = remove_vma has v virt_base s
        in if \<not> ok then Some (0, s) else Some (virt_base, s)) }"

text \<open>The three searches; \<open>None\<close> is \<open>false\<close>.\<close>

definition vmm_find_free_region_forward :: "haddr \<Rightarrow> haddr \<Rightarrow> haddr \<Rightarrow> machine \<Rightarrow> haddr option" where
  "vmm_find_free_region_forward v hint len s =
     (if v = 0 then None
      else vma_find_free_forward (vma_list (vmms s v)) hint (first_available_vaddr (vmms s v))
        (push_bit 39 256 - 1) len)"

definition vmm_find_free_region_backward ::
  "haddr \<Rightarrow> haddr \<Rightarrow> haddr \<Rightarrow> haddr \<Rightarrow> machine \<Rightarrow> haddr option"
where
  "vmm_find_free_region_backward v hint hi len s =
     (if v = 0 then None
      else
        (let user_max = push_bit 39 256 - 1
         in vma_find_free_backward (vma_list (vmms s v)) hint (first_available_vaddr (vmms s v))
              (if user_max < hi then user_max else hi) len))"

definition vmm_find_free_region_fixed :: "haddr \<Rightarrow> haddr \<Rightarrow> haddr \<Rightarrow> machine \<Rightarrow> haddr option" where
  "vmm_find_free_region_fixed v addr len s =
     (if v = 0 then None
      else vma_find_free_fixed (vma_list (vmms s v)) addr (first_available_vaddr (vmms s v))
        (push_bit 39 256 - 1) len)"

section \<open>Whole address spaces\<close>

text \<open>The loop of \<open>vmm_new\<close> over the entries of the kernel's half.\<close>

fun copy_kernel_half :: "haddr \<Rightarrow> haddr \<Rightarrow> nat list \<Rightarrow> machine \<Rightarrow> machine option" where
  "copy_kernel_half new_pml4 kernel_pml4 [] s = Some s"
| "copy_kernel_half new_pml4 kernel_pml4 (idx # is) s =
     (if idx = RECURSIVE_IDX then copy_kernel_half new_pml4 kernel_pml4 is s
      else do {
        e \<leftarrow> table_read kernel_pml4 idx s;
        s \<leftarrow> table_write new_pml4 idx e s;
        copy_kernel_half new_pml4 kernel_pml4 is s })"

definition set_vmm :: "haddr \<Rightarrow> vmm \<Rightarrow> machine \<Rightarrow> machine" where
  "set_vmm v x s = s\<lparr>vmms := (vmms s)(v := x)\<rparr>"

text \<open>\<open>v\<close> is what \<open>slab_alloc\<close> returns.\<close>

definition vmm_new :: "haddr \<Rightarrow> u64 \<Rightarrow> machine \<Rightarrow> (haddr \<times> machine) option" where
  "vmm_new v fl s =
     (if v = 0 then Some (0, s)
      else
        (let (pml4, s) = alloc_frame s
         in if pml4 = 0 then Some (0, s)
            else do {
              let kernel = vmms s (kernel_vmm s);
              let s = set_vmm v \<lparr>first_available_vaddr = 0, last_available_vaddr = 0,
                kernel_offset = kernel_offset kernel, pml4_phys = pml4, vma_list = []\<rparr> s;
              (new_pml4, s) \<leftarrow> scratch_map_table VIRT_SCRATCH_L4 pml4 s;
              (kernel_pml4, s) \<leftarrow> scratch_map_table VIRT_SCRATCH_L3 (pml4_phys kernel) s;
              if new_pml4 = 0 \<or> kernel_pml4 = 0 then Some (0, free_frame pml4 s)
              else do {
                s \<leftarrow> table_fill new_pml4 (\<lambda>_. 0) s;
                s \<leftarrow> copy_kernel_half new_pml4 kernel_pml4 [256..<512] s;
                s \<leftarrow> table_write new_pml4 RECURSIVE_IDX
                  (pml4 OR PAGE_PRESENT OR PAGE_WRITABLE OR (fl AND PAGE_USER_ACCESIBLE)) s;
                Some (v, set_vmm v ((vmms s v)\<lparr>first_available_vaddr := LOW_REGION_END,
                  last_available_vaddr := LAST_VADDR, pml4_phys := pml4\<rparr>) s) } }))"

text \<open>One of the four nested loops of \<open>walk_lower_mappings\<close>: the table is mapped again at its
  scratch address in every iteration, since what the body does may have moved it.\<close>

type_synonym walk_body = "nat \<Rightarrow> u64 \<Rightarrow> machine \<Rightarrow> (bool \<times> machine) option"

fun walk_level :: "haddr \<Rightarrow> haddr \<Rightarrow> walk_body \<Rightarrow> nat list \<Rightarrow> machine \<Rightarrow> (bool \<times> machine) option" where
  "walk_level scratch phys body [] s = Some (True, s)"
| "walk_level scratch phys body (i # is) s = do {
     (table, s) \<leftarrow> scratch_map_table scratch phys s;
     if table = 0 then Some (False, s)
     else do {
       e \<leftarrow> table_read table i s;
       if \<not> entry_is_present e then walk_level scratch phys body is s
       else do {
         (ok, s) \<leftarrow> body i e s;
         if \<not> ok then Some (False, s) else walk_level scratch phys body is s } } }"

text \<open>An inner loop, and the release of its table when \<open>free_tables\<close> is set.\<close>

definition walk_table :: "bool \<Rightarrow> haddr \<Rightarrow> (nat \<Rightarrow> walk_body) \<Rightarrow> walk_body" where
  "walk_table free_tables scratch body i e s = do {
     (ok, s) \<leftarrow> walk_level scratch (entry_phys e) (body i) [0..<512] s;
     if \<not> ok then Some (False, s)
     else Some (True, if free_tables then free_frame (entry_phys e) s else s) }"

definition path_addr :: "nat \<Rightarrow> nat \<Rightarrow> nat \<Rightarrow> nat \<Rightarrow> haddr" where
  "path_addr i4 i3 i2 i1 =
     push_bit 39 (word_of_nat i4) OR push_bit 30 (word_of_nat i3) OR
     push_bit 21 (word_of_nat i2) OR push_bit 12 (word_of_nat i1)"

definition walk_lower_mappings ::
  "haddr \<Rightarrow> (haddr \<Rightarrow> u64 \<Rightarrow> machine \<Rightarrow> (bool \<times> machine) option) \<Rightarrow> bool \<Rightarrow> machine \<Rightarrow>
   (bool \<times> machine) option"
where
  "walk_lower_mappings v callback free_tables s =
     walk_level VIRT_SCRATCH_L4 (pml4_phys (vmms s v))
       (walk_table free_tables VIRT_SCRATCH_L3 (\<lambda>i4.
          walk_table free_tables VIRT_SCRATCH_L2 (\<lambda>i3.
            walk_table free_tables VIRT_SCRATCH_L1 (\<lambda>i2 i1 e.
              callback (path_addr i4 i3 i2 i1) e))))
       [0..<256] s"

definition map_at_paddr_with_leaf_flags ::
  "haddr \<Rightarrow> haddr \<Rightarrow> haddr \<Rightarrow> u64 \<Rightarrow> machine \<Rightarrow> (haddr \<times> machine) option"
where
  "map_at_paddr_with_leaf_flags v virt phys leaf_flags s = do {
     (pt, s) \<leftarrow> walk_non_kernel_to_pt v virt (flags_to_mapping_request leaf_flags) True s;
     if pt = 0 then Some (0, s)
     else do {
       s \<leftarrow> table_write pt (get_pt_idx virt) (phys OR leaf_flags) s;
       Some (virt AND MAPPING_STRUCTURE_MASK, invlpg virt s) } }"

definition copy_mapping :: "haddr \<Rightarrow> haddr \<Rightarrow> u64 \<Rightarrow> machine \<Rightarrow> (bool \<times> machine) option" where
  "copy_mapping dst virt entry s =
     (let (new_page, s) = alloc_frame s
      in if new_page = 0 then Some (False, s)
         else do {
           (src_page, s) \<leftarrow> scratch_map_page VIRT_SCRATCH_ADDR (entry_phys entry) s;
           (dst_page, s) \<leftarrow> scratch_map_page VIRT_PML4 new_page s;
           if src_page = 0 \<or> dst_page = 0 then Some (False, free_frame new_page s)
           else do {
             s \<leftarrow> page_copy dst_page src_page s;
             (r, s) \<leftarrow> map_at_paddr_with_leaf_flags dst virt new_page (entry_flags entry) s;
             if r = 0 then Some (False, free_frame new_page s) else Some (True, s) } })"

definition destroy_mapping :: "haddr \<Rightarrow> u64 \<Rightarrow> machine \<Rightarrow> (bool \<times> machine) option" where
  "destroy_mapping virt entry s = Some (True, free_frame (entry_phys entry) s)"

definition vmm_copy_mappings :: "haddr \<Rightarrow> haddr \<Rightarrow> machine \<Rightarrow> (bool \<times> machine) option" where
  "vmm_copy_mappings dst src s = walk_lower_mappings src (copy_mapping dst) False s"

definition vmm_destroy_mappings :: "haddr \<Rightarrow> machine \<Rightarrow> machine option" where
  "vmm_destroy_mappings v s = map_option snd (walk_lower_mappings v destroy_mapping True s)"

definition vmm_free :: "haddr \<Rightarrow> machine \<Rightarrow> machine option" where
  "vmm_free v s =
     (if v = 0 \<or> v = kernel_vmm s then Some s
      else do {
        s \<leftarrow> vmm_destroy_mappings v s;
        let s = set_areas v (vma_clear (vma_list (vmms s v))) s;
        Some (free_frame (pml4_phys (vmms s v)) s) })"

text \<open>\<open>v\<close> is the address \<open>slab_alloc\<close> gives \<open>vmm_new\<close>, \<open>has\<close> the memory \<open>vma_copy_list\<close> finds.\<close>

definition vmm_copy :: "haddr \<Rightarrow> (nat \<Rightarrow> bool) \<Rightarrow> haddr \<Rightarrow> machine \<Rightarrow> (haddr \<times> machine) option" where
  "vmm_copy v has src s =
     (if src = 0 then Some (0, s)
      else do {
        (src_pml4, s) \<leftarrow> scratch_map_table VIRT_SCRATCH_L4 (pml4_phys (vmms s src)) s;
        if src_pml4 = 0 then Some (0, s)
        else do {
          e \<leftarrow> table_read src_pml4 RECURSIVE_IDX s;
          (dst, s) \<leftarrow> vmm_new v (entry_flags e) s;
          if dst = 0 then Some (0, s)
          else do {
            let s = set_vmm dst ((vmms s dst)\<lparr>
              first_available_vaddr := first_available_vaddr (vmms s src),
              last_available_vaddr := last_available_vaddr (vmms s src),
              kernel_offset := kernel_offset (vmms s src)\<rparr>) s;
            (ok, s) \<leftarrow> vmm_copy_mappings dst src s;
            if \<not> ok then do { s \<leftarrow> vmm_free dst s; Some (0, s) }
            else
              (let (ok, as) = vma_copy_list has (vma_list (vmms s dst)) (vma_list (vmms s src));
                   s = set_areas dst as s
               in if \<not> ok then do { s \<leftarrow> vmm_free dst s; Some (0, s) }
                  else Some (dst, s)) } } })"

section \<open>Bootstrap\<close>

datatype vmm_halt = KernelTooLarge | SharedTables | PmmHalt pmm_error

text \<open>Before \<open>load_pd\<close> the arrays of the kernel image are written where the boot loader has put
  them; \<open>image_phys\<close> is the physical address of an array at the virtual address \<open>a\<close>.\<close>

definition image_phys :: "haddr \<Rightarrow> machine \<Rightarrow> haddr" where
  "image_phys a s = kernel_start (pmm s) + (a - kernel_vstart (pmm s))"

definition image_write :: "haddr \<Rightarrow> nat \<Rightarrow> u64 \<Rightarrow> machine \<Rightarrow> machine" where
  "image_write a i e s = s\<lparr>mem := put_entry (image_phys a s) i e (mem s)\<rparr>"

definition image_zero :: "haddr \<Rightarrow> machine \<Rightarrow> machine" where
  "image_zero a s = s\<lparr>mem := (mem s)(image_phys a s := (\<lambda>_. 0))\<rparr>"

text \<open>The identity map of the first megabyte.\<close>

definition low_identity :: "haddr \<Rightarrow> machine \<Rightarrow> machine" where
  "low_identity low_identity_pde s =
     fold (\<lambda>k. image_write low_identity_pde k
             (PAGE_SIZE * word_of_nat k OR PAGE_PRESENT OR PAGE_WRITABLE))
       [0..<256] s"

definition check_kernel_size :: "u64 \<Rightarrow> bool" where
  "check_kernel_size page_count \<longleftrightarrow> \<not> 1023 - 256 < page_count"

text \<open>The loop over the pages of the kernel; \<open>None\<close> is a store past the end of \<open>kernel_pde\<close>.\<close>

function fill_kernel_pde :: "haddr \<Rightarrow> haddr \<Rightarrow> nat \<Rightarrow> machine \<Rightarrow> machine option" where
  "fill_kernel_pde kernel_pde addr kernel_page s =
     (if \<not> addr \<le> kernel_end (pmm s) then Some s
      else if 512 \<le> kernel_page then None
      else fill_kernel_pde kernel_pde (addr + 4096) (kernel_page + 1)
             (image_write kernel_pde kernel_page (addr OR PAGE_PRESENT OR PAGE_WRITABLE) s))"
  by pat_completeness auto
termination by (relation "measure (\<lambda>(k, a, p, s). 512 - p)") auto

declare fill_kernel_pde.simps [simp del]

partial_function (option) map_framebuffer_loop ::
  "haddr \<Rightarrow> haddr \<Rightarrow> haddr \<Rightarrow> machine \<Rightarrow> machine option"
where
  "map_framebuffer_loop pend virt addr s =
     (if \<not> addr \<le> pend + 4096 then Some s
      else
        (case map_in_current_cr3 virt addr (PAGE_PRESENT OR PAGE_WRITABLE) s of
           None \<Rightarrow> None
         | Some (r, s) \<Rightarrow> map_framebuffer_loop pend (virt + 4096) (addr + 4096) s))"

definition map_framebuffer :: "haddr \<Rightarrow> haddr \<Rightarrow> haddr \<Rightarrow> machine \<Rightarrow> machine option" where
  "map_framebuffer fb_addr fb_end v s =
     map_framebuffer_loop (fb_end - kernel_offset (vmms s v)) fb_addr
       (fb_addr - kernel_offset (vmms s v)) s"

text \<open>The calls of \<open>pmm_initialize_bitmap\<close> to \<open>early_alloc\<close> and \<open>vmm_map_at_paddr\<close> on this state;
  the frame of the first call is returned (with no call, the source reads it uninitialised).\<close>

fun map_bitmap :: "nat \<Rightarrow> u64 \<Rightarrow> haddr \<Rightarrow> machine \<Rightarrow> (haddr \<times> machine) option" where
  "map_bitmap 0 i paddr s = Some (paddr, s)"
| "map_bitmap (Suc n) i paddr s =
     (let (addr, p) = early_alloc (pmm s); s = s\<lparr>pmm := p\<rparr> in do {
        (r, s) \<leftarrow> vmm_map_at_paddr True (kernel_vmm s) (kernel_vend (pmm s) + PAGE_SIZE * i) addr
          (PAGE_PRESENT OR PAGE_WRITABLE) s;
        map_bitmap n (i + 1) (if i = 1 then addr else paddr) s })"

text \<open>The tables of the kernel's half that every address space shares.\<close>

fun share_kernel_half :: "nat list \<Rightarrow> machine \<Rightarrow> (vmm_halt + machine) option" where
  "share_kernel_half [] s = Some (Inr s)"
| "share_kernel_half (idx # is) s =
     (if idx = RECURSIVE_IDX then share_kernel_half is s
      else do {
        e \<leftarrow> table_read (virtual_directory s) idx s;
        if entry_is_present e then share_kernel_half is s
        else
          (let (a, s) = alloc_frame s
           in if a = 0 then Some (Inl SharedTables)
              else do {
                s \<leftarrow> table_write (virtual_directory s) idx
                  (a OR normalize_table_flags (push_bit 39 (word_of_nat idx)) 0) s;
                (new_pml3, s) \<leftarrow> scratch_map_table VIRT_SCRATCH_L3 a s;
                if new_pml3 = 0 then Some (Inl SharedTables)
                else do {
                  s \<leftarrow> table_fill new_pml3 (\<lambda>_. 0) s;
                  share_kernel_half is s } }) })"

record bootstrap_arrays =
  bootstrap_pml4 :: haddr
  bootstrap_pml3 :: haddr
  bootstrap_pd :: haddr
  low_identity_pde :: haddr
  kernel_pde :: haddr

text \<open>The part of \<open>vmm_initialize\<close> up to \<open>load_pd\<close>: the first tables.\<close>

definition vmm_first_tables :: "bootstrap_arrays \<Rightarrow> machine \<Rightarrow> (vmm_halt + machine) option" where
  "vmm_first_tables A s =
     (let s = fold (\<lambda>a. image_zero a) [bootstrap_pml4 A, bootstrap_pml3 A, bootstrap_pd A,
                low_identity_pde A, kernel_pde A] s;
          s = low_identity (low_identity_pde A) s
      in if \<not> check_kernel_size (kernel_page_count (pmm s)) then Some (Inl KernelTooLarge)
         else do {
           s \<leftarrow> fill_kernel_pde (kernel_pde A) (kernel_start (pmm s)) 0 s;
           let s = image_write (bootstrap_pml4 A) RECURSIVE_IDX
             (image_phys (bootstrap_pml4 A) s OR 3) s;
           let s = image_write (bootstrap_pml4 A) 511 (image_phys (bootstrap_pml3 A) s OR 3) s;
           let s = image_write (bootstrap_pml3 A) 510 (image_phys (bootstrap_pd A) s OR 3) s;
           let s = image_write (bootstrap_pd A) 0 (image_phys (kernel_pde A) s OR 3) s;
           let s = s\<lparr>virtual_directory := bootstrap_pml4 A\<rparr>;
           Some (Inr (load_pd (image_phys (bootstrap_pml4 A) s) s)) })"

text \<open>The whole of it; \<open>v\<close> is the address of the static \<open>kernel_vmm\<close>, \<open>backing\<close> the bytes found at
  the bitmap's address.\<close>

definition vmm_initialize ::
  "haddr \<Rightarrow> haddr \<Rightarrow> haddr \<Rightarrow> haddr \<Rightarrow> u8 list \<Rightarrow> bootstrap_arrays \<Rightarrow> machine \<Rightarrow>
   (vmm_halt + machine) option"
where
  "vmm_initialize hhdm_offset fb_addr fb_end v backing A s = do {
     r \<leftarrow> vmm_first_tables A (set_vmm v ((vmms s v)\<lparr>kernel_offset := hhdm_offset\<rparr>) s);
     case r of
       Inl h \<Rightarrow> Some (Inl h)
     | Inr s \<Rightarrow> do {
         let s = set_vmm v ((vmms s v)\<lparr>pml4_phys := cr3 s\<rparr>) (s\<lparr>kernel_vmm := v\<rparr>);
         s \<leftarrow> map_framebuffer fb_addr fb_end v s;
         (bitmap_paddr, s) \<leftarrow> map_bitmap (unat (pages_for_bitmap (pmm s))) 1 0 s;
         case pmm_publish_bitmap backing bitmap_paddr (pmm s) of
           Inl h \<Rightarrow> Some (Inl (PmmHalt h))
         | Inr p \<Rightarrow> do {
             r \<leftarrow> share_kernel_half [256..<512] (s\<lparr>pmm := p\<rparr>);
             case r of
               Inl h \<Rightarrow> Some (Inl h)
             | Inr s \<Rightarrow>
                 (let bitmap_pages = pmm_addr_to_page_ceil (drop_bit 3 (total_pages (pmm s) + 7))
                  in Some (Inr (set_vmm v ((vmms s v)\<lparr>
                       first_available_vaddr :=
                         mem_bitmap (pmm s) + pmm_page_to_addr_base bitmap_pages,
                       last_available_vaddr := virtual_directory s,
                       pml4_phys := cr3 s\<rparr>) s))) } } }"

definition get_pt_entry :: "haddr \<Rightarrow> machine \<Rightarrow> u64 option" where
  "get_pt_entry virt s = table_read (get_pd_entry virt) (get_pt_idx virt) s"

end
