(* ===== verification/Vmm_Map.thy ===== *)
theory Vmm_Map
  imports Vmm "HOL-Library.Sublist"
begin

text \<open>
  What the tables of \<^verbatim>\<open>kernel/memory/vmm.c\<close> mean: the recursive entry, the scratch addresses, and the
  effect of mapping and unmapping a page of a process on the walk of the processor.
\<close>

section \<open>Words\<close>

lemma mask9: "(511 :: u64) = mask 9"
  by (simp add: mask_eq_exp_minus_1)

lemma idx_take_bit:
  "get_pml4_idx virt = unat (take_bit 9 (drop_bit 39 virt))"
  "get_pml3_idx virt = unat (take_bit 9 (drop_bit 30 virt))"
  "get_pd_idx virt = unat (take_bit 9 (drop_bit 21 virt))"
  "get_pt_idx virt = unat (take_bit 9 (drop_bit 12 virt))"
  by (simp_all only: get_pml4_idx_def get_pml3_idx_def get_pd_idx_def get_pt_idx_def mask9
      and_mask_take_bit)

lemma idx_less [simp]:
  "get_pml4_idx virt < 512" "get_pml3_idx virt < 512" "get_pd_idx virt < 512" "get_pt_idx virt < 512"
  by (simp_all add: idx_take_bit unat_take_bit)

lemma small_bits: "n < 512 \<Longrightarrow> 9 \<le> j \<Longrightarrow> \<not> bit (word_of_nat n :: u64) j"
proof
  assume n: "n < 512" and b: "bit (word_of_nat n :: u64) j" and "9 \<le> j"
  have "take_bit 9 (word_of_nat n :: u64) = word_of_nat n"
    using n by (intro word_unat_eq_iff [THEN iffD2]) (simp add: unat_take_bit unat_of_nat_small)
  then show False using b \<open>9 \<le> j\<close> by (metis bit_take_bit_iff not_less)
qed

lemma join_fields:
  fixes A B C D h :: u64
  assumes "\<And>j. 9 \<le> j \<Longrightarrow> \<not> bit A j" "\<And>j. 9 \<le> j \<Longrightarrow> \<not> bit B j" "\<And>j. 9 \<le> j \<Longrightarrow> \<not> bit C j"
    "\<And>j. 9 \<le> j \<Longrightarrow> \<not> bit D j" "\<And>j. j < 48 \<Longrightarrow> \<not> bit h j"
    and x: "x = h OR push_bit 39 A OR push_bit 30 B OR push_bit 21 C OR push_bit 12 D"
  shows "take_bit 9 (drop_bit 39 x) = A" "take_bit 9 (drop_bit 30 x) = B"
    "take_bit 9 (drop_bit 21 x) = C" "take_bit 9 (drop_bit 12 x) = D"
  unfolding x by (rule bit_eqI; rename_tac n; case_tac "n < 9"; simp add: bit_simps assms(1-5) not_less)+

text \<open>An address put together from four indices, and its indices.\<close>

definition join :: "u64 \<Rightarrow> nat \<Rightarrow> nat \<Rightarrow> nat \<Rightarrow> nat \<Rightarrow> haddr" where
  "join h a b c d = h OR push_bit 39 (word_of_nat a) OR push_bit 30 (word_of_nat b) OR
     push_bit 21 (word_of_nat c) OR push_bit 12 (word_of_nat d)"

lemma vpath_join:
  assumes "a < 512" "b < 512" "c < 512" "d < 512" "h AND 0xFFFFFFFFFFFF = 0"
  shows "vpath (join h a b c d) = [a, b, c, d]"
proof -
  have h: "\<not> bit h j" if "j < 48" for j
  proof -
    have "(0xFFFFFFFFFFFF :: u64) = mask 48" by (simp add: mask_eq_exp_minus_1)
    then have "take_bit 48 h = 0" using assms(5) by (simp only: and_mask_take_bit)
    then show ?thesis using that by (metis bit_0_eq bit_take_bit_iff bot_apply bot_bool_def)
  qed
  note js = join_fields [OF small_bits [OF assms(1)] small_bits [OF assms(2)]
    small_bits [OF assms(3)] small_bits [OF assms(4)] h join_def]
  have "take_bit 9 (drop_bit 39 (join h a b c d)) = word_of_nat a"
    "take_bit 9 (drop_bit 30 (join h a b c d)) = word_of_nat b"
    "take_bit 9 (drop_bit 21 (join h a b c d)) = word_of_nat c"
    "take_bit 9 (drop_bit 12 (join h a b c d)) = word_of_nat d"
    by (rule js; assumption)+
  then show ?thesis using assms(1-4) by (simp add: vpath_def idx_take_bit unat_of_nat_small)
qed

lemma entry_join:
  "get_pml4_entry virt = join CANONICAL_HIGH 510 510 510 (get_pml4_idx virt)"
  "get_pml3_entry virt = join CANONICAL_HIGH 510 510 (get_pml4_idx virt) (get_pml3_idx virt)"
  "get_pd_entry virt =
     join CANONICAL_HIGH 510 (get_pml4_idx virt) (get_pml3_idx virt) (get_pd_idx virt)"
  "get_current_pml4 = join CANONICAL_HIGH 510 510 510 510"
  by (simp_all add: get_pml4_entry_def get_pml3_entry_def get_pd_entry_def get_current_pml4_def
      join_def)

lemma vpath_entry:
  "vpath (get_pml4_entry virt) = [510, 510, 510, get_pml4_idx virt]"
  "vpath (get_pml3_entry virt) = [510, 510, get_pml4_idx virt, get_pml3_idx virt]"
  "vpath (get_pd_entry virt) = [510, get_pml4_idx virt, get_pml3_idx virt, get_pd_idx virt]"
  "vpath get_current_pml4 = [510, 510, 510, 510]"
  unfolding entry_join by (rule vpath_join; simp)+

lemma vpath_scratch:
  "vpath VIRT_SCRATCH_ADDR = [511, 509, 384, 0]" "vpath VIRT_PML4 = [511, 509, 384, 1]"
  "vpath VIRT_SCRATCH_L4 = [511, 509, 384, 2]" "vpath VIRT_SCRATCH_L3 = [511, 509, 384, 3]"
  "vpath VIRT_SCRATCH_L2 = [511, 509, 384, 4]" "vpath VIRT_SCRATCH_L1 = [511, 509, 384, 5]"
  by (simp_all add: vpath_def idx_take_bit unat_take_bit unat_shiftr)

lemma present_bit: "entry_is_present e \<longleftrightarrow> bit e 0"
  by (simp only: entry_is_present_def and_one_eq bit_0 odd_iff_mod_2_eq_one)

section \<open>Walks and updates\<close>

lemma walk_append:
  "walk m f (p @ q) = (case walk m f p of None \<Rightarrow> None | Some g \<Rightarrow> walk m g q)"
  by (induction p arbitrary: f) auto

lemma walk_prefix: "walk m f (p @ q) = Some g \<Longrightarrow> \<exists>h. walk m f p = Some h \<and> walk m h q = Some g"
  by (simp add: walk_append split: option.splits)

text \<open>The paths of the tables of a process, and those of its pages.\<close>

definition user_path :: "nat \<Rightarrow> nat list \<Rightarrow> bool" where
  "user_path n p \<longleftrightarrow> length p \<le> n \<and> (\<forall>i\<in>set p. i < 512) \<and> (p \<noteq> [] \<longrightarrow> hd p < 256)"

lemma user_path_snoc: "user_path (Suc n) (p @ [i]) \<Longrightarrow> user_path n p"
  by (cases p) (auto simp: user_path_def)

lemma user_path_mono: "user_path n p \<Longrightarrow> n \<le> k \<Longrightarrow> user_path k p"
  by (auto simp: user_path_def)

text \<open>No frame is two of the process's tables.\<close>

definition separate :: "memory \<Rightarrow> haddr \<Rightarrow> bool" where
  "separate m r \<longleftrightarrow>
     (\<forall>p q f. user_path 3 p \<longrightarrow> user_path 3 q \<longrightarrow> walk m r p = Some f \<longrightarrow> walk m r q = Some f \<longrightarrow> p = q)"

text \<open>The frames of the tables of a process.\<close>

definition tables :: "memory \<Rightarrow> haddr \<Rightarrow> haddr set" where
  "tables m r = {f. \<exists>p. user_path 3 p \<and> walk m r p = Some f}"

lemma tablesI: "user_path 3 p \<Longrightarrow> walk m r p = Some f \<Longrightarrow> f \<in> tables m r"
  by (auto simp: tables_def)

lemma walk_put:
  assumes "separate m r" "user_path 3 p" "walk m r p = Some f"
  shows "user_path 4 q \<Longrightarrow> \<not> prefix (p @ [i]) q \<Longrightarrow> walk (put_entry f i e m) r q = walk m r q"
proof (induction q rule: rev_induct)
  case (snoc j q)
  have q: "user_path 3 q" using snoc.prems(1) user_path_snoc [of 3] by simp
  have np: "\<not> prefix (p @ [i]) q" using snoc.prems(2) by (meson prefix_prefix)
  note ih = snoc.IH [OF user_path_mono [OF q] np]
  have "put_entry f i e m g j = m g j" if "walk m r q = Some g" for g
  proof -
    have "\<not> (g = f \<and> j = i)"
      using assms q that snoc.prems(2) by (auto simp: separate_def)
    then show ?thesis by (auto simp: put_entry_def)
  qed
  then show ?case using ih by (simp add: walk_append split: option.splits)
qed simp

lemma walk_outside:
  assumes "f \<notin> tables m r"
  shows "user_path 4 q \<Longrightarrow> walk (m(f := ws)) r q = walk m r q"
proof (induction q rule: rev_induct)
  case (snoc j q)
  have q: "user_path 3 q" using snoc.prems user_path_snoc [of 3] by simp
  have "g \<noteq> f" if "walk m r q = Some g" for g using that q assms by (auto simp: tables_def)
  then show ?case using snoc.IH [OF user_path_mono [OF q]] by (auto simp: walk_append split: option.splits)
qed simp

lemma put_entry_upd: "put_entry f i e m = m(f := (m f)(i := e))"
  by (simp add: put_entry_def)

lemma walk_same_entry:
  assumes "entry_is_present e = entry_is_present (m f i)" "entry_phys e = entry_phys (m f i)"
  shows "walk (put_entry f i e m) g q = walk m g q"
  by (induction q arbitrary: g) (auto simp: put_entry_def assms)

lemma separate_cong: "(\<And>q. user_path 3 q \<Longrightarrow> walk m' r q = walk m r q) \<Longrightarrow> separate m' r = separate m r"
  by (simp add: separate_def)

lemma tables_cong: "(\<And>q. user_path 3 q \<Longrightarrow> walk m' r q = walk m r q) \<Longrightarrow> tables m' r = tables m r"
  by (auto simp: tables_def)

text \<open>A zeroed frame \<open>n\<close> becomes the table of an entry that was not present.\<close>

lemma walk_install:
  assumes sep: "separate m r" and p: "user_path 3 (p @ [i])" "walk m r p = Some f"
    and e: "entry_is_present e" "entry_phys e = n" "\<not> entry_is_present (m f i)"
    and n: "n \<notin> tables m r"
  shows "user_path 4 q \<Longrightarrow>
    walk ((put_entry f i e m)(n := (\<lambda>_. 0))) r q = (if q = p @ [i] then Some n else walk m r q)"
proof -
  let ?m = "(put_entry f i e m)(n := (\<lambda>_. 0))"
  assume q: "user_path 4 q"
  have p3: "user_path 3 p" using user_path_snoc [of 2 p i] p(1) by (simp add: user_path_mono numeral_3_eq_3)
  have old: "walk m r (p @ [i] @ ws) = None" for ws using p(2) e(3) by (simp add: walk_append)
  have "n \<noteq> f" using n tablesI [OF p3 p(2)] by auto
  have m: "?m = put_entry f i e (m(n := (\<lambda>_. 0)))"
    using \<open>n \<noteq> f\<close> by (auto simp: put_entry_def fun_eq_iff)
  have sep': "separate (m(n := (\<lambda>_. 0))) r"
    using separate_cong [where m = m and r = r and m' = "m(n := (\<lambda>_. 0))"] walk_outside [OF n] sep
    by (simp add: user_path_mono)
  have pf: "walk (m(n := (\<lambda>_. 0))) r p = Some f"
    using walk_outside [OF n] p3 p(2) by (simp add: user_path_mono)
  have new: "walk ?m r (p @ [i]) = Some n"
  proof -
    have "walk ?m r p = Some f"
      using walk_put [OF sep' p3 pf, of p i e] p3 pf m by (simp add: user_path_mono)
    then show ?thesis using e \<open>n \<noteq> f\<close> by (simp add: walk_append put_entry_def)
  qed
  show ?thesis
  proof (cases "prefix (p @ [i]) q")
    case False
    then have "walk ?m r q = walk m r q"
      using walk_put [OF sep' p3 pf q False] walk_outside [OF n q] m by simp
    then show ?thesis using False by auto
  next
    case True
    then obtain ws where ws: "q = p @ [i] @ ws" by (auto elim: prefixE)
    have "walk ?m n ws = None" if "ws \<noteq> []"
      using that by (cases ws) (simp_all add: entry_is_present_def)
    then show ?thesis using new old [of ws] walk_append [of ?m r "p @ [i]" ws] ws by auto
  qed
qed

section \<open>The recursive entry\<close>

lemma recursive_translate:
  assumes "walk m c [510] = Some c"
  shows "translate m c get_current_pml4 = Some c"
    "translate m c (get_pml4_entry virt) = walk m c [get_pml4_idx virt]"
    "translate m c (get_pml3_entry virt) = walk m c [get_pml4_idx virt, get_pml3_idx virt]"
    "translate m c (get_pd_entry virt) =
       walk m c [get_pml4_idx virt, get_pml3_idx virt, get_pd_idx virt]"
  using assms by (auto simp: translate_def vpath_entry split: if_splits)

section \<open>The scratch addresses\<close>

text \<open>The tables the scratch addresses go through in the current address space.\<close>

definition scratch_path :: "memory \<Rightarrow> haddr \<Rightarrow> haddr \<Rightarrow> haddr \<Rightarrow> haddr \<Rightarrow> bool" where
  "scratch_path m c k3 k2 k1 \<longleftrightarrow>
     walk m c [510] = Some c \<and> walk m c [511] = Some k3 \<and> walk m k3 [509] = Some k2 \<and>
     walk m k2 [384] = Some k1 \<and> distinct [c, k3, k2, k1]"

definition scratch_addr :: "haddr \<Rightarrow> nat \<Rightarrow> bool" where
  "scratch_addr a k \<longleftrightarrow> vpath a = [511, 509, 384, k] \<and> a AND MAPPING_STRUCTURE_MASK \<noteq> 0"

lemma scratch_addrs [simp]:
  "scratch_addr VIRT_SCRATCH_ADDR 0" "scratch_addr VIRT_PML4 1" "scratch_addr VIRT_SCRATCH_L4 2"
  "scratch_addr VIRT_SCRATCH_L3 3" "scratch_addr VIRT_SCRATCH_L2 4" "scratch_addr VIRT_SCRATCH_L1 5"
  unfolding scratch_addr_def vpath_scratch by simp_all

lemma scratch_translate:
  "scratch_path m c k3 k2 k1 \<Longrightarrow> scratch_addr a k \<Longrightarrow> translate m c a = walk m k1 [k]"
  by (auto simp: translate_def scratch_addr_def scratch_path_def split: if_splits)

lemma current_install_present:
  "table_read t i s = Some e \<Longrightarrow> entry_is_present e \<Longrightarrow> current_install t i ch s = Some s"
proof -
  assume t: "table_read t i s = Some e" and e: "entry_is_present e"
  have "bit e 0" using e by (simp add: present_bit)
  then have "bit (e AND 3) 0" by (simp add: bit_and_iff)
  then have "e AND 3 \<noteq> 0" by auto
  then show ?thesis using t by (simp add: current_install_def)
qed

definition scratch_set :: "haddr \<Rightarrow> nat \<Rightarrow> haddr \<Rightarrow> haddr \<Rightarrow> machine \<Rightarrow> machine" where
  "scratch_set a k k1 phys s =
     s\<lparr>mem := put_entry k1 k (phys OR 3) (mem s), invlpgs := a # a # invlpgs s\<rparr>"

lemma scratch_map_table_eq:
  assumes sp: "scratch_path (mem s) (cr3 s) k3 k2 k1" and a: "scratch_addr a k"
  shows "scratch_map_table a phys s = Some (a, scratch_set a k k1 phys s)"
proof -
  have idx: "get_pml4_idx a = 511" "get_pml3_idx a = 509" "get_pd_idx a = 384" "get_pt_idx a = k"
    and a0: "a AND MAPPING_STRUCTURE_MASK \<noteq> 0" "a \<noteq> 0"
    using a by (auto simp: scratch_addr_def vpath_def)
  have r: "walk (mem s) (cr3 s) [510] = Some (cr3 s)" using sp by (simp add: scratch_path_def)
  note tr = recursive_translate(1) [OF r] recursive_translate(2-4) [OF r, of a, unfolded idx]
  have "current_install get_current_pml4 511 (get_pml4_entry a) s = Some s"
    "current_install (get_pml4_entry a) 509 (get_pml3_entry a) s = Some s"
    "current_install (get_pml3_entry a) 384 (get_pd_entry a) s = Some s"
    using sp by (auto intro!: current_install_present simp: table_read_def tr scratch_path_def split: if_splits)
  moreover have "translate (mem s) (cr3 s) (get_pd_entry a) = Some k1"
    using sp by (auto simp: tr scratch_path_def split: if_splits)
  ultimately show ?thesis
    using a0 by (simp add: scratch_map_table_def map_in_current_cr3_def idx table_write_def invlpg_def
        scratch_set_def)
qed

lemma phys_or_flags:
  assumes "entry_phys a = a" "fl AND ENTRY_PHYS_MASK = 0"
  shows "entry_phys (a OR fl) = a"
  using assms by (simp add: entry_phys_def bit.conj_disj_distrib2)

lemma phys_idem [simp]: "entry_phys (entry_phys e) = entry_phys e"
  by (simp add: entry_phys_def and.assoc)

lemma scratch_entry: "entry_phys ph = ph \<Longrightarrow> entry_phys (ph OR 3) = ph \<and> entry_is_present (ph OR 3)"
  by (auto simp: phys_or_flags present_bit bit_or_iff)

section \<open>The address space of a process\<close>

text \<open>The tables of the space with root \<open>r\<close> are separate from each other and from the tables of
  the scratch addresses of the current space, whose root is \<open>c\<close>.\<close>

definition space :: "haddr \<Rightarrow> haddr \<Rightarrow> haddr \<Rightarrow> haddr \<Rightarrow> haddr \<Rightarrow> memory \<Rightarrow> bool" where
  "space c k3 k2 k1 r m \<longleftrightarrow>
     scratch_path m c k3 k2 k1 \<and> separate m r \<and> entry_phys r = r \<and>
     tables m r \<inter> {k3, k2, k1} = {} \<and> (c \<in> tables m r \<longrightarrow> c = r)"

text \<open>What leaves the rest of the machine alone: an operation may move frames, tables and the
  translations of the scratch addresses only.\<close>

definition same_rest :: "machine \<Rightarrow> machine \<Rightarrow> bool" where
  "same_rest s s' \<longleftrightarrow> cr3 s' = cr3 s \<and> vmms s' = vmms s \<and> kernel_vmm s' = kernel_vmm s \<and>
     virtual_directory s' = virtual_directory s"

lemma same_rest_refl [simp]: "same_rest s s"
  by (simp add: same_rest_def)

lemma same_rest_trans: "same_rest s s1 \<Longrightarrow> same_rest s1 s2 \<Longrightarrow> same_rest s s2"
  by (simp add: same_rest_def)

definition same_walks :: "haddr \<Rightarrow> memory \<Rightarrow> memory \<Rightarrow> bool" where
  "same_walks r m m' \<longleftrightarrow> (\<forall>q. user_path 4 q \<longrightarrow> walk m' r q = walk m r q)"

lemma same_walks_tables:
  "same_walks r m m' \<Longrightarrow> separate m' r = separate m r \<and> tables m' r = tables m r"
  by (auto simp: same_walks_def user_path_mono intro!: separate_cong tables_cong)

lemma scratch_path_cong:
  assumes "scratch_path m c k3 k2 k1"
    and "\<And>i. 256 \<le> i \<Longrightarrow> m' c i = m c i" "m' k3 = m k3" "m' k2 = m k2"
  shows "scratch_path m' c k3 k2 k1"
  using assms by (auto simp: scratch_path_def split: if_splits)

lemma space_scratch_set:
  assumes sp: "space c k3 k2 k1 r (mem s)"
  shows "same_walks r (mem s) (mem (scratch_set a k k1 ph s))"
    "space c k3 k2 k1 r (mem (scratch_set a k k1 ph s))"
proof -
  have k: "k1 \<notin> tables (mem s) r" using sp by (auto simp: space_def)
  show w: "same_walks r (mem s) (mem (scratch_set a k k1 ph s))"
    using walk_outside [OF k] by (simp add: same_walks_def scratch_set_def put_entry_upd)
  have "scratch_path (mem (scratch_set a k k1 ph s)) c k3 k2 k1"
    by (rule scratch_path_cong [where m = "mem s"])
       (use sp in \<open>auto simp: space_def scratch_path_def scratch_set_def put_entry_upd\<close>)
  then show "space c k3 k2 k1 r (mem (scratch_set a k k1 ph s))"
    using sp same_walks_tables [OF w] by (simp add: space_def)
qed

lemma same_rest_scratch_set [simp]: "same_rest s (scratch_set a k k1 ph s)"
  by (simp add: same_rest_def scratch_set_def)

lemma scratch_set_translate:
  assumes "scratch_path (mem s) c k3 k2 k1" "scratch_addr a k" "entry_phys ph = ph"
  shows "translate (mem (scratch_set a k k1 ph s)) c a = Some ph"
proof -
  have "scratch_path (mem (scratch_set a k k1 ph s)) c k3 k2 k1"
    by (rule scratch_path_cong [where m = "mem s"])
       (use assms(1) in \<open>auto simp: scratch_path_def scratch_set_def put_entry_upd\<close>)
  from scratch_translate [OF this assms(2)] show ?thesis
    using scratch_entry [OF assms(3)] by (simp add: scratch_set_def put_entry_upd)
qed

text \<open>The translations of the pages of a process.\<close>

definition same_pages :: "haddr \<Rightarrow> memory \<Rightarrow> memory \<Rightarrow> bool" where
  "same_pages r m m' \<longleftrightarrow> (\<forall>q. user_path 4 q \<longrightarrow> length q = 4 \<longrightarrow> walk m' r q = walk m r q)"

lemma same_walks_pages: "same_walks r m m' \<Longrightarrow> same_pages r m m'"
  by (simp add: same_walks_def same_pages_def)

lemma same_pages_trans: "same_pages r m m1 \<Longrightarrow> same_pages r m1 m2 \<Longrightarrow> same_pages r m m2"
  by (simp add: same_pages_def)

lemma space_put_same:
  assumes sp: "space c k3 k2 k1 r m"
    and e: "entry_is_present e = entry_is_present (m f i)" "entry_phys e = entry_phys (m f i)"
  shows "same_walks r m (put_entry f i e m)" "space c k3 k2 k1 r (put_entry f i e m)"
proof -
  note w = walk_same_entry [where m = m and f = f and i = i, OF e]
  show s: "same_walks r m (put_entry f i e m)" by (simp add: same_walks_def w del: walk.simps)
  show "space c k3 k2 k1 r (put_entry f i e m)"
    using sp same_walks_tables [OF s] by (simp add: space_def scratch_path_def w del: walk.simps)
qed

lemma table_of_space:
  assumes "space c k3 k2 k1 r m" "user_path 3 p" "walk m r p = Some f"
  shows "f \<notin> {k3, k2, k1}" "f = c \<Longrightarrow> p = []"
proof -
  have f: "f \<in> tables m r" using tablesI assms by blast
  then show "f \<notin> {k3, k2, k1}" using assms(1) by (auto simp: space_def)
  assume "f = c"
  then have "walk m r p = walk m r []" "user_path 3 []"
    using f assms(1,3) by (auto simp: space_def user_path_def)
  then show "p = []" using assms by (auto simp: space_def separate_def)
qed

lemma space_install:
  assumes sp: "space c k3 k2 k1 r m" and p: "user_path 3 (p @ [i])" "walk m r p = Some f"
    and e: "entry_is_present e" "entry_phys e = n" "\<not> entry_is_present (m f i)"
    and n: "n \<notin> tables m r" "n \<notin> {c, k3, k2, k1}"
  defines "m' \<equiv> (put_entry f i e m)(n := (\<lambda>_. 0))"
  shows "same_pages r m m'" "space c k3 k2 k1 r m'" "tables m' r = insert n (tables m r)"
    "walk m' r (p @ [i]) = Some n"
    "\<And>q. user_path 3 q \<Longrightarrow> walk m r q \<noteq> None \<Longrightarrow> walk m' r q = walk m r q"
proof -
  have sep: "separate m r" using sp by (simp add: space_def)
  note w = walk_install [OF sep p e n(1), folded m'_def]
  show "same_pages r m m'" using w p(1) by (auto simp: same_pages_def user_path_def)
  show new: "walk m' r (p @ [i]) = Some n" using w p(1) by (simp add: user_path_mono)
  have w3: "walk m' r q = (if q = p @ [i] then Some n else walk m r q)" if "user_path 3 q" for q
    using w [OF user_path_mono [OF that]] by simp
  have none: "walk m r (p @ [i]) = None" using p(2) e(3) by (simp add: walk_append)
  show "walk m' r q = walk m r q" if "user_path 3 q" "walk m r q \<noteq> None" for q
    using w3 [OF that(1)] that(2) none by auto
  show t: "tables m' r = insert n (tables m r)"
  proof (intro equalityI subsetI)
    show "x \<in> insert n (tables m r)" if "x \<in> tables m' r" for x
      using that w3 by (auto simp: tables_def split: if_splits)
    show "x \<in> tables m' r" if "x \<in> insert n (tables m r)" for x
    proof (cases "x = n")
      case False
      then obtain q where q: "user_path 3 q" "walk m r q = Some x"
        using \<open>x \<in> insert n (tables m r)\<close> by (auto simp: tables_def)
      then have "walk m' r q = Some x" using w3 [OF q(1)] none by auto
      then show ?thesis using q(1) by (rule tablesI [rotated])
    qed (use tablesI [OF p(1) new] in simp)
  qed
  have "separate m' r"
    unfolding separate_def
  proof (intro allI impI)
    fix q1 q2 g
    assume q: "user_path 3 q1" "user_path 3 q2" "walk m' r q1 = Some g" "walk m' r q2 = Some g"
    then show "q1 = q2"
      using w3 [OF q(1)] w3 [OF q(2)] sep n(1) tablesI [OF q(1)] tablesI [OF q(2)]
      by (auto simp: separate_def split: if_splits)
  qed
  moreover have "scratch_path m' c k3 k2 k1"
  proof (rule scratch_path_cong [where m = m])
    have p3: "user_path 3 p" using user_path_snoc [of 2 p i] p(1) by (simp add: user_path_mono numeral_3_eq_3)
    note f = table_of_space [OF sp p3 p(2)]
    show "m' c j = m c j" if "256 \<le> j" for j
      using that f n p(1) by (auto simp: m'_def put_entry_upd user_path_def)
    show "m' k3 = m k3" "m' k2 = m k2" using f n by (auto simp: m'_def put_entry_upd)
  qed (use sp in \<open>simp add: space_def\<close>)
  ultimately show "space c k3 k2 k1 r m'"
    using sp t n by (auto simp: space_def)
qed

section \<open>Frames still to come\<close>

text \<open>The next \<open>k\<close> frames of the physical memory manager are distinct frames below \<open>2 ^ 52\<close>, and
  none of them is a table of the space or of the scratch addresses, or in use otherwise (\<open>X\<close>).\<close>

definition frames_ahead ::
  "haddr \<Rightarrow> haddr \<Rightarrow> haddr \<Rightarrow> haddr \<Rightarrow> haddr set \<Rightarrow> haddr \<Rightarrow> memory \<Rightarrow> nat \<Rightarrow> pmm_state \<Rightarrow> bool"
where
  "frames_ahead c k3 k2 k1 X r m k p \<longleftrightarrow>
     (let as = fst (alloc_frames k p)
      in distinct as \<and>
         (\<forall>a\<in>set as. a \<noteq> 0 \<and> entry_phys a = a \<and> a \<notin> tables m r \<and> a \<notin> X \<and>
            a \<notin> {c, k3, k2, k1}))"

lemma frames_ahead_Suc:
  assumes "frames_ahead c k3 k2 k1 X r m (Suc k) p" "pmm_alloc_frame p = (a, p1)"
  shows "a \<noteq> 0" "entry_phys a = a" "a \<notin> tables m r" "a \<notin> {c, k3, k2, k1}"
    "a \<notin> X" "frames_ahead c k3 k2 k1 (insert a X) r m k p1"
    "tables m' r = insert a (tables m r) \<Longrightarrow> frames_ahead c k3 k2 k1 X r m' k p1"
  using assms by (auto simp: frames_ahead_def Let_def split: prod.splits)

lemma alloc_frames_take: "fst (alloc_frames k p) = take k (fst (alloc_frames (k + j) p))"
proof (induction k arbitrary: p)
  case (Suc k)
  show ?case using Suc.IH [of "snd (pmm_alloc_frame p)"] by (auto simp: Let_def split: prod.splits)
qed simp

lemma frames_ahead_less:
  "frames_ahead c k3 k2 k1 X r m n p \<Longrightarrow> k \<le> n \<Longrightarrow> frames_ahead c k3 k2 k1 X r m k p"
  using alloc_frames_take [of k p "n - k"]
  by (auto simp: frames_ahead_def Let_def dest: in_set_takeD)

lemma frames_ahead_cong:
  "tables m' r = tables m r \<Longrightarrow> frames_ahead c k3 k2 k1 X r m' k p = frames_ahead c k3 k2 k1 X r m k p"
  by (simp add: frames_ahead_def)

section \<open>Entries of tables\<close>

lemma table_flags_present:
  "entry_is_present (normalize_table_flags virt fl)"
  "normalize_table_flags virt fl AND ENTRY_PHYS_MASK = 0"
  by (auto simp: normalize_table_flags_def Let_def entry_is_present_def)

lemma clear_nx_same [simp]:
  "entry_is_present (clear_nx e fl) = entry_is_present e" "entry_phys (clear_nx e fl) = entry_phys e"
  by (auto simp: clear_nx_def entry_is_present_def entry_phys_def and.assoc)

lemma set_user_access_same [simp]:
  "entry_is_present (set_user_access e virt fl) = entry_is_present e"
  "entry_phys (set_user_access e virt fl) = entry_phys e"
  by (auto simp: set_user_access_def entry_is_present_def entry_phys_def bit.conj_disj_distrib2)

lemma user_path_butlast: "user_path 3 (p @ [i]) \<Longrightarrow> user_path 3 p"
  by (cases p) (auto simp: user_path_def)

lemma put_scratch:
  assumes sp: "space c k3 k2 k1 r m" and p: "user_path 3 p" "walk m r p = Some f" "p = [] \<longrightarrow> i < 256"
  shows "scratch_path (put_entry f i e m) c k3 k2 k1"
    "scratch_addr a k \<Longrightarrow> translate (put_entry f i e m) c a = translate m c a"
proof -
  note f = table_of_space [OF sp p(1,2)]
  have m: "scratch_path m c k3 k2 k1" using sp by (simp add: space_def)
  show s: "scratch_path (put_entry f i e m) c k3 k2 k1"
    by (rule scratch_path_cong [OF m]) (use f p(3) in \<open>auto simp: put_entry_upd\<close>)
  show "scratch_addr a k \<Longrightarrow> translate (put_entry f i e m) c a = translate m c a"
    using scratch_translate [OF s, of a k] scratch_translate [OF m, of a k] f(1)
    by (auto simp: put_entry_upd)
qed

section \<open>Access along a path\<close>

lemma flag_bits:
  "(x :: u64) AND PAGE_USER_ACCESIBLE \<noteq> 0 \<longleftrightarrow> bit x 2" "x AND PAGE_EXECUTABLE \<noteq> 0 \<longleftrightarrow> bit x 9"
  "x AND PAGE_NO_EXECUTE \<noteq> 0 \<longleftrightarrow> bit x 63"
  using and_exp_eq_0_iff_not_bit [of x 2] and_exp_eq_0_iff_not_bit [of x 9]
    and_exp_eq_0_iff_not_bit [of x 63] by simp_all

text \<open>The entry lets through what the flags of a request ask for.\<close>

definition opens :: "u64 \<Rightarrow> u64 \<Rightarrow> bool" where
  "opens fl e \<longleftrightarrow>
     (fl AND PAGE_USER_ACCESIBLE \<noteq> 0 \<longrightarrow> e AND PAGE_USER_ACCESIBLE \<noteq> 0) \<and>
     (fl AND PAGE_EXECUTABLE \<noteq> 0 \<longrightarrow> e AND PAGE_NO_EXECUTE = 0)"

lemma opens_bits: "opens fl e \<longleftrightarrow> (bit fl 2 \<longrightarrow> bit e 2) \<and> (bit fl 9 \<longrightarrow> \<not> bit e 63)"
  using flag_bits [of e] flag_bits [of fl] by (auto simp: opens_def)

lemma opens_present: "\<not> is_higher_half virt \<Longrightarrow> opens fl (set_user_access (clear_nx e fl) virt fl)"
  using flag_bits [of e] flag_bits [of fl] flag_bits [of "clear_nx e fl"]
  by (auto simp: opens_bits set_user_access_def clear_nx_def bit_simps)

lemma opens_table_flags:
  assumes "\<not> is_higher_half virt" "entry_phys a = a"
  shows "opens fl (a OR normalize_table_flags virt fl)"
proof -
  have "\<not> bit (entry_phys a) 63" by (simp add: entry_phys_def bit_and_iff)
  then have "\<not> bit a 63" using assms(2) by simp
  then show ?thesis using assms(1) flag_bits [of fl]
    by (auto simp: opens_bits normalize_table_flags_def Let_def bit_simps)
qed

fun entries :: "memory \<Rightarrow> haddr \<Rightarrow> nat list \<Rightarrow> u64 list" where
  "entries m f [] = []"
| "entries m f (i # is) =
     m f i # (if entry_is_present (m f i) then entries m (entry_phys (m f i)) is else [])"

lemma entries_snoc: "walk m r p = Some f \<Longrightarrow> entries m r (p @ [i]) = entries m r p @ [m f i]"
  by (induction p arbitrary: r) (auto split: if_splits)

text \<open>No table is lost, and what the entries of the tables let through they still let through.\<close>

definition grows :: "u64 \<Rightarrow> haddr \<Rightarrow> memory \<Rightarrow> memory \<Rightarrow> bool" where
  "grows fl r m m' \<longleftrightarrow>
     (\<forall>g\<in>tables m r. \<forall>j. opens fl (m g j) \<longrightarrow> opens fl (m' g j)) \<and>
     (\<forall>q. user_path 3 q \<longrightarrow> walk m r q \<noteq> None \<longrightarrow> walk m' r q = walk m r q)"

lemma grows_trans: "grows fl r m m1 \<Longrightarrow> grows fl r m1 m2 \<Longrightarrow> grows fl r m m2"
proof -
  assume g: "grows fl r m m1" "grows fl r m1 m2"
  have "tables m r \<subseteq> tables m1 r" using g(1) by (auto simp: grows_def tables_def)
  then show ?thesis using g by (auto simp: grows_def)
qed

lemma grows_entry:
  assumes "opens fl (m' f i)" "\<forall>g\<in>tables m r. \<forall>j. (g, j) \<noteq> (f, i) \<longrightarrow> m' g j = m g j"
    and "\<And>q. user_path 3 q \<Longrightarrow> walk m r q \<noteq> None \<Longrightarrow> walk m' r q = walk m r q"
  shows "grows fl r m m'"
proof -
  have "opens fl (m' g j)" if "g \<in> tables m r" "opens fl (m g j)" for g j
    using that assms(1,2) by (cases "(g, j) = (f, i)") auto
  then show ?thesis using assms(3) by (simp add: grows_def)
qed

lemma entries_grows:
  assumes g: "grows fl r m m'"
  shows "user_path 4 p \<Longrightarrow> walk m r p \<noteq> None \<Longrightarrow> \<forall>e\<in>set (entries m r p). opens fl e \<Longrightarrow>
    \<forall>e\<in>set (entries m' r p). opens fl e"
proof (induction p rule: rev_induct)
  case (snoc i p)
  have p: "user_path 3 p" using snoc.prems(1) user_path_snoc [of 3] by simp
  obtain f where f: "walk m r p = Some f" using snoc.prems(2) by (auto simp: walk_append split: option.splits)
  then have "walk m' r p = Some f" using g p by (simp add: grows_def)
  then show ?case
    using snoc.IH [OF user_path_mono [OF p]] snoc.prems(3) f g tablesI [OF p f]
    by (simp add: entries_snoc grows_def)
qed simp

section \<open>One step of the walk\<close>

text \<open>An entry that is present: the child is mapped, the entry keeps its table.\<close>

lemma child_present:
  assumes sp: "space c k3 k2 k1 r (mem s)" "cr3 s = c"
    and p: "user_path 3 (p @ [i])" "walk (mem s) r p = Some f" "entry_is_present (mem s f i)"
    and a: "scratch_addr a k" "translate (mem s) c a = Some f" "scratch_addr a' k'"
  shows "\<exists>s'. walk_to_child_table a i a' virt fl create s = Some (a', s') \<and>
    space c k3 k2 k1 r (mem s') \<and> same_walks r (mem s) (mem s') \<and> same_rest s s' \<and>
    pmm s' = pmm s \<and> invlpgs s' = a' # a' # invlpgs s \<and>
    translate (mem s') c a' = Some (entry_phys (mem s f i)) \<and>
    walk (mem s') r (p @ [i]) = Some (entry_phys (mem s f i)) \<and>
    mem s' f i = set_user_access (clear_nx (mem s f i) fl) virt fl \<and>
    (\<forall>g\<in>tables (mem s) r. \<forall>j. (g, j) \<noteq> (f, i) \<longrightarrow> mem s' g j = mem s g j)"
proof -
  let ?e = "mem s f i"
  let ?e' = "set_user_access (clear_nx ?e fl) virt fl"
  note p3 = user_path_butlast [OF p(1)]
  have i: "p = [] \<longrightarrow> i < 256" using p(1) by (auto simp: user_path_def)
  note put = put_scratch [OF sp(1) p3 p(2) i]
  define s2 where "s2 = s\<lparr>mem := put_entry f i ?e' (mem s)\<rparr>"
  have s2: "same_walks r (mem s) (mem s2)" "space c k3 k2 k1 r (mem s2)"
    using space_put_same [OF sp(1), of ?e' f i] by (simp_all add: s2_def)
  have path2: "scratch_path (mem s2) (cr3 s2) k3 k2 k1"
    using put(1) sp(2) by (simp add: s2_def)
  define s' where "s' = scratch_set a' k' k1 (entry_phys ?e) s2"
  have upd: "put_entry f i y (put_entry f i x m) = put_entry f i y m" for x y m
    by (simp add: put_entry_def)
  have "walk_to_child_table a i a' virt fl create s = Some (a', s')"
    using p(3) a(2) sp(2) put(2) [OF a(1)] scratch_map_table_eq [OF path2 a(3)]
    by (simp add: walk_to_child_table_def table_read_def table_write_def upd put_entry_def
        s'_def s2_def)
  moreover have sp': "space c k3 k2 k1 r (mem s')" and w': "same_walks r (mem s2) (mem s')"
    using space_scratch_set [OF s2(2)] by (simp_all add: s'_def)
  moreover have w: "same_walks r (mem s) (mem s')" using s2(1) w' by (simp add: same_walks_def)
  moreover have "same_rest s s'" "pmm s' = pmm s" "invlpgs s' = a' # a' # invlpgs s"
    by (simp_all add: same_rest_def s'_def s2_def scratch_set_def)
  moreover have "walk (mem s) r (p @ [i]) = Some (entry_phys ?e)" using p by (simp add: walk_append)
  then have "walk (mem s') r (p @ [i]) = Some (entry_phys ?e)"
    using w user_path_mono [OF p(1)] by (simp add: same_walks_def)
  moreover have "translate (mem s') c a' = Some (entry_phys ?e)"
    using scratch_set_translate [OF _ a(3)] path2 sp(2) by (simp add: s'_def s2_def)
  moreover have "mem s' f i = ?e'"
    "\<forall>g\<in>tables (mem s) r. \<forall>j. (g, j) \<noteq> (f, i) \<longrightarrow> mem s' g j = mem s g j"
    using sp(1) table_of_space [OF sp(1) p3 p(2)]
    by (auto simp: s'_def s2_def scratch_set_def put_entry_upd space_def)
  ultimately show ?thesis by auto
qed

text \<open>An entry that is not present: a frame is taken, zeroed and installed.\<close>

lemma child_absent:
  assumes sp: "space c k3 k2 k1 r (mem s)" "cr3 s = c"
    and p: "user_path 3 (p @ [i])" "walk (mem s) r p = Some f" "\<not> entry_is_present (mem s f i)"
    and a: "scratch_addr a k" "translate (mem s) c a = Some f" "scratch_addr a' k'"
    and fr: "frames_ahead c k3 k2 k1 X r (mem s) (Suc j) (pmm s)"
  shows "\<exists>s' n. walk_to_child_table a i a' virt fl True s = Some (a', s') \<and>
    space c k3 k2 k1 r (mem s') \<and> same_pages r (mem s) (mem s') \<and> same_rest s s' \<and>
    frames_ahead c k3 k2 k1 X r (mem s') j (pmm s') \<and>
    translate (mem s') c a' = Some n \<and> walk (mem s') r (p @ [i]) = Some n \<and>
    (\<forall>q. user_path 3 q \<longrightarrow> walk (mem s) r q \<noteq> None \<longrightarrow> walk (mem s') r q = walk (mem s) r q) \<and>
    entry_phys n = n \<and> mem s' f i = n OR normalize_table_flags virt fl \<and>
    (\<forall>g\<in>tables (mem s) r. \<forall>j. (g, j) \<noteq> (f, i) \<longrightarrow> mem s' g j = mem s g j)"
proof -
  obtain n q where al: "pmm_alloc_frame (pmm s) = (n, q)" by (metis surj_pair)
  note n = frames_ahead_Suc [OF fr al]
  note p3 = user_path_butlast [OF p(1)]
  have i: "p = [] \<longrightarrow> i < 256" using p(1) by (auto simp: user_path_def)
  note put = put_scratch [OF sp(1) p3 p(2) i]
  let ?e = "n OR normalize_table_flags virt fl"
  have e: "entry_is_present ?e" "entry_phys ?e = n"
    using phys_or_flags [OF n(2)] table_flags_present by (auto simp: present_bit bit_or_iff)
  define s2 where "s2 = s\<lparr>pmm := q, mem := put_entry f i ?e (mem s)\<rparr>"
  have path2: "scratch_path (mem s2) (cr3 s2) k3 k2 k1"
    using put(1) sp(2) by (simp add: s2_def)
  define m' where "m' = (put_entry f i ?e (mem s))(n := (\<lambda>_. 0))"
  note inst = space_install [OF sp(1) p(1,2) e p(3) n(3,4), folded m'_def]
  define s' where "s' = scratch_set a' k' k1 n (s2\<lparr>mem := m'\<rparr>)"
  have "scratch_map_table a' n s2 = Some (a', scratch_set a' k' k1 n s2)"
    by (rule scratch_map_table_eq [OF path2 a(3)])
  moreover have "table_fill a' (\<lambda>_. 0) (scratch_set a' k' k1 n s2) = Some s'"
  proof -
    have "translate (mem (scratch_set a' k' k1 n s2)) c a' = Some n"
      using scratch_set_translate [OF _ a(3) n(2)] path2 sp(2) by (simp add: s2_def)
    moreover have "(put_entry k1 k' x y)(n := z) = put_entry k1 k' x (y(n := z))" for x y z
      using n(4) by (auto simp: put_entry_def fun_eq_iff)
    ultimately show ?thesis
      using sp(2) by (simp add: table_fill_def s'_def s2_def m'_def scratch_set_def)
  qed
  ultimately have "walk_to_child_table a i a' virt fl True s = Some (a', s')"
    using p(3) a(2,3) sp(2) al n(1)
    by (auto simp: walk_to_child_table_def table_read_def table_write_def alloc_frame_def
        scratch_addr_def s2_def [symmetric] intro!: exI)
  moreover have sp': "space c k3 k2 k1 r (mem s')" and w': "same_walks r m' (mem s')"
    using space_scratch_set [of c k3 k2 k1 r "s2\<lparr>mem := m'\<rparr>" a' k' n] inst(2)
    by (simp_all add: s'_def)
  moreover have "same_pages r (mem s) (mem s')"
    by (rule same_pages_trans [OF inst(1) same_walks_pages [OF w']])
  moreover have "same_rest s s'" by (simp add: same_rest_def s'_def s2_def scratch_set_def)
  moreover have "frames_ahead c k3 k2 k1 X r (mem s') j (pmm s')"
    using n(7) [of "mem s'"] inst(3) same_walks_tables [OF w'] by (simp add: s'_def s2_def scratch_set_def)
  moreover have "walk (mem s') r (p @ [i]) = Some n"
    using w' inst(4) user_path_mono [OF p(1)] by (simp add: same_walks_def)
  moreover have "translate (mem s') c a' = Some n"
    using scratch_set_translate [OF _ a(3) n(2), of "s2\<lparr>mem := m'\<rparr>" c k3 k2 k1] inst(2)
    by (simp add: s'_def space_def)
  moreover have "\<forall>q. user_path 3 q \<longrightarrow> walk (mem s) r q \<noteq> None \<longrightarrow> walk (mem s') r q = walk (mem s) r q"
    using inst(5) w' by (simp add: same_walks_def user_path_mono)
  moreover have "mem s' f i = ?e"
    "\<forall>g\<in>tables (mem s) r. \<forall>j. (g, j) \<noteq> (f, i) \<longrightarrow> mem s' g j = mem s g j"
    using sp(1) table_of_space [OF sp(1) p3 p(2)] n(3) tablesI [OF p3 p(2)]
    by (auto simp: s'_def s2_def m'_def scratch_set_def put_entry_upd space_def)
  ultimately show ?thesis using n(2) by blast
qed

text \<open>The state between two steps of a walk for a request with the flags \<open>fl\<close>: the scratch address
  \<open>a\<close> shows the table of the path \<open>p\<close>, all entries on the way let the request through, and \<open>j\<close>
  frames are still to come.\<close>

definition walk_at ::
  "haddr \<Rightarrow> haddr \<Rightarrow> haddr \<Rightarrow> haddr \<Rightarrow> haddr set \<Rightarrow> haddr \<Rightarrow> u64 \<Rightarrow> nat \<Rightarrow> nat list \<Rightarrow> haddr \<Rightarrow> machine \<Rightarrow> bool"
where
  "walk_at c k3 k2 k1 X r fl j p a s \<longleftrightarrow>
     space c k3 k2 k1 r (mem s) \<and> cr3 s = c \<and> frames_ahead c k3 k2 k1 X r (mem s) j (pmm s) \<and>
     walk (mem s) r p \<noteq> None \<and> translate (mem s) c a = walk (mem s) r p \<and>
     (\<forall>e\<in>set (entries (mem s) r p). opens fl e)"

lemma walk_step:
  assumes at: "walk_at c k3 k2 k1 X r fl (Suc j) p a s"
    and p: "user_path 3 (p @ [i])" and a: "scratch_addr a k" "scratch_addr a' k'"
    and low: "\<not> is_higher_half virt"
  shows "\<exists>s'. walk_to_child_table a i a' virt fl True s = Some (a', s') \<and>
    walk_at c k3 k2 k1 X r fl j (p @ [i]) a' s' \<and> same_pages r (mem s) (mem s') \<and> same_rest s s' \<and>
    grows fl r (mem s) (mem s')"
proof -
  have sp: "space c k3 k2 k1 r (mem s)" "cr3 s = c"
    and fr: "frames_ahead c k3 k2 k1 X r (mem s) (Suc j) (pmm s)"
    and op: "\<forall>e\<in>set (entries (mem s) r p). opens fl e"
    using at by (auto simp: walk_at_def)
  note p3 = user_path_butlast [OF p]
  obtain f where f: "walk (mem s) r p = Some f" "translate (mem s) c a = Some f"
    using at by (auto simp: walk_at_def)
  have open': "\<forall>e\<in>set (entries (mem s') r (p @ [i])). opens fl e"
    if g: "grows fl r (mem s) (mem s')" and fi: "opens fl (mem s' f i)" for s'
  proof -
    have "\<forall>e\<in>set (entries (mem s') r p). opens fl e"
      using entries_grows [OF g user_path_mono [OF p3]] f(1) op by simp
    moreover have "walk (mem s') r p = Some f" using g p3 f(1) by (simp add: grows_def)
    ultimately show ?thesis using fi by (simp add: entries_snoc)
  qed
  show ?thesis
  proof (cases "entry_is_present (mem s f i)")
    case True
    obtain s' where s': "walk_to_child_table a i a' virt fl True s = Some (a', s')"
      "space c k3 k2 k1 r (mem s')" "same_walks r (mem s) (mem s')" "same_rest s s'" "pmm s' = pmm s"
      "translate (mem s') c a' = Some (entry_phys (mem s f i))"
      "walk (mem s') r (p @ [i]) = Some (entry_phys (mem s f i))"
      "mem s' f i = set_user_access (clear_nx (mem s f i) fl) virt fl"
      "\<forall>g\<in>tables (mem s) r. \<forall>j. (g, j) \<noteq> (f, i) \<longrightarrow> mem s' g j = mem s g j"
      using child_present [OF sp p f(1) True a(1) f(2) a(2), of virt fl True] by blast
    have fr': "frames_ahead c k3 k2 k1 X r (mem s') j (pmm s')"
      using frames_ahead_less [OF fr] frames_ahead_cong [of "mem s'" r "mem s"] s'(5)
        same_walks_tables [OF s'(3)] by simp
    have fi: "opens fl (mem s' f i)" using s'(8) opens_present [OF low] by simp
    have g: "grows fl r (mem s) (mem s')"
      using grows_entry [OF fi s'(9)] s'(3) by (simp add: same_walks_def user_path_mono)
    from open' [OF this fi] have "walk_at c k3 k2 k1 X r fl j (p @ [i]) a' s'"
      using s' fr' sp(2) by (simp add: walk_at_def same_rest_def)
    then show ?thesis using s' g same_walks_pages by blast
  next
    case False
    obtain s' n where s': "walk_to_child_table a i a' virt fl True s = Some (a', s')"
      "space c k3 k2 k1 r (mem s')" "same_pages r (mem s) (mem s')" "same_rest s s'"
      "frames_ahead c k3 k2 k1 X r (mem s') j (pmm s')"
      "translate (mem s') c a' = Some n" "walk (mem s') r (p @ [i]) = Some n"
      "\<forall>q. user_path 3 q \<longrightarrow> walk (mem s) r q \<noteq> None \<longrightarrow> walk (mem s') r q = walk (mem s) r q"
      "entry_phys n = n"
      "mem s' f i = n OR normalize_table_flags virt fl"
      "\<forall>g\<in>tables (mem s) r. \<forall>j. (g, j) \<noteq> (f, i) \<longrightarrow> mem s' g j = mem s g j"
      using child_absent [OF sp p f(1) False a(1) f(2) a(2) fr, of virt fl] by blast
    have fi: "opens fl (mem s' f i)" using s'(9,10) opens_table_flags [OF low] by simp
    have g: "grows fl r (mem s) (mem s')" using grows_entry [OF fi s'(11)] s'(8) by simp
    from open' [OF this fi] have "walk_at c k3 k2 k1 X r fl j (p @ [i]) a' s'"
      using s' sp(2) by (simp add: walk_at_def same_rest_def)
    then show ?thesis using s' g by blast
  qed
qed

section \<open>A page of a process\<close>

lemma vpath_user:
  assumes "\<not> is_higher_half virt"
  shows "user_path 4 (vpath virt)" "user_path 3 [get_pml4_idx virt]"
    "user_path 3 [get_pml4_idx virt, get_pml3_idx virt]"
    "user_path 3 [get_pml4_idx virt, get_pml3_idx virt, get_pd_idx virt]"
    "get_pml4_idx virt \<noteq> 510"
  using assms by (auto simp: user_path_def vpath_def is_higher_half_def)

lemma walk_to_pt:
  assumes sp: "space c k3 k2 k1 (pml4_phys (vmms s v)) (mem s)" "cr3 s = c"
    and fr: "frames_ahead c k3 k2 k1 X (pml4_phys (vmms s v)) (mem s) (j + 3) (pmm s)"
    and low: "\<not> is_higher_half virt"
  shows "\<exists>s'. walk_non_kernel_to_pt v virt fl True s = Some (VIRT_SCRATCH_L1, s') \<and>
    walk_at c k3 k2 k1 X (pml4_phys (vmms s v)) fl j
      [get_pml4_idx virt, get_pml3_idx virt, get_pd_idx virt] VIRT_SCRATCH_L1 s' \<and>
    same_pages (pml4_phys (vmms s v)) (mem s) (mem s') \<and> same_rest s s' \<and>
    grows fl (pml4_phys (vmms s v)) (mem s) (mem s')"
proof -
  let ?r = "pml4_phys (vmms s v)"
  let ?s1 = "scratch_set VIRT_SCRATCH_L4 2 k1 ?r s"
  note u = vpath_user [OF low]
  have path: "scratch_path (mem s) (cr3 s) k3 k2 k1" and r: "entry_phys ?r = ?r"
    using sp by (auto simp: space_def)
  note s1 = space_scratch_set [OF sp(1), of VIRT_SCRATCH_L4 2 ?r]
  have at: "walk_at c k3 k2 k1 X ?r fl (Suc (Suc (Suc j))) [] VIRT_SCRATCH_L4 ?s1"
    using s1 sp(2) fr frames_ahead_cong [OF same_walks_tables [OF s1(1), THEN conjunct2]]
      scratch_set_translate [OF path [unfolded sp(2)] scratch_addrs(3) r]
    by (simp add: walk_at_def numeral_3_eq_3) (simp add: scratch_set_def)
  obtain s2 where s2: "walk_to_child_table VIRT_SCRATCH_L4 (get_pml4_idx virt) VIRT_SCRATCH_L3 virt fl
      True ?s1 = Some (VIRT_SCRATCH_L3, s2)"
    "walk_at c k3 k2 k1 X ?r fl (Suc (Suc j)) [get_pml4_idx virt] VIRT_SCRATCH_L3 s2"
    "same_pages ?r (mem ?s1) (mem s2)" "same_rest ?s1 s2" "grows fl ?r (mem ?s1) (mem s2)"
    using walk_step [OF at _ scratch_addrs(3) scratch_addrs(4) low, of "get_pml4_idx virt"] u(2)
    by auto
  obtain s3 where s3: "walk_to_child_table VIRT_SCRATCH_L3 (get_pml3_idx virt) VIRT_SCRATCH_L2 virt fl
      True s2 = Some (VIRT_SCRATCH_L2, s3)"
    "walk_at c k3 k2 k1 X ?r fl (Suc j) [get_pml4_idx virt, get_pml3_idx virt] VIRT_SCRATCH_L2 s3"
    "same_pages ?r (mem s2) (mem s3)" "same_rest s2 s3" "grows fl ?r (mem s2) (mem s3)"
    using walk_step [OF s2(2) _ scratch_addrs(4) scratch_addrs(5) low, of "get_pml3_idx virt"] u(3)
    by auto
  obtain s4 where s4: "walk_to_child_table VIRT_SCRATCH_L2 (get_pd_idx virt) VIRT_SCRATCH_L1 virt fl
      True s3 = Some (VIRT_SCRATCH_L1, s4)"
    "walk_at c k3 k2 k1 X ?r fl j [get_pml4_idx virt, get_pml3_idx virt, get_pd_idx virt]
      VIRT_SCRATCH_L1 s4"
    "same_pages ?r (mem s3) (mem s4)" "same_rest s3 s4" "grows fl ?r (mem s3) (mem s4)"
    using walk_step [OF s3(2) _ scratch_addrs(5) scratch_addrs(6) low, of "get_pd_idx virt"] u(4)
    by auto
  have "same_pages ?r (mem s) (mem s4)"
    by (rule same_pages_trans [OF same_pages_trans [OF same_pages_trans [OF
          same_walks_pages [OF s1(1)] s2(3)] s3(3)] s4(3)])
  moreover have "same_rest s s4"
    by (rule same_rest_trans [OF same_rest_trans [OF same_rest_trans [OF
          same_rest_scratch_set s2(4)] s3(4)] s4(4)])
  moreover have "walk_non_kernel_to_pt v virt fl True s = Some (VIRT_SCRATCH_L1, s4)"
    using u(5) s2(1) s3(1) s4(1) scratch_map_table_eq [OF path scratch_addrs(3)]
    by (simp add: walk_non_kernel_to_pt_def)
  moreover have "grows fl ?r (mem s) (mem s4)"
  proof -
    have "grows fl ?r (mem s) (mem ?s1)"
      using sp(1) s1(1)
      by (auto simp: grows_def same_walks_def user_path_mono scratch_set_def put_entry_upd space_def)
    from grows_trans [OF grows_trans [OF grows_trans [OF this s2(5)] s3(5)] s4(5)]
    show ?thesis .
  qed
  ultimately show ?thesis using s4(2) by blast
qed

lemma space_leaf:
  fixes i :: nat and e :: u64
  assumes sp: "space c k3 k2 k1 r m" and p: "user_path 3 p" "walk m r p = Some f" "length p = 3"
  defines "m' \<equiv> put_entry f i e m"
  shows "space c k3 k2 k1 r m'" "tables m' r = tables m r"
    "user_path 4 q \<Longrightarrow> walk m' r q =
       (if q = p @ [i] then (if entry_is_present e then Some (entry_phys e) else None) else walk m r q)"
    "translate m' c VIRT_SCRATCH_L1 = translate m c VIRT_SCRATCH_L1"
proof -
  have sep: "separate m r" using sp by (simp add: space_def)
  have np: "\<not> prefix (p @ [i]) q" if "user_path 4 q" "q \<noteq> p @ [i]" for q
    using that p(3) by (auto simp: user_path_def prefix_def)
  have w: "walk m' r q = walk m r q" if "user_path 4 q" "q \<noteq> p @ [i]" for q
    unfolding m'_def by (rule walk_put [OF sep p(1,2) that(1) np [OF that]])
  have w3: "walk m' r q = walk m r q" if "user_path 3 q" for q
  proof (rule w)
    show "user_path 4 q" "q \<noteq> p @ [i]" using that p(3) by (auto simp: user_path_def)
  qed
  have t: "separate m' r = separate m r" "tables m' r = tables m r"
    using w3 by (auto intro!: separate_cong tables_cong)
  have i: "p = [] \<longrightarrow> i < 256" using p(3) by auto
  note put = put_scratch [OF sp p(1,2) i, where e = e, folded m'_def]
  show "space c k3 k2 k1 r m'" using sp t put(1) by (simp add: space_def)
  show "tables m' r = tables m r" by (rule t(2))
  show "translate m' c VIRT_SCRATCH_L1 = translate m c VIRT_SCRATCH_L1"
    by (rule put(2)) (rule scratch_addrs)
  have "walk m' r (p @ [i]) = (if entry_is_present e then Some (entry_phys e) else None)"
    using w3 [OF p(1)] p(2) by (simp add: walk_append m'_def put_entry_upd)
  then show "user_path 4 q \<Longrightarrow> walk m' r q =
     (if q = p @ [i] then (if entry_is_present e then Some (entry_phys e) else None) else walk m r q)"
    using w by auto
qed

text \<open>What a request with the flags \<open>fl\<close> for the page of \<open>virt\<close> leaves in the table of the last
  level, and the translations after it.\<close>

definition mapped_page :: "haddr \<Rightarrow> memory \<Rightarrow> memory \<Rightarrow> haddr \<Rightarrow> haddr \<Rightarrow> u64 \<Rightarrow> bool" where
  "mapped_page r m m' virt phys fl \<longleftrightarrow>
     walk m' r (vpath virt) = Some phys \<and>
     (\<forall>q. user_path 4 q \<longrightarrow> length q = 4 \<longrightarrow> q \<noteq> vpath virt \<longrightarrow> walk m' r q = walk m r q) \<and>
     (\<forall>e\<in>set (entries m' r (vpath virt)). opens fl e) \<and>
     last (entries m' r (vpath virt)) = phys OR normalize_leaf_flags virt fl"

lemma leaf_flags_low:
  assumes "\<not> is_higher_half virt" "fl AND ENTRY_PHYS_MASK = 0" "entry_phys a = a"
  shows "normalize_leaf_flags virt fl AND ENTRY_PHYS_MASK = 0"
    "bit (normalize_leaf_flags virt fl) 0 = bit fl 0"
    "opens fl (a OR normalize_leaf_flags virt fl)"
proof -
  show "normalize_leaf_flags virt fl AND ENTRY_PHYS_MASK = 0"
    using assms(1,2) by (auto simp: normalize_leaf_flags_def Let_def ac_simps)
  show "bit (normalize_leaf_flags virt fl) 0 = bit fl 0"
    using assms(1) by (auto simp: normalize_leaf_flags_def Let_def bit_simps)
  have "\<not> bit (entry_phys a) 63" by (simp add: entry_phys_def bit_and_iff)
  then have "\<not> bit a 63" using assms(3) by simp
  then show "opens fl (a OR normalize_leaf_flags virt fl)"
    using assms(1) flag_bits [of fl]
    by (auto simp: opens_bits normalize_leaf_flags_def Let_def bit_simps)
qed

lemma map_user_page:
  assumes sp: "space c k3 k2 k1 (pml4_phys (vmms s v)) (mem s)" "cr3 s = c"
    and fr: "frames_ahead c k3 k2 k1 X (pml4_phys (vmms s v)) (mem s) (j + 3) (pmm s)"
    and v: "v \<noteq> kernel_vmm s" and low: "\<not> is_higher_half virt"
    and ph: "entry_phys phys = phys" and fl: "fl AND ENTRY_PHYS_MASK = 0" "bit fl 0"
  shows "\<exists>s'. map_at_paddr_internal v virt phys fl s = Some (virt AND MAPPING_STRUCTURE_MASK, s') \<and>
    space c k3 k2 k1 (pml4_phys (vmms s v)) (mem s') \<and> same_rest s s' \<and>
    frames_ahead c k3 k2 k1 X (pml4_phys (vmms s v)) (mem s') j (pmm s') \<and>
    mapped_page (pml4_phys (vmms s v)) (mem s) (mem s') virt phys fl \<and>
    grows fl (pml4_phys (vmms s v)) (mem s) (mem s')"
proof -
  let ?r = "pml4_phys (vmms s v)"
  let ?p = "[get_pml4_idx virt, get_pml3_idx virt, get_pd_idx virt]"
  let ?e = "phys OR normalize_leaf_flags virt fl"
  note u = vpath_user [OF low]
  note lf = leaf_flags_low [OF low fl(1) ph]
  have e: "entry_is_present ?e" "entry_phys ?e = phys"
    using lf fl(2) phys_or_flags [OF ph] by (auto simp: present_bit bit_or_iff)
  have vp: "vpath virt = ?p @ [get_pt_idx virt]" by (simp add: vpath_def)
  obtain s1 where s1: "walk_non_kernel_to_pt v virt fl True s = Some (VIRT_SCRATCH_L1, s1)"
    and at: "walk_at c k3 k2 k1 X ?r fl j ?p VIRT_SCRATCH_L1 s1"
    and pg: "same_pages ?r (mem s) (mem s1)" and rest: "same_rest s s1"
    and gr: "grows fl ?r (mem s) (mem s1)"
    using walk_to_pt [OF sp fr low] by blast
  obtain f where f: "walk (mem s1) ?r ?p = Some f" "translate (mem s1) c VIRT_SCRATCH_L1 = Some f"
    and at': "space c k3 k2 k1 ?r (mem s1)" "cr3 s1 = c"
      "frames_ahead c k3 k2 k1 X ?r (mem s1) j (pmm s1)"
      "\<forall>e\<in>set (entries (mem s1) ?r ?p). opens fl e"
    using at by (auto simp: walk_at_def)
  let ?m = "put_entry f (get_pt_idx virt) ?e (mem s1)"
  note leaf = space_leaf [OF at'(1) u(4) f(1), where i = "get_pt_idx virt" and e = ?e]
  define s' where "s' = invlpg virt (s1\<lparr>mem := ?m\<rparr>)"
  have "map_at_paddr_internal v virt phys fl s = Some (virt AND MAPPING_STRUCTURE_MASK, s')"
    using u(5) v s1 f(2) at'(2)
    by (simp add: map_at_paddr_internal_def table_write_def s'_def)
  moreover have "same_rest s s'" using rest by (simp add: same_rest_def s'_def invlpg_def)
  moreover have "space c k3 k2 k1 ?r (mem s')" "frames_ahead c k3 k2 k1 X ?r (mem s') j (pmm s')"
    using leaf(1,2) at'(3) frames_ahead_cong [of ?m ?r "mem s1"] by (simp_all add: s'_def invlpg_def)
  moreover have g1: "grows fl ?r (mem s1) ?m"
  proof (rule grows_entry)
    show "walk ?m ?r q = walk (mem s1) ?r q" if "user_path 3 q" for q
      using leaf(3) [of q] that by (auto simp: user_path_mono user_path_def)
    show "opens fl (?m f (get_pt_idx virt))" using lf(3) by (simp add: put_entry_upd)
  qed (simp add: put_entry_upd)
  moreover have "grows fl ?r (mem s) (mem s')"
    using grows_trans [OF gr g1] by (simp add: s'_def invlpg_def)
  moreover have "mapped_page ?r (mem s) (mem s') virt phys fl"
  proof -
    have w: "walk ?m ?r (vpath virt) = Some phys" "walk ?m ?r ?p = Some f"
      using leaf(3) [of "vpath virt"] leaf(3) [of ?p] u(1,4) e f(1) vp
      by (auto simp: user_path_mono)
    have ne: "walk (mem s1) ?r ?p \<noteq> None" unfolding f(1) by simp
    have op: "\<forall>e\<in>set (entries ?m ?r ?p). opens fl e"
      by (rule entries_grows [OF g1 user_path_mono [OF u(4)] ne at'(4)]) simp
    have en: "entries ?m ?r (vpath virt) = entries ?m ?r ?p @ [?e]"
      unfolding vp entries_snoc [OF w(2)] by (simp only: put_entry_upd fun_upd_same)
    have mem: "mem s' = ?m" by (simp add: s'_def invlpg_def)
    have "walk ?m ?r q = walk (mem s) ?r q"
      if "user_path 4 q" "length q = 4" "q \<noteq> vpath virt" for q
      using leaf(3) [OF _ that(1)] that pg vp by (simp only: same_pages_def) simp
    then show ?thesis
      unfolding mapped_page_def mem en using w(1) op lf(3) by (auto simp del: walk.simps entries.simps)
  qed
  ultimately show ?thesis by blast
qed

section \<open>A range of pages\<close>

lemma vpath_nat:
  "vpath virt = [unat virt div 549755813888 mod 512, unat virt div 1073741824 mod 512,
     unat virt div 2097152 mod 512, unat virt div 4096 mod 512]"
  by (simp add: vpath_def idx_take_bit unat_take_bit unat_shiftr)

lemma length_vpath [simp]: "length (vpath virt) = 4"
  by (simp add: vpath_def)

lemma low_not_high: "unat virt < 2 ^ 47 \<Longrightarrow> \<not> is_higher_half virt"
  using vpath_nat [of virt] by (simp add: is_higher_half_def vpath_def)

lemma page_number:
  "(x :: nat) < 2 ^ 48 \<Longrightarrow> x div 4096 =
     ((x div 549755813888 mod 512 * 512 + x div 1073741824 mod 512) * 512 + x div 2097152 mod 512) * 512
       + x div 4096 mod 512"
proof -
  assume x: "x < 2 ^ 48"
  let ?y = "x div 4096"
  have d: "x div 2097152 = ?y div 512" "x div 1073741824 = ?y div 512 div 512"
    "x div 549755813888 = ?y div 512 div 512 div 512"
    by (simp_all flip: div_mult2_eq)
  have "?y div 512 div 512 div 512 < 512" using x by (simp flip: div_mult2_eq add: div_less_iff_less_mult)
  then have "?y div 512 div 512 = ?y div 512 div 512 div 512 mod 512 * 512 + ?y div 512 div 512 mod 512"
    by (metis div_mult_mod_eq mod_less)
  then show ?thesis unfolding d by (metis div_mult_mod_eq)
qed

lemma vpath_inj:
  "unat a < 2 ^ 48 \<Longrightarrow> unat b < 2 ^ 48 \<Longrightarrow> vpath a = vpath b \<Longrightarrow> unat a div 4096 = unat b div 4096"
  using page_number [of "unat a"] page_number [of "unat b"] by (simp add: vpath_nat)

lemma unat_page:
  assumes "unat virt + 4096 * n \<le> 2 ^ 47" "k \<le> n"
  shows "unat (virt + PAGE_SIZE * word_of_nat k) = unat virt + 4096 * k"
proof -
  have "unat (PAGE_SIZE * word_of_nat k) = 4096 * k"
    using assms by (simp add: unat_word_ariths unat_of_nat_small)
  then show ?thesis using assms unat_add_small [of virt "PAGE_SIZE * word_of_nat k"] by simp
qed

lemma page_base_nonzero: "4096 \<le> unat virt \<Longrightarrow> virt AND MAPPING_STRUCTURE_MASK \<noteq> 0"
proof
  assume v: "4096 \<le> unat virt" and z: "virt AND MAPPING_STRUCTURE_MASK = 0"
  have mask: "(MAPPING_STRUCTURE_MASK :: u64) = NOT 4095" by simp
  have "unat virt - unat virt mod 4096 = 0"
    using z unat_and_not_4095 [of virt] by (simp only: mask unat_0)
  moreover have "unat virt mod 4096 < 4096" by simp
  ultimately show False using v by linarith
qed

text \<open>What mapping \<open>n\<close> pages from \<open>virt\<close> on has done to the space with root \<open>r\<close>: page \<open>k\<close> has the
  frame \<open>as ! k\<close> and can be used as the flags ask, every other page is translated as before.\<close>

definition mapped_range ::
  "haddr \<Rightarrow> memory \<Rightarrow> memory \<Rightarrow> haddr \<Rightarrow> nat \<Rightarrow> u64 \<Rightarrow> haddr list \<Rightarrow> bool"
where
  "mapped_range r m m' virt n fl as \<longleftrightarrow>
     length as = n \<and> distinct as \<and>
     (\<forall>k<n. translate m' r (virt + PAGE_SIZE * word_of_nat k) = Some (as ! k) \<and>
        (\<forall>e\<in>set (entries m' r (vpath (virt + PAGE_SIZE * word_of_nat k))). opens fl e)) \<and>
     (\<forall>a. unat a < 2 ^ 47 \<longrightarrow> (\<forall>k<n. unat a div 4096 \<noteq> unat virt div 4096 + k) \<longrightarrow>
        translate m' r a = translate m r a)"

lemma mapped_range_Cons:
  assumes pg: "mapped_page r m m1 virt a fl" and g: "grows fl r m1 m'"
    and rg: "mapped_range r m1 m' (virt + PAGE_SIZE) n fl as" and a: "a \<notin> set as"
    and v: "unat virt + 4096 * Suc n \<le> 2 ^ 47"
  shows "mapped_range r m m' virt (Suc n) fl (a # as)"
proof -
  let ?v = "virt + PAGE_SIZE"
  have v1: "unat ?v div 4096 = unat virt div 4096 + 1"
    using unat_page [of virt "Suc n" 1] v by simp
  have other: "translate m' r b = translate m1 r b"
    if "unat b < 2 ^ 47" "\<forall>k<n. unat b div 4096 \<noteq> unat virt div 4096 + 1 + k" for b
    using rg that v1 by (simp add: mapped_range_def)
  have low: "unat virt < 2 ^ 47" using v by simp
  note u = vpath_user(1) [OF low_not_high [OF low]]
  have k0: "translate m' r virt = Some a" "\<forall>e\<in>set (entries m' r (vpath virt)). opens fl e"
    using other [OF low] entries_grows [OF g u] pg by (simp_all add: mapped_page_def translate_def)
  have step: "virt + PAGE_SIZE * word_of_nat (Suc k) = ?v + PAGE_SIZE * word_of_nat k" for k
    by (simp add: algebra_simps)
  have k: "translate m' r (virt + PAGE_SIZE * word_of_nat k) = Some ((a # as) ! k) \<and>
      (\<forall>e\<in>set (entries m' r (vpath (virt + PAGE_SIZE * word_of_nat k))). opens fl e)"
    if "k < Suc n" for k
  proof (cases k)
    case (Suc k')
    have "k' < n" using that Suc by simp
    then show ?thesis unfolding Suc step using rg by (simp add: mapped_range_def)
  qed (use k0 in simp)
  have "translate m' r b = translate m r b"
    if b: "unat b < 2 ^ 47" "\<forall>k<Suc n. unat b div 4096 \<noteq> unat virt div 4096 + k" for b
  proof -
    have "translate m' r b = translate m1 r b" using other [OF b(1)] b(2) by fastforce
    moreover have "vpath b \<noteq> vpath virt" using vpath_inj [of b virt] b low by fastforce
    then have "translate m1 r b = translate m r b"
      using pg vpath_user(1) [OF low_not_high [OF b(1)]]
      by (simp add: mapped_page_def translate_def)
    ultimately show ?thesis by simp
  qed
  moreover have "length (a # as) = Suc n" "distinct (a # as)"
    using rg a by (auto simp: mapped_range_def)
  ultimately show ?thesis using k unfolding mapped_range_def by blast
qed

lemma map_pages_range:
  "space c k3 k2 k1 r (mem s) \<Longrightarrow> cr3 s = c \<Longrightarrow>
   frames_ahead c k3 k2 k1 X r (mem s) (4 * n + j) (pmm s) \<Longrightarrow> r = pml4_phys (vmms s v) \<Longrightarrow>
   v \<noteq> kernel_vmm s \<Longrightarrow> fl AND ENTRY_PHYS_MASK = 0 \<Longrightarrow> bit fl 0 \<Longrightarrow>
   4096 \<le> unat virt \<Longrightarrow> unat virt + 4096 * n \<le> 2 ^ 47 \<Longrightarrow>
   \<exists>s' as. map_pages v virt n fl s = Some (True, s') \<and> space c k3 k2 k1 r (mem s') \<and>
     same_rest s s' \<and> set as \<inter> X = {} \<and> mapped_range r (mem s) (mem s') virt n fl as \<and>
     frames_ahead c k3 k2 k1 X r (mem s') j (pmm s') \<and> grows fl r (mem s) (mem s')"
proof (induction n arbitrary: virt s X)
  case 0
  then show ?case by (intro exI [of _ s] exI [of _ "[]"]) (simp add: mapped_range_def grows_def)
next
  case (Suc n)
  obtain a q where al: "pmm_alloc_frame (pmm s) = (a, q)" by (metis surj_pair)
  define s0 where "s0 = s\<lparr>pmm := q\<rparr>"
  note fr = frames_ahead_Suc [OF _ al, of c k3 k2 k1 X r "mem s" "4 * n + j + 3"]
  have fr0: "frames_ahead c k3 k2 k1 X r (mem s) (Suc (4 * n + j + 3)) (pmm s)"
    using Suc.prems(3) by (simp add: algebra_simps numeral_eq_Suc)
  note a = fr [OF fr0]
  have v0: "unat virt < 2 ^ 47" using Suc.prems(9) by simp
  note low = low_not_high [OF v0]
  have "space c k3 k2 k1 (pml4_phys (vmms s0 v)) (mem s0)" "cr3 s0 = c" "v \<noteq> kernel_vmm s0"
    "frames_ahead c k3 k2 k1 (insert a X) (pml4_phys (vmms s0 v)) (mem s0) (4 * n + j + 3) (pmm s0)"
    using Suc.prems a(6) by (simp_all add: s0_def)
  from map_user_page [OF this(1,2,4,3) low a(2) Suc.prems(6,7)] obtain s1 where
    s1: "map_at_paddr_internal v virt a fl s0 = Some (virt AND MAPPING_STRUCTURE_MASK, s1)"
      "space c k3 k2 k1 r (mem s1)" "same_rest s0 s1"
      "frames_ahead c k3 k2 k1 (insert a X) r (mem s1) (4 * n + j) (pmm s1)"
      "mapped_page r (mem s0) (mem s1) virt a fl" "grows fl r (mem s0) (mem s1)"
    using Suc.prems(4) by (auto simp: s0_def)
  let ?v = "virt + PAGE_SIZE"
  have v1: "unat ?v = unat virt + 4096"
    using unat_page [of virt "Suc n" 1] Suc.prems(9) by simp
  have rest1: "same_rest s s1" using s1(3) by (simp add: same_rest_def s0_def)
  have pre: "cr3 s1 = c" "r = pml4_phys (vmms s1 v)" "v \<noteq> kernel_vmm s1" "4096 \<le> unat ?v"
    "unat ?v + 4096 * n \<le> 2 ^ 47"
    using Suc.prems(2,4,5,9) rest1 v1 by (simp_all add: same_rest_def)
  obtain s' as where s': "map_pages v ?v n fl s1 = Some (True, s')" "space c k3 k2 k1 r (mem s')"
    "same_rest s1 s'" "set as \<inter> insert a X = {}" "mapped_range r (mem s1) (mem s') ?v n fl as"
    "frames_ahead c k3 k2 k1 (insert a X) r (mem s') j (pmm s')" "grows fl r (mem s1) (mem s')"
    using Suc.IH [OF s1(2) pre(1) s1(4) pre(2,3) Suc.prems(6,7) pre(4,5)] by blast
  have "map_pages v virt (Suc n) fl s = Some (True, s')"
    using al a(1) s1(1) s'(1) page_base_nonzero [OF Suc.prems(8)]
    by (simp add: map_single_def alloc_frame_def s0_def)
  moreover have "mapped_range r (mem s) (mem s') virt (Suc n) fl (a # as)"
    using mapped_range_Cons [OF s1(5) s'(7,5)] s'(4) Suc.prems(9) by (simp add: s0_def)
  moreover have "frames_ahead c k3 k2 k1 X r (mem s') j (pmm s')"
    using s'(6) by (simp add: frames_ahead_def Let_def)
  moreover have "grows fl r (mem s) (mem s')"
    using grows_trans [OF s1(6) s'(7)] by (simp add: s0_def)
  moreover have "same_rest s s'" using rest1 s'(3) by (rule same_rest_trans)
  moreover have "set (a # as) \<inter> X = {}" using s'(4) a(5) by auto
  ultimately show ?case using s'(2) by blast
qed

end
