(* ===== verification/Vmm_Spec.thy ===== *)
theory Vmm_Spec
  imports Vmm_Map
begin

text \<open>
  The interface of \<^verbatim>\<open>kernel/memory/vmm.c\<close> for the address space of a process: mapping and
  unmapping change the tables, the areas and nothing else.
\<close>

section \<open>Walking tables that are there\<close>

abbreviation scratch_levels :: "haddr set" where
  "scratch_levels \<equiv> {VIRT_SCRATCH_L4, VIRT_SCRATCH_L3, VIRT_SCRATCH_L2, VIRT_SCRATCH_L1}"

text \<open>The state of such a walk that began in \<open>s0\<close>: no walk of the processor has changed, the scratch
  address \<open>a\<close> shows the table of the path \<open>p\<close>, and only scratch addresses were flushed.\<close>

definition walk_shown ::
  "haddr \<Rightarrow> haddr \<Rightarrow> haddr \<Rightarrow> haddr \<Rightarrow> haddr \<Rightarrow> machine \<Rightarrow> nat list \<Rightarrow> haddr \<Rightarrow> machine \<Rightarrow> bool"
where
  "walk_shown c k3 k2 k1 r s0 p a s \<longleftrightarrow>
     space c k3 k2 k1 r (mem s) \<and> cr3 s = c \<and> same_walks r (mem s0) (mem s) \<and> same_rest s0 s \<and>
     pmm s = pmm s0 \<and> translate (mem s) c a = walk (mem s0) r p \<and>
     (\<exists>as. set as \<subseteq> scratch_levels \<and> invlpgs s = as @ invlpgs s0)"

lemma walk_shown_step:
  assumes sh: "walk_shown c k3 k2 k1 r s0 p a s" and p: "user_path 3 (p @ [i])"
    and w: "walk (mem s0) r (p @ [i]) \<noteq> None"
    and a: "scratch_addr a k" "scratch_addr a' k'" "a' \<in> scratch_levels"
  shows "\<exists>s'. walk_to_child_table a i a' virt fl create s = Some (a', s') \<and>
    walk_shown c k3 k2 k1 r s0 (p @ [i]) a' s'"
proof -
  obtain f where f: "walk (mem s0) r p = Some f" using w by (auto simp: walk_append split: option.splits)
  have sp: "space c k3 k2 k1 r (mem s)" "cr3 s = c" "translate (mem s) c a = Some f"
    and sw: "same_walks r (mem s0) (mem s)" and rest: "same_rest s0 s" "pmm s = pmm s0"
    using sh f by (simp_all add: walk_shown_def)
  have wp: "walk (mem s) r p = Some f" "walk (mem s) r (p @ [i]) = walk (mem s0) r (p @ [i])"
    using sw f user_path_butlast [OF p] p by (simp_all add: same_walks_def user_path_mono)
  then have pr: "entry_is_present (mem s f i)" using w by (auto simp: walk_append split: if_splits)
  obtain s' where s': "walk_to_child_table a i a' virt fl create s = Some (a', s')"
    "space c k3 k2 k1 r (mem s')" "same_walks r (mem s) (mem s')" "same_rest s s'" "pmm s' = pmm s"
    "invlpgs s' = a' # a' # invlpgs s" "translate (mem s') c a' = Some (entry_phys (mem s f i))"
    "walk (mem s') r (p @ [i]) = Some (entry_phys (mem s f i))"
    using child_present [OF sp(1,2) p wp(1) pr a(1) sp(3) a(2), of virt fl create] by blast
  obtain as where as: "set as \<subseteq> scratch_levels" "invlpgs s = as @ invlpgs s0"
    using sh by (auto simp: walk_shown_def)
  have "set (a' # a' # as) \<subseteq> scratch_levels" "invlpgs s' = (a' # a' # as) @ invlpgs s0"
    using as a(3) s'(6) by simp_all
  then have "\<exists>as. set as \<subseteq> scratch_levels \<and> invlpgs s' = as @ invlpgs s0" by blast
  moreover have "walk (mem s') r (p @ [i]) = walk (mem s) r (p @ [i])"
    using s'(3) user_path_mono [OF p] by (simp add: same_walks_def)
  moreover have "same_walks r (mem s0) (mem s')" using sw s'(3) by (simp add: same_walks_def)
  moreover have "same_rest s0 s'" by (rule same_rest_trans [OF rest(1) s'(4)])
  ultimately have "walk_shown c k3 k2 k1 r s0 (p @ [i]) a' s'"
    using s'(2,4,5,7,8) sp(2) rest(2) wp(2) by (simp add: walk_shown_def same_rest_def)
  then show ?thesis using s'(1) by blast
qed

lemma walk_to_present_pt:
  assumes sp: "space c k3 k2 k1 (pml4_phys (vmms s v)) (mem s)" "cr3 s = c"
    and low: "\<not> is_higher_half virt"
    and pt: "walk (mem s) (pml4_phys (vmms s v))
      [get_pml4_idx virt, get_pml3_idx virt, get_pd_idx virt] \<noteq> None"
  shows "\<exists>s'. walk_non_kernel_to_pt v virt fl create s = Some (VIRT_SCRATCH_L1, s') \<and>
    walk_shown c k3 k2 k1 (pml4_phys (vmms s v)) s
      [get_pml4_idx virt, get_pml3_idx virt, get_pd_idx virt] VIRT_SCRATCH_L1 s'"
proof -
  let ?r = "pml4_phys (vmms s v)"
  define s1 where "s1 = scratch_set VIRT_SCRATCH_L4 2 k1 ?r s"
  note u = vpath_user [OF low]
  have path: "scratch_path (mem s) (cr3 s) k3 k2 k1" and r: "entry_phys ?r = ?r"
    using sp by (auto simp: space_def)
  have "invlpgs s1 = [VIRT_SCRATCH_L4, VIRT_SCRATCH_L4] @ invlpgs s"
    by (simp add: s1_def scratch_set_def)
  then have "\<exists>as. set as \<subseteq> scratch_levels \<and> invlpgs s1 = as @ invlpgs s"
    by (rule_tac x = "[VIRT_SCRATCH_L4, VIRT_SCRATCH_L4]" in exI) simp
  then have s1: "walk_shown c k3 k2 k1 ?r s [] VIRT_SCRATCH_L4 s1"
    using space_scratch_set [OF sp(1), of VIRT_SCRATCH_L4 2 ?r] sp(2)
      scratch_set_translate [OF path [unfolded sp(2)] scratch_addrs(3) r]
    by (simp add: walk_shown_def s1_def) (simp add: scratch_set_def)
  have w: "walk (mem s) ?r ([] @ [get_pml4_idx virt]) \<noteq> None"
    "walk (mem s) ?r ([get_pml4_idx virt] @ [get_pml3_idx virt]) \<noteq> None"
    "walk (mem s) ?r ([get_pml4_idx virt, get_pml3_idx virt] @ [get_pd_idx virt]) \<noteq> None"
    using pt by (auto split: if_splits)
  obtain s2 where s2: "walk_to_child_table VIRT_SCRATCH_L4 (get_pml4_idx virt) VIRT_SCRATCH_L3 virt fl
      create s1 = Some (VIRT_SCRATCH_L3, s2)"
    "walk_shown c k3 k2 k1 ?r s [get_pml4_idx virt] VIRT_SCRATCH_L3 s2"
    using walk_shown_step [OF s1 _ w(1) scratch_addrs(3) scratch_addrs(4), where virt = virt and fl = fl
        and create = create] u(2) by auto
  obtain s3 where s3: "walk_to_child_table VIRT_SCRATCH_L3 (get_pml3_idx virt) VIRT_SCRATCH_L2 virt fl
      create s2 = Some (VIRT_SCRATCH_L2, s3)"
    "walk_shown c k3 k2 k1 ?r s [get_pml4_idx virt, get_pml3_idx virt] VIRT_SCRATCH_L2 s3"
    using walk_shown_step [OF s2(2) _ w(2) scratch_addrs(4) scratch_addrs(5), where virt = virt and fl = fl
        and create = create] u(3) by auto
  obtain s4 where s4: "walk_to_child_table VIRT_SCRATCH_L2 (get_pd_idx virt) VIRT_SCRATCH_L1 virt fl
      create s3 = Some (VIRT_SCRATCH_L1, s4)"
    "walk_shown c k3 k2 k1 ?r s [get_pml4_idx virt, get_pml3_idx virt, get_pd_idx virt]
      VIRT_SCRATCH_L1 s4"
    using walk_shown_step [OF s3(2) _ w(3) scratch_addrs(5) scratch_addrs(6), where virt = virt and fl = fl
        and create = create] u(4) by auto
  have "walk_non_kernel_to_pt v virt fl create s = Some (VIRT_SCRATCH_L1, s4)"
    using u(5) s2(1) s3(1) s4(1) scratch_map_table_eq [OF path scratch_addrs(3), of ?r, folded s1_def]
    by (simp add: walk_non_kernel_to_pt_def)
  then show ?thesis using s4(2) by blast
qed

section \<open>Unmapping a page\<close>

lemma unmap_user_page:
  assumes sp: "space c k3 k2 k1 (pml4_phys (vmms s v)) (mem s)" "cr3 s = c"
    and v: "v \<noteq> kernel_vmm s" and low: "\<not> is_higher_half virt"
    and pt: "walk (mem s) (pml4_phys (vmms s v))
      [get_pml4_idx virt, get_pml3_idx virt, get_pd_idx virt] \<noteq> None"
  shows "\<exists>s'. unmap_internal v virt s = Some (virt AND MAPPING_STRUCTURE_MASK, s') \<and>
    space c k3 k2 k1 (pml4_phys (vmms s v)) (mem s') \<and> same_rest s s' \<and> pmm s' = pmm s \<and>
    (\<forall>q. user_path 4 q \<longrightarrow> walk (mem s') (pml4_phys (vmms s v)) q =
       (if q = vpath virt then None else walk (mem s) (pml4_phys (vmms s v)) q)) \<and>
    (\<exists>as. set as \<subseteq> scratch_levels \<and> invlpgs s' = as @ invlpgs s)"
proof -
  let ?r = "pml4_phys (vmms s v)"
  let ?p = "[get_pml4_idx virt, get_pml3_idx virt, get_pd_idx virt]"
  note u = vpath_user [OF low]
  have vp: "vpath virt = ?p @ [get_pt_idx virt]" by (simp add: vpath_def)
  obtain s1 where s1: "walk_non_kernel_to_pt v virt 0 False s = Some (VIRT_SCRATCH_L1, s1)"
    and sh: "walk_shown c k3 k2 k1 ?r s ?p VIRT_SCRATCH_L1 s1"
    using walk_to_present_pt [OF sp low pt, of 0 False] by blast
  obtain f where f: "walk (mem s) ?r ?p = Some f" using pt by blast
  have at: "space c k3 k2 k1 ?r (mem s1)" "cr3 s1 = c" "same_walks ?r (mem s) (mem s1)"
    "same_rest s s1" "pmm s1 = pmm s" "translate (mem s1) c VIRT_SCRATCH_L1 = Some f"
    "\<exists>as. set as \<subseteq> scratch_levels \<and> invlpgs s1 = as @ invlpgs s"
    using sh unfolding walk_shown_def f by simp_all
  have f1: "walk (mem s1) ?r ?p = Some f"
    using at(3) f u(4) by (simp add: same_walks_def user_path_mono del: walk.simps)
  define s' where "s' = s1\<lparr>mem := put_entry f (get_pt_idx virt) 0 (mem s1)\<rparr>"
  note leaf = space_leaf [OF at(1) u(4) f1, where i = "get_pt_idx virt" and e = 0]
  have "unmap_internal v virt s = Some (virt AND MAPPING_STRUCTURE_MASK, s')"
    using u(5) v s1 at(2,6) by (simp add: unmap_internal_def table_write_def s'_def Let_def)
  moreover have "space c k3 k2 k1 ?r (mem s')" "same_rest s s'" "pmm s' = pmm s"
    "\<exists>as. set as \<subseteq> scratch_levels \<and> invlpgs s' = as @ invlpgs s"
    using leaf(1) at(4,5,7) by (simp_all add: s'_def same_rest_def)
  moreover have "walk (mem s') ?r q = (if q = vpath virt then None else walk (mem s) ?r q)"
    if "user_path 4 q" for q
    using leaf(3) [OF _ that] at(3) that vp by (simp add: s'_def same_walks_def entry_is_present_def)
  ultimately show ?thesis by blast
qed

text \<open>The area list when one page of an area goes.\<close>

lemma remove_page:
  assumes wf: "vma_wf vs" and b: "b AND 4095 = 0" "b \<in> vma_addrs vs"
    and res: "vma_remove True vs b (b OR 4095) = (ok, vs')"
  shows "ok" "vma_wf vs'" "vma_addrs vs' = vma_addrs vs - {b..b OR 4095}"
proof -
  have b1: "b OR 4095 = b + 4095" using disjunctive_add_eq_or [OF b(1)] by simp
  have al: "unat b mod 4096 = 0" using b(1) by (simp add: aligned_iff)
  then obtain i where i: "unat b = 4096 * i" by (auto simp: mod_eq_0_iff_dvd)
  have "i < 4503599627370496" using unat_u64_less [of b] by (simp add: i)
  then have "unat b + 4095 < 18446744073709551616" by (simp add: i)
  then have e: "unat (b OR 4095) = unat b + 4095"
    using unat_add_small [of b 4095] by (simp add: b1)
  have valid: "vma_range_valid b (b OR 4095)"
    unfolding range_valid_iff e using al by (simp add: mod_simps)
  obtain v where v: "v \<in> set vs" "vstart v \<le> b" "b \<le> vend v" using b(2) by (auto simp: vma_addrs_def)
  note hit = remove_hit [OF wf valid v res]
  show ok using hit(2) by simp
  show "vma_wf vs'" by (rule hit(1))
  have "vma_range_valid (vstart v) (vend v)" using wf v(1) by (simp add: vma_wf_def)
  then obtain j where j: "unat (vend v) + 1 = 4096 * j"
    by (auto simp: range_valid_iff mod_eq_0_iff_dvd)
  have "4096 * i < 4096 * j" using v(3) unfolding word_le_nat_alt by (simp add: i flip: j)
  then have "4096 * Suc i \<le> 4096 * j" by (intro mult_le_mono) simp_all
  then have "unat b + 4095 \<le> unat (vend v)" using j by (simp add: i)
  then have "min (b OR 4095) (vend v) = b OR 4095" by (simp add: min_def word_le_nat_alt e)
  then show "vma_addrs vs' = vma_addrs vs - {b..b OR 4095}" using hit(3) \<open>ok\<close> by simp
qed

section \<open>Mapping a range\<close>

lemma page_base: "virt AND 4095 = 0 \<Longrightarrow> virt AND MAPPING_STRUCTURE_MASK = (virt :: u64)"
proof -
  assume "virt AND 4095 = 0"
  then have "unat (virt AND NOT 4095) = unat virt"
    unfolding unat_and_not_4095 by (simp add: aligned_iff)
  then have "virt AND NOT 4095 = virt" by (rule unat_inj)
  moreover have mask: "(MAPPING_STRUCTURE_MASK :: u64) = NOT 4095" by simp
  ultimately show ?thesis by (simp only: mask)
qed

lemma insert_range:
  assumes v: "v \<noteq> 0" "v \<noteq> kernel_vmm s" and fl: "fl AND PAGE_USER_ACCESIBLE \<noteq> 0"
    and virt: "virt AND 4095 = 0" and n: "0 < unat n" "unat virt + 4096 * unat n \<le> 2 ^ 47"
    and wf: "vma_wf (vma_list (vmms s v))"
    and free: "{virt..virt + n * PAGE_SIZE - 1} \<inter> vma_addrs (vma_list (vmms s v)) = {}"
  shows "\<exists>as. insert_vma True v virt (n * PAGE_SIZE) fl s = (True, set_areas v as s) \<and> vma_wf as \<and>
    vma_addrs as = vma_addrs (vma_list (vmms s v)) \<union> {virt..virt + n * PAGE_SIZE - 1}"
proof -
  let ?as = "vma_list (vmms s v)" and ?e = "virt + n * PAGE_SIZE - 1"
  obtain ok as where ins: "vma_insert True ?as virt ?e fl 0 0 = (ok, as)" by (metis surj_pair)
  have bytes: "unat (n * PAGE_SIZE) = 4096 * unat n"
    using n(2) by (simp add: unat_word_ariths)
  have e1: "unat (virt + n * PAGE_SIZE) = unat virt + 4096 * unat n"
    using unat_add_small [of virt "n * PAGE_SIZE"] bytes n(2) by simp
  have nz: "n * PAGE_SIZE \<noteq> 0" "virt + n * PAGE_SIZE \<noteq> 0"
    using bytes e1 n(1) by (metis unat_0 mult_eq_0_iff add_is_0 less_irrefl zero_neq_numeral)+
  have e: "unat ?e = unat virt + 4096 * unat n - 1" using unat_minus_one [OF nz(2)] e1 by simp
  have valid: "vma_range_valid virt ?e"
    using virt n(1) unfolding range_valid_iff e by (simp add: aligned_iff mod_add_eq)
  have "\<forall>w\<in>set ?as. \<not> vma_overlaps w virt ?e"
    using disjoint_iff_no_overlap [OF wf valid] free by simp
  then have ok: "ok" using insert_spec(1) [OF wf ins] valid by simp
  have "\<not> - 1 - virt < n * PAGE_SIZE - 1"
    using n(2) unat_minus_one [OF nz(1)] bytes unfolding word_less_nat_alt unat_minus_one_diff
    by simp
  moreover have "track_vma v virt fl s"
    using v fl low_not_high [of virt] n by (simp add: track_vma_def)
  ultimately have "insert_vma True v virt (n * PAGE_SIZE) fl s = (True, set_areas v as s)"
    using ins ok nz(1) by (simp add: insert_vma_def)
  moreover have "vma_addrs as = vma_addrs ?as \<union> {virt..?e}"
    using insert_spec(4) [OF wf ins ok] by (auto simp: vma_addrs_def)
  ultimately show ?thesis using insert_spec(2) [OF wf ins] by blast
qed

lemma vmm_map_range:
  assumes "space c k3 k2 k1 r (mem s)" "cr3 s = c" "r = pml4_phys (vmms s v)"
    and "frames_ahead c k3 k2 k1 X r (mem s) (4 * unat n) (pmm s)"
    and "v \<noteq> 0" "v \<noteq> kernel_vmm s" "virt AND 4095 = 0" "4096 \<le> unat virt"
    and "0 < unat n" "unat virt + 4096 * unat n \<le> 2 ^ 47"
    and "fl AND ENTRY_PHYS_MASK = 0" "fl AND PAGE_PRESENT \<noteq> 0" "fl AND PAGE_USER_ACCESIBLE \<noteq> 0"
    and "vma_wf (vma_list (vmms s v))"
    and "{virt..virt + n * PAGE_SIZE - 1} \<inter> vma_addrs (vma_list (vmms s v)) = {}"
  shows "\<exists>s' as. vmm_map True v virt n fl s = Some (virt, s') \<and>
    mapped_range r (mem s) (mem s') virt (unat n) fl as \<and> set as \<inter> X = {} \<and>
    space c k3 k2 k1 r (mem s') \<and> cr3 s' = c \<and> kernel_vmm s' = kernel_vmm s \<and>
    pml4_phys (vmms s' v) = r \<and> vma_wf (vma_list (vmms s' v)) \<and>
    vma_addrs (vma_list (vmms s' v)) =
      vma_addrs (vma_list (vmms s v)) \<union> {virt..virt + n * PAGE_SIZE - 1}"
proof -
  obtain areas where areas: "insert_vma True v virt (n * PAGE_SIZE) fl s = (True, set_areas v areas s)"
    "vma_wf areas"
    "vma_addrs areas = vma_addrs (vma_list (vmms s v)) \<union> {virt..virt + n * PAGE_SIZE - 1}"
    using insert_range [OF assms(5,6,13,7,9,10,14,15)] by blast
  define s0 where "s0 = set_areas v areas s"
  have s0: "mem s0 = mem s" "cr3 s0 = c" "r = pml4_phys (vmms s0 v)" "pmm s0 = pmm s"
    "v \<noteq> kernel_vmm s0" "vma_list (vmms s0 v) = areas"
    using assms(2,3,6) by (simp_all add: s0_def set_areas_def)
  have "bit fl 0" using assms(12) by (auto simp: and_one_eq bit_0 odd_iff_mod_2_eq_one)
  from map_pages_range [of c k3 k2 k1 r s0 X "unat n" 0 v fl virt, OF _ s0(2) _ s0(3,5) assms(11) this
      assms(8,10)]
  obtain s' as where s': "map_pages v virt (unat n) fl s0 = Some (True, s')"
    "space c k3 k2 k1 r (mem s')" "same_rest s0 s'" "set as \<inter> X = {}"
    "mapped_range r (mem s0) (mem s') virt (unat n) fl as"
    using assms(1,4) s0(1,4) by auto
  note base = page_base [OF assms(7)]
  have "unat ((- 1 :: u64) div PAGE_SIZE) = 4503599627370495"
    by (simp add: unat_div_distrib unat_minus_one_diff [of 0, simplified])
  then have "\<not> (- 1) div PAGE_SIZE < n" using assms(10) by (simp add: word_less_nat_alt)
  then have "vmm_map True v virt n fl s = Some (virt, s')"
    using areas(1) s'(1) by (simp add: vmm_map_def base s0_def)
  moreover have "vma_list (vmms s' v) = areas" "cr3 s' = c" "kernel_vmm s' = kernel_vmm s"
    "pml4_phys (vmms s' v) = r"
    using s'(3) s0(2,3,6) by (simp_all add: same_rest_def s0_def set_areas_def)
  ultimately show ?thesis using s' areas(2,3) s0(1) by auto
qed

text \<open>A machine with a process whose space is empty and which is not the current one.\<close>

definition example_memory :: memory where
  "example_memory f i =
     (if f = 0x1000 then (if i = 510 then 0x1003 else if i = 511 then 0x2003 else 0)
      else if f = 0x2000 then (if i = 509 then 0x3003 else 0)
      else if f = 0x3000 then (if i = 384 then 0x4003 else 0)
      else 0)"

definition example_machine :: machine where
  "example_machine =
     \<lparr>mem = example_memory, cr3 = 0x1000, invlpgs = [],
      pmm = pmm_example\<lparr>memmap_is_initialized := False, last_early_alloc_addr := 0x100000\<rparr>,
      vmms = (\<lambda>_. \<lparr>first_available_vaddr = LOW_REGION_END, last_available_vaddr = LAST_VADDR,
        kernel_offset = 0, pml4_phys = 0x5000, vma_list = []\<rparr>),
      kernel_vmm = 0x9000, virtual_directory = 0xFFFFFFFF80000000\<rparr>"

lemma example_tables: "walk example_memory 0x5000 p = Some f \<longleftrightarrow> p = [] \<and> f = 0x5000"
  by (cases p) (auto simp: example_memory_def entry_is_present_def)

lemma example_tables_set: "tables example_memory 0x5000 = {0x5000}"
  by (auto simp: tables_def example_tables user_path_def intro: exI [of _ "[]"])

lemma example_space: "space 0x1000 0x2000 0x3000 0x4000 0x5000 (mem example_machine)"
proof -
  have "scratch_path example_memory 0x1000 0x2000 0x3000 0x4000"
    by (simp add: scratch_path_def example_memory_def entry_is_present_def entry_phys_def)
  moreover have "separate example_memory 0x5000" by (simp add: separate_def example_tables)
  ultimately show ?thesis
    by (simp add: space_def example_machine_def example_tables_set entry_phys_def)
qed

lemma example_frames:
  "frames_ahead 0x1000 0x2000 0x3000 0x4000 {} 0x5000 (mem example_machine) 4 (pmm example_machine)"
proof -
  have "fst (alloc_frames 4 (pmm example_machine)) =
      map (\<lambda>k. 0x100000 + PAGE_SIZE * word_of_nat k) [0..<4]"
    using alloc_frames_early [of "pmm example_machine" 4, OF _ prod.collapse [symmetric]]
    by (simp add: example_machine_def)
  also have "\<dots> = [0x100000, 0x101000, 0x102000, 0x103000]" by (simp add: upt_rec)
  finally show ?thesis
    by (simp add: frames_ahead_def example_machine_def example_tables_set entry_phys_def)
qed

lemma example_mapped:
  "\<exists>s as. vmm_map True 0x8000 0x400000 1 7 example_machine = Some (0x400000, s) \<and>
     mapped_range 0x5000 (mem example_machine) (mem s) 0x400000 1 7 as \<and>
     space 0x1000 0x2000 0x3000 0x4000 0x5000 (mem s) \<and> cr3 s = 0x1000 \<and> kernel_vmm s = 0x9000 \<and>
     pml4_phys (vmms s 0x8000) = 0x5000 \<and> vma_wf (vma_list (vmms s 0x8000)) \<and>
     vma_addrs (vma_list (vmms s 0x8000)) = {0x400000..0x400FFF}"
proof -
  have fr: "frames_ahead 0x1000 0x2000 0x3000 0x4000 {} 0x5000 (mem example_machine)
      (4 * unat (1 :: u64)) (pmm example_machine)"
    using example_frames by simp
  have "cr3 example_machine = 0x1000" "0x5000 = pml4_phys (vmms example_machine 0x8000)"
    "(0x8000 :: haddr) \<noteq> kernel_vmm example_machine" "vma_list (vmms example_machine 0x8000) = []"
    by (simp_all add: example_machine_def)
  from vmm_map_range [OF example_space this(1,2) fr _ this(3), where virt = "0x400000" and fl = 7] this(4) show ?thesis
    by (auto simp: vma_wf_def vma_addrs_def example_machine_def)
qed

section \<open>Unmapping and its areas\<close>

lemma vmm_unmap_page:
  assumes sp: "space c k3 k2 k1 r (mem s)" "cr3 s = c" "r = pml4_phys (vmms s v)"
    and v: "v \<noteq> 0" "v \<noteq> kernel_vmm s" and virt: "4096 \<le> unat virt" "unat virt < 2 ^ 47"
    and pg: "translate (mem s) r virt \<noteq> None"
    and wf: "vma_wf (vma_list (vmms s v))"
    and ar: "virt AND MAPPING_STRUCTURE_MASK \<in> vma_addrs (vma_list (vmms s v))"
  shows "\<exists>s'. vmm_unmap True v virt s = Some (virt AND MAPPING_STRUCTURE_MASK, s') \<and>
    translate (mem s') r virt = None \<and>
    (\<forall>a. unat a < 2 ^ 47 \<longrightarrow> unat a div 4096 \<noteq> unat virt div 4096 \<longrightarrow>
       translate (mem s') r a = translate (mem s) r a) \<and>
    space c k3 k2 k1 r (mem s') \<and> vma_wf (vma_list (vmms s' v)) \<and>
    vma_addrs (vma_list (vmms s' v)) = vma_addrs (vma_list (vmms s v)) -
      {virt AND MAPPING_STRUCTURE_MASK..(virt AND MAPPING_STRUCTURE_MASK) OR 4095} \<and>
    pmm s' = pmm s \<and> (\<exists>as. set as \<subseteq> scratch_levels \<and> invlpgs s' = as @ invlpgs s)"
proof -
  let ?b = "virt AND MAPPING_STRUCTURE_MASK"
  note low = low_not_high [OF virt(2)]
  have pt: "walk (mem s) r [get_pml4_idx virt, get_pml3_idx virt, get_pd_idx virt] \<noteq> None"
    using pg by (auto simp: translate_def vpath_def split: if_splits)
  obtain s1 where s1: "unmap_internal v virt s = Some (?b, s1)" "space c k3 k2 k1 r (mem s1)"
    "same_rest s s1" "pmm s1 = pmm s"
    "\<forall>q. user_path 4 q \<longrightarrow> walk (mem s1) r q = (if q = vpath virt then None else walk (mem s) r q)"
    "\<exists>as. set as \<subseteq> scratch_levels \<and> invlpgs s1 = as @ invlpgs s"
    using unmap_user_page [OF sp(1) [unfolded sp(3)] sp(2) v(2) low pt [unfolded sp(3)]] sp(3)
    by blast
  have b: "?b \<noteq> 0" "?b AND 4095 = 0" "\<not> is_higher_half ?b"
  proof -
    show "?b \<noteq> 0" by (rule page_base_nonzero [OF virt(1)])
    show "?b AND 4095 = 0" by (simp add: and.assoc)
    have "?b \<le> virt" by (rule word_and_le2)
    then have "unat ?b < 2 ^ 47" using virt(2) unfolding word_le_nat_alt by (rule le_less_trans)
    then show "\<not> is_higher_half ?b" by (rule low_not_high)
  qed
  obtain ok areas where rm: "vma_remove True (vma_list (vmms s v)) ?b (?b OR 4095) = (ok, areas)"
    by (metis surj_pair)
  note page = remove_page [OF wf b(2) ar rm]
  define s' where "s' = set_areas v areas s1"
  have "remove_vma True v ?b s1 = (True, s')"
    using v b(3) s1(3) rm page(1) by (simp add: remove_vma_def same_rest_def s'_def)
  then have "vmm_unmap True v virt s = Some (?b, s')" using s1(1) b(1) by (simp add: vmm_unmap_def)
  moreover have s': "mem s' = mem s1" "pmm s' = pmm s" "invlpgs s' = invlpgs s1"
    "vma_list (vmms s' v) = areas"
    using s1(4) by (simp_all add: s'_def set_areas_def)
  moreover have tr: "translate (mem s') r a = (if vpath a = vpath virt then None else translate (mem s) r a)"
    if "unat a < 2 ^ 47" for a
    using s1(5) vpath_user(1) [OF low_not_high [OF that]] s'(1) by (simp add: translate_def)
  moreover have "vpath a \<noteq> vpath virt" if "unat a < 2 ^ 47" "unat a div 4096 \<noteq> unat virt div 4096" for a
    using vpath_inj [of a virt] that virt(2) by fastforce
  ultimately show ?thesis using s1(2,6) page(2,3) virt(2) by auto
qed

section \<open>The two parts of an entry\<close>





section \<open>Properties\<close>



text \<open>C10. Unmapping a mapped page of a process: \<open>vmm_unmap\<close> returns the base of the page; the page
  has no translation any more, every other page of the process translates as before, the areas
  lose exactly this page, and the tables stay separate.\<close>

theorem vmm_unmap_user:
  assumes "space c k3 k2 k1 r (mem s)" "cr3 s = c" "r = pml4_phys (vmms s v)"
    and "v \<noteq> 0" "v \<noteq> kernel_vmm s" "4096 \<le> unat virt" "unat virt < 2 ^ 47"
    and "translate (mem s) r virt \<noteq> None" "vma_wf (vma_list (vmms s v))"
    and "virt AND MAPPING_STRUCTURE_MASK \<in> vma_addrs (vma_list (vmms s v))"
  shows "\<exists>s'. vmm_unmap True v virt s = Some (virt AND MAPPING_STRUCTURE_MASK, s') \<and>
    translate (mem s') r virt = None \<and>
    (\<forall>a. unat a < 2 ^ 47 \<longrightarrow> unat a div 4096 \<noteq> unat virt div 4096 \<longrightarrow>
       translate (mem s') r a = translate (mem s) r a) \<and>
    space c k3 k2 k1 r (mem s') \<and> vma_wf (vma_list (vmms s' v)) \<and>
    vma_addrs (vma_list (vmms s' v)) = vma_addrs (vma_list (vmms s v)) -
      {virt AND MAPPING_STRUCTURE_MASK..(virt AND MAPPING_STRUCTURE_MASK) OR 4095}"
  using vmm_unmap_page [OF assms] by blast

theorem vmm_unmap_user_witness:
  "\<exists>s s'. vmm_map True 0x8000 0x400000 1 7 example_machine = Some (0x400000, s) \<and>
     vmm_unmap True 0x8000 0x400000 s = Some (0x400000, s') \<and>
     translate (mem s') 0x5000 0x400000 = None"
proof -
  obtain s as where s: "vmm_map True 0x8000 0x400000 1 7 example_machine = Some (0x400000, s)"
    "mapped_range 0x5000 (mem example_machine) (mem s) 0x400000 1 7 as"
    "space 0x1000 0x2000 0x3000 0x4000 0x5000 (mem s)" "cr3 s = 0x1000" "kernel_vmm s = 0x9000"
    "pml4_phys (vmms s 0x8000) = 0x5000" "vma_wf (vma_list (vmms s 0x8000))"
    "vma_addrs (vma_list (vmms s 0x8000)) = {0x400000..0x400FFF}"
    using example_mapped by blast
  have "translate (mem s) 0x5000 0x400000 \<noteq> None" using s(2) by (simp add: mapped_range_def)
  from vmm_unmap_user [OF s(3,4) s(6) [symmetric] _ _ _ _ this s(7)] s(1,5,8) show ?thesis
    by auto
qed

text \<open>C35. The same call gives no frame back to the physical memory manager and flushes no
  translation of the page it has unmapped: the frame is lost, and the process may still reach it.\<close>

theorem vmm_unmap_leaks:
  assumes "space c k3 k2 k1 r (mem s)" "cr3 s = c" "r = pml4_phys (vmms s v)"
    and "v \<noteq> 0" "v \<noteq> kernel_vmm s" "4096 \<le> unat virt" "unat virt < 2 ^ 47"
    and "translate (mem s) r virt \<noteq> None" "vma_wf (vma_list (vmms s v))"
    and "virt AND MAPPING_STRUCTURE_MASK \<in> vma_addrs (vma_list (vmms s v))"
  shows "\<exists>s' as. vmm_unmap True v virt s = Some (virt AND MAPPING_STRUCTURE_MASK, s') \<and>
    pmm s' = pmm s \<and> invlpgs s' = as @ invlpgs s \<and>
    (\<forall>a\<in>set as. unat a div 4096 \<noteq> unat virt div 4096)"
proof -
  obtain s' as where s': "vmm_unmap True v virt s = Some (virt AND MAPPING_STRUCTURE_MASK, s')"
    "pmm s' = pmm s" "set as \<subseteq> scratch_levels" "invlpgs s' = as @ invlpgs s"
    using vmm_unmap_page [OF assms] by blast
  have "unat virt div 4096 < 34359738368"
    using assms(7) by (simp add: div_less_iff_less_mult)
  then have "\<forall>a\<in>scratch_levels. unat a div 4096 \<noteq> unat virt div 4096" by auto
  then show ?thesis using s' by blast
qed

theorem vmm_unmap_leaks_witness:
  "\<exists>s s'. vmm_map True 0x8000 0x400000 1 7 example_machine = Some (0x400000, s) \<and>
     vmm_unmap True 0x8000 0x400000 s = Some (0x400000, s') \<and> pmm s' = pmm s"
proof -
  obtain s as where s: "vmm_map True 0x8000 0x400000 1 7 example_machine = Some (0x400000, s)"
    "mapped_range 0x5000 (mem example_machine) (mem s) 0x400000 1 7 as"
    "space 0x1000 0x2000 0x3000 0x4000 0x5000 (mem s)" "cr3 s = 0x1000" "kernel_vmm s = 0x9000"
    "pml4_phys (vmms s 0x8000) = 0x5000" "vma_wf (vma_list (vmms s 0x8000))"
    "vma_addrs (vma_list (vmms s 0x8000)) = {0x400000..0x400FFF}"
    using example_mapped by blast
  have "translate (mem s) 0x5000 0x400000 \<noteq> None" using s(2) by (simp add: mapped_range_def)
  from vmm_unmap_leaks [OF s(3,4) s(6) [symmetric] _ _ _ _ this s(7)] s(1,5,8) show ?thesis
    by auto
qed



text \<open>C36. With the entry 510 of the current root pointing at the root itself, the entry that
  \<open>get_pt_entry\<close> reads at the recursive address decides the translation of the address: the walk of
  the source and the walk of the processor agree, faults included.\<close>

theorem recursive_walk:
  assumes "walk (mem s) (cr3 s) [510] = Some (cr3 s)"
  shows "translate (mem s) (cr3 s) virt =
    (case get_pt_entry virt s of
       None \<Rightarrow> None
     | Some e \<Rightarrow> if entry_is_present e then Some (entry_phys e) else None)"
proof -
  let ?p = "[get_pml4_idx virt, get_pml3_idx virt, get_pd_idx virt]"
  have "translate (mem s) (cr3 s) virt = walk (mem s) (cr3 s) (?p @ [get_pt_idx virt])"
    by (simp add: translate_def vpath_def)
  moreover have "get_pt_entry virt s = map_option (\<lambda>f. mem s f (get_pt_idx virt)) (walk (mem s) (cr3 s) ?p)"
    unfolding get_pt_entry_def table_read_def recursive_translate(4) [OF assms] ..
  ultimately show ?thesis unfolding walk_append by (simp split: option.split del: walk.simps(2)) simp
qed

theorem recursive_walk_witness:
  "translate (mem example_machine) (cr3 example_machine) 0x400000 =
    (case get_pt_entry 0x400000 example_machine of
       None \<Rightarrow> None
     | Some e \<Rightarrow> if entry_is_present e then Some (entry_phys e) else None)"
  by (rule recursive_walk)
     (simp add: example_machine_def example_memory_def entry_is_present_def entry_phys_def)

lemma fill_kernel_pde_overflow:
  "n = 512 - page \<Longrightarrow> page \<le> 512 \<Longrightarrow> unat addr + 4096 * n \<le> unat (kernel_end (pmm s)) \<Longrightarrow>
   fill_kernel_pde k addr page s = None"
proof (induction n arbitrary: addr page s)
  case 0
  then show ?case by (subst fill_kernel_pde.simps) (simp add: word_le_nat_alt)
next
  case (Suc n)
  have "unat (addr + 4096) = unat addr + 4096"
    using Suc.prems(3) unat_u64_less [of "kernel_end (pmm s)"] by (intro unat_add_small [of addr 4096, simplified]) simp
  then show ?case
    using Suc.prems Suc.IH [of "page + 1" "addr + 4096"]
    by (subst fill_kernel_pde.simps) (simp add: word_le_nat_alt image_write_def)
qed

text \<open>C38. The check of the kernel's size is too weak for the table it protects: a kernel that spans
  512 pages or more but is reported with at most 767 passes it, and the loop then stores past the
  end of the 512 entries of \<open>kernel_pde\<close>.\<close>

theorem kernel_size_check_weak:
  assumes "kernel_page_count (pmm s) \<le> 767"
    and "unat (kernel_start (pmm s)) + 4096 * 512 \<le> unat (kernel_end (pmm s))"
  shows "check_kernel_size (kernel_page_count (pmm s)) \<and> vmm_first_tables A s = None"
proof -
  have "pmm (fold (\<lambda>k. image_write b k (w k)) ks t) = pmm t" for b w ks t
    by (induction ks arbitrary: t) (simp_all add: image_write_def)
  then have p: "pmm (low_identity b t) = pmm t" for b t by (simp add: low_identity_def)
  have ck: "check_kernel_size (kernel_page_count (pmm s))"
    using assms(1) by (simp add: check_kernel_size_def)
  have "fill_kernel_pde k (kernel_start (pmm t)) 0 t = None" if "pmm t = pmm s" for k t
    by (rule fill_kernel_pde_overflow [where n = 512]) (use assms(2) that in simp_all)
  then show ?thesis using ck by (simp add: vmm_first_tables_def p image_zero_def)
qed

theorem kernel_size_check_weak_witness:
  "check_kernel_size 600 \<and> vmm_first_tables
     \<lparr>bootstrap_pml4 = 0x1000, bootstrap_pml3 = 0x2000, bootstrap_pd = 0x3000,
      low_identity_pde = 0x4000, kernel_pde = 0x5000\<rparr>
     (example_machine\<lparr>pmm := pmm_example\<lparr>kernel_start := 0x100000, kernel_end := 0x358000,
        kernel_page_count := 600\<rparr>\<rparr>) = None"
  using kernel_size_check_weak [of "example_machine\<lparr>pmm := pmm_example\<lparr>kernel_start := 0x100000,
    kernel_end := 0x358000, kernel_page_count := 600\<rparr>\<rparr>"] by simp

end
