(* ===== verification/Slab.thy ===== *)
theory Slab
  imports Bitmap "HOL-Library.Monad_Syntax"
begin

text \<open>
  The slab allocator of \<^verbatim>\<open>kernel/memory/slab.c\<close>: ten classes of object sizes, each a linked list of
  slabs, a slab a block of memory cut into objects with a bitmap of those in use. Every object begins
  with a header of 24 bytes that leads back to its slab.

  Addresses are natural numbers, the null pointer is 0: a block that \<open>malloc\<close> returns ends below
  \<open>2 ^ 64\<close>. Sizes are words, since the size asked for may be anything. What \<open>malloc\<close> and \<open>calloc\<close>
  return is an argument of the operations; \<open>freed\<close> lists what was given back. The headers are a map
  from their address. Interrupts are off during each operation.
\<close>

section \<open>Model\<close>

abbreviation SLAB_MAGIC :: u64 where "SLAB_MAGIC \<equiv> 0x48534C4142"
abbreviation SLAB_BIG_CLASS :: u64 where "SLAB_BIG_CLASS \<equiv> - 1"
abbreviation SLAB_CLASS_COUNT :: nat where "SLAB_CLASS_COUNT \<equiv> 10"
abbreviation SIZEOF_OBJECT_HEADER :: nat where "SIZEOF_OBJECT_HEADER \<equiv> 24"

record slab_object_header =
  magic :: u64
  class_idx :: u64
  slab_of :: nat

record slab =
  raw_page :: nat
  page :: nat
  slab_bitmap :: bitmap
  next_slab :: nat
  object_count :: u64
  free_count :: u64

record slab_state =
  slabs :: "nat \<Rightarrow> slab"
  slab_classes :: "nat \<Rightarrow> nat"
  headers :: "nat \<Rightarrow> slab_object_header"
  freed :: "nat list"

definition slab_class_sizes :: "u64 list" where
  "slab_class_sizes = [32, 64, 128, 256, 512, 1024, 2048, 4096, 8192, 16384]"

text \<open>The loop over the classes; \<open>None\<close> is \<open>-1\<close>.\<close>

fun class_from :: "u64 \<Rightarrow> nat \<Rightarrow> u64 list \<Rightarrow> nat option" where
  "class_from needed idx [] = None"
| "class_from needed idx (c # cs) = (if needed \<le> c then Some idx else class_from needed (Suc idx) cs)"

definition slab_class_for_size :: "u64 \<Rightarrow> nat option" where
  "slab_class_for_size sz = class_from (sz + word_of_nat SIZEOF_OBJECT_HEADER) 0 slab_class_sizes"

definition slab_pages_for_class :: "nat \<Rightarrow> u64" where
  "slab_pages_for_class ci = (slab_class_sizes ! ci + 4096 - 1) div 4096"

definition slab_align_up :: "nat \<Rightarrow> nat \<Rightarrow> nat" where
  "slab_align_up addr alignment = (addr + alignment - 1) div alignment * alignment"

definition objects_in_class :: "nat \<Rightarrow> u64" where
  "objects_in_class ci = slab_pages_for_class ci * 4096 div slab_class_sizes ! ci"

abbreviation class_size :: "nat \<Rightarrow> nat" where
  "class_size ci \<equiv> unat (slab_class_sizes ! ci)"

text \<open>The loop that writes the headers of a new slab.\<close>

definition write_headers ::
  "nat \<Rightarrow> nat \<Rightarrow> nat \<Rightarrow> nat \<Rightarrow> (nat \<Rightarrow> slab_object_header) \<Rightarrow> nat \<Rightarrow> slab_object_header"
where
  "write_headers pg ci sl n h =
     fold (\<lambda>idx h. h(pg + idx * class_size ci :=
         \<lparr>magic = SLAB_MAGIC, class_idx = word_of_nat ci, slab_of = sl\<rparr>)) [0..<n] h"

text \<open>\<open>sl\<close>, \<open>bs\<close> and \<open>raw\<close> are the results of the three allocations.\<close>

definition slab_grow :: "nat \<times> nat \<times> nat \<Rightarrow> nat \<Rightarrow> slab_state \<Rightarrow> nat \<times> slab_state" where
  "slab_grow mallocs ci st =
     (case mallocs of (sl, bs, raw) \<Rightarrow>
        let n = objects_in_class ci;
            bitmap_bytes = bitmap_storage_size n
        in if sl = 0 \<or> bs = 0 \<or> raw = 0
           then (0, st\<lparr>freed := filter (\<lambda>a. a \<noteq> 0) [raw, bs, sl] @ freed st\<rparr>)
           else
             (let pg = slab_align_up raw 8
              in (sl, st\<lparr>slabs := (slabs st)(sl :=
                       \<lparr>raw_page = raw, page = pg,
                        slab_bitmap = bitmap_init (Some (replicate (unat bitmap_bytes) 0)) n False,
                        next_slab = slab_classes st ci, object_count = n, free_count = n\<rparr>),
                     headers := write_headers pg ci sl (unat n) (headers st),
                     slab_classes := (slab_classes st)(ci := sl)\<rparr>)))"

text \<open>The first slab of a class with a free object, 0 if there is none.\<close>

partial_function (option) find_slab :: "slab_state \<Rightarrow> nat \<Rightarrow> nat option" where
  "find_slab st sl =
     (if sl \<noteq> 0 \<and> free_count (slabs st sl) = 0 then find_slab st (next_slab (slabs st sl))
      else Some sl)"

definition upd_slab :: "nat \<Rightarrow> (slab \<Rightarrow> slab) \<Rightarrow> slab_state \<Rightarrow> slab_state" where
  "upd_slab sl f st = st\<lparr>slabs := (slabs st)(sl := f (slabs st sl))\<rparr>"

text \<open>The end of \<open>slab_alloc\<close>, with the slab and the object chosen.\<close>

definition take_object :: "nat \<Rightarrow> nat \<Rightarrow> u64 \<Rightarrow> slab_state \<Rightarrow> nat \<times> slab_state" where
  "take_object ci sl idx st =
     (page (slabs st sl) + unat idx * class_size ci + SIZEOF_OBJECT_HEADER,
      upd_slab sl (\<lambda>x. x\<lparr>slab_bitmap := snd (bitmap_set (slab_bitmap x) idx),
        free_count := free_count x - 1\<rparr>) st)"

text \<open>\<open>big\<close> is what \<open>malloc\<close> returns for an object too large for the classes, \<open>grow\<close> what the
  allocations of the first and the second growth return.\<close>

definition slab_alloc ::
  "nat \<Rightarrow> (nat \<Rightarrow> nat \<times> nat \<times> nat) \<Rightarrow> u64 \<Rightarrow> slab_state \<Rightarrow> (nat \<times> slab_state) option"
where
  "slab_alloc big grow sz st =
     (let sz = (if sz = 0 then 1 else sz)
      in case slab_class_for_size sz of
           None \<Rightarrow>
             if big = 0 then Some (0, st)
             else Some (big + SIZEOF_OBJECT_HEADER,
               st\<lparr>headers := (headers st)(big :=
                 \<lparr>magic = SLAB_MAGIC, class_idx = SLAB_BIG_CLASS, slab_of = 0\<rparr>)\<rparr>)
         | Some ci \<Rightarrow> do {
             sl \<leftarrow> find_slab st (slab_classes st ci);
             let (sl, st) = (if sl = 0 then slab_grow (grow 0) ci st else (sl, st));
             if sl = 0 \<or> free_count (slabs st sl) = 0 then Some (0, st)
             else
               (case bitmap_find_clear (slab_bitmap (slabs st sl)) of
                  Some idx \<Rightarrow> Some (take_object ci sl idx st)
                | None \<Rightarrow>
                    (let (sl, st) = slab_grow (grow 1) ci st
                     in if sl = 0 then Some (0, st)
                        else
                          (case bitmap_find_clear (slab_bitmap (slabs st sl)) of
                             None \<Rightarrow> Some (0, st)
                           | Some idx \<Rightarrow> Some (take_object ci sl idx st)))) })"

definition slab_free :: "nat \<Rightarrow> slab_state \<Rightarrow> slab_state" where
  "slab_free ptr st =
     (if ptr = 0 then st
      else
        (let header = ptr - SIZEOF_OBJECT_HEADER; h = headers st header
         in if magic h \<noteq> SLAB_MAGIC then st
            else if class_idx h = SLAB_BIG_CLASS
            then st\<lparr>headers := (headers st)(header := h\<lparr>magic := 0\<rparr>), freed := header # freed st\<rparr>
            else if word_of_nat SLAB_CLASS_COUNT \<le> class_idx h \<or> slab_of h = 0 then st
            else
              (let sl = slabs st (slab_of h);
                   csize = class_size (unat (class_idx h))
               in if header < page sl then st
                  else
                    (let offset = header - page sl
                     in if offset mod csize \<noteq> 0 then st
                        else
                          (let idx = word_of_nat (offset div csize)
                           in if object_count sl \<le> idx \<or> \<not> bitmap_get (slab_bitmap sl) idx then st
                              else upd_slab (slab_of h) (\<lambda>x. x\<lparr>
                                slab_bitmap := snd (bitmap_clear (slab_bitmap x) idx),
                                free_count := free_count x + 1\<rparr>) st)))))"

section \<open>Invariant\<close>

lemma class_facts:
  assumes "ci < 10"
  shows "0 < unat (objects_in_class ci)" "unat (objects_in_class ci) \<le> 128" "32 \<le> class_size ci"
proof -
  have "ci \<in> {0, 1, 2, 3, 4, 5, 6, 7, 8, 9}" using assms by auto
  then show "0 < unat (objects_in_class ci)" "unat (objects_in_class ci) \<le> 128" "32 \<le> class_size ci"
    by (auto simp: objects_in_class_def slab_pages_for_class_def slab_class_sizes_def word_div_def)
qed

text \<open>The memory of a slab's objects, and the payloads of the objects in use.\<close>

definition span :: "nat \<Rightarrow> nat \<Rightarrow> nat set" where
  "span ci pg = {pg..<pg + unat (objects_in_class ci) * class_size ci}"

definition payload :: "nat \<Rightarrow> nat \<Rightarrow> nat \<Rightarrow> nat \<times> nat" where
  "payload ci pg i = (pg + i * class_size ci + SIZEOF_OBJECT_HEADER, class_size ci - SIZEOF_OBJECT_HEADER)"

definition in_use :: "nat \<Rightarrow> slab \<Rightarrow> (nat \<times> nat) set" where
  "in_use ci x = payload ci (page x) ` ({..<unat (objects_in_class ci)} - bm_free (slab_bitmap x))"

definition slab_ok :: "nat \<Rightarrow> slab_state \<Rightarrow> nat \<Rightarrow> bool" where
  "slab_ok ci st sl \<longleftrightarrow>
     (let x = slabs st sl
      in bitmap_wf (slab_bitmap x) \<and> bit_count (slab_bitmap x) = objects_in_class ci \<and>
         object_count x = objects_in_class ci \<and>
         unat (free_count x) = card (bm_free (slab_bitmap x)) \<and>
         (\<forall>i<unat (objects_in_class ci). headers st (page x + i * class_size ci) =
            \<lparr>magic = SLAB_MAGIC, class_idx = word_of_nat ci, slab_of = sl\<rparr>))"

text \<open>\<open>L ci\<close> is the list of the slabs of the class \<open>ci\<close>.\<close>

definition slab_inv :: "(nat \<Rightarrow> nat list) \<Rightarrow> slab_state \<Rightarrow> bool" where
  "slab_inv L st \<longleftrightarrow>
     (\<forall>ci<10. nseg (\<lambda>a. next_slab (slabs st a)) (slab_classes st ci) (L ci) 0 \<and>
        (\<forall>sl\<in>set (L ci). slab_ok ci st sl)) \<and>
     (\<forall>ci<10. \<forall>cj<10. \<forall>a\<in>set (L ci). \<forall>b\<in>set (L cj). (ci, a) \<noteq> (cj, b) \<longrightarrow>
        a \<noteq> b \<and> span ci (page (slabs st a)) \<inter> span cj (page (slabs st b)) = {})"

lemma slab_apart:
  "slab_inv L st \<Longrightarrow> ci < 10 \<Longrightarrow> cj < 10 \<Longrightarrow> a \<in> set (L ci) \<Longrightarrow> b \<in> set (L cj) \<Longrightarrow> (ci, a) \<noteq> (cj, b) \<Longrightarrow>
    a \<noteq> b \<and> span ci (page (slabs st a)) \<inter> span cj (page (slabs st b)) = {}"
  unfolding slab_inv_def by blast

definition live :: "(nat \<Rightarrow> nat list) \<Rightarrow> slab_state \<Rightarrow> (nat \<times> nat) set" where
  "live L st = (\<Union>ci\<in>{..<10}. \<Union>sl\<in>set (L ci). in_use ci (slabs st sl))"

lemma payload_span:
  assumes "ci < 10" "i < unat (objects_in_class ci)" "payload ci pg i = (a, l)"
  shows "{a..<a + l} \<subseteq> span ci pg" "l = class_size ci - 24"
proof -
  have "Suc i * class_size ci \<le> unat (objects_in_class ci) * class_size ci"
    using assms(2) by (intro mult_le_mono1) simp
  then show "{a..<a + l} \<subseteq> span ci pg" "l = class_size ci - 24"
    using assms(3) class_facts(3) [OF assms(1)] by (auto simp: payload_def span_def)
qed


lemma payload_inj: "ci < 10 \<Longrightarrow> payload ci pg i = payload ci pg j \<Longrightarrow> i = j"
  using class_facts(3) [of ci] by (auto simp: payload_def)


section \<open>Searching and changing one slab\<close>

lemma find_slab_list:
  "nseg (\<lambda>a. next_slab (slabs st a)) a xs 0 \<Longrightarrow>
   \<exists>sl. find_slab st a = Some sl \<and> (sl = 0 \<or> sl \<in> set xs \<and> free_count (slabs st sl) \<noteq> 0)"
proof (induction xs arbitrary: a)
  case Nil
  then show ?case by (subst find_slab.simps) simp
next
  case (Cons x xs)
  show ?case
  proof (cases "free_count (slabs st x) = 0")
    case True
    then have "find_slab st a = find_slab st (next_slab (slabs st x))"
      using Cons.prems by (subst find_slab.simps) simp
    then show ?thesis using Cons.IH [of "next_slab (slabs st x)"] Cons.prems by auto
  next
    case False
    then show ?thesis using Cons.prems by (subst find_slab.simps) simp
  qed
qed

lemma in_use_span: "ci < 10 \<Longrightarrow> (a, l) \<in> in_use ci x \<Longrightarrow> a \<in> span ci (page x)"
proof -
  assume ci: "ci < 10" and "(a, l) \<in> in_use ci x"
  then obtain i where i: "i < unat (objects_in_class ci)" "payload ci (page x) i = (a, l)"
    by (auto simp: in_use_def)
  have "0 < l" using payload_span(2) [OF ci i] class_facts(3) [OF ci] by simp
  then show ?thesis using payload_span(1) [OF ci i] by auto
qed

lemma upd_slab_spec:
  assumes inv: "slab_inv L st" and sl: "ci < 10" "sl \<in> set (L ci)"
    and b: "bitmap_wf b" "bit_count b = objects_in_class ci" "unat c = card (bm_free b)"
  defines "x \<equiv> (slabs st sl)\<lparr>slab_bitmap := b, free_count := c\<rparr>"
  shows "slab_inv L (st\<lparr>slabs := (slabs st)(sl := x)\<rparr>)"
    "live L (st\<lparr>slabs := (slabs st)(sl := x)\<rparr>) = live L st - in_use ci (slabs st sl) \<union> in_use ci x"
proof -
  let ?st = "st\<lparr>slabs := (slabs st)(sl := x)\<rparr>"
  have only: "cj = ci" if "cj < 10" "sl \<in> set (L cj)" for cj
    using slab_apart [OF inv that(1) sl(1) that(2) sl(2)] by auto
  have pg: "page (slabs ?st a) = page (slabs st a)" "next_slab (slabs ?st a) = next_slab (slabs st a)"
    "slab_classes ?st = slab_classes st" for a
    by (simp_all add: x_def)
  have "slab_ok cj ?st a" if "cj < 10" "a \<in> set (L cj)" for cj a
  proof (cases "a = sl")
    case True
    then have "cj = ci" using only that by simp
    moreover have "slab_ok ci st sl" using inv sl by (simp add: slab_inv_def)
    ultimately show ?thesis using True b by (simp add: slab_ok_def Let_def x_def)
  next
    case False
    then show ?thesis using inv that by (simp add: slab_inv_def slab_ok_def)
  qed
  then show "slab_inv L ?st" using inv unfolding slab_inv_def pg by blast
  have other: "in_use cj (slabs st a) \<inter> in_use ci (slabs st sl) = {}"
    if "cj < 10" "a \<in> set (L cj)" "a \<noteq> sl" for cj a
  proof -
    have "span cj (page (slabs st a)) \<inter> span ci (page (slabs st sl)) = {}"
      using slab_apart [OF inv that(1) sl(1) that(2) sl(2)] that(3) by auto
    then show ?thesis
      using in_use_span [OF that(1), of _ _ "slabs st a"] in_use_span [OF sl(1), of _ _ "slabs st sl"]
      by fastforce
  qed
  show "live L ?st = live L st - in_use ci (slabs st sl) \<union> in_use ci x"
  proof (intro equalityI subsetI)
    fix y assume "y \<in> live L ?st"
    then obtain cj a where a: "cj < 10" "a \<in> set (L cj)" "y \<in> in_use cj (slabs ?st a)"
      by (auto simp: live_def)
    then show "y \<in> live L st - in_use ci (slabs st sl) \<union> in_use ci x"
      using only [of cj] other [of cj a] by (cases "a = sl") (auto simp: live_def)
  next
    fix y assume "y \<in> live L st - in_use ci (slabs st sl) \<union> in_use ci x"
    then consider "y \<in> in_use ci x" | cj a where "cj < 10" "a \<in> set (L cj)" "y \<in> in_use cj (slabs st a)"
      "y \<notin> in_use ci (slabs st sl)"
      by (auto simp: live_def)
    then show "y \<in> live L ?st"
    proof cases
      case 1
      then show ?thesis using sl by (auto simp: live_def)
    next
      case 2
      then have "a \<noteq> sl" using only [of cj] by auto
      then show ?thesis using 2 by (auto simp: live_def)
    qed
  qed
qed

lemma take_object_spec:
  assumes inv: "slab_inv L st" and sl: "ci < 10" "sl \<in> set (L ci)"
    and idx: "bitmap_find_clear (slab_bitmap (slabs st sl)) = Some idx"
    and res: "take_object ci sl idx st = (p, st')"
  shows "slab_inv L st'" "live L st' = insert (p, class_size ci - 24) (live L st)"
    "(p, class_size ci - 24) \<notin> live L st" "p \<noteq> 0"
proof -
  let ?x = "slabs st sl" and ?b = "slab_bitmap (slabs st sl)"
  have ok: "bitmap_wf ?b" "bit_count ?b = objects_in_class ci" "unat (free_count ?x) = card (bm_free ?b)"
    using inv sl by (auto simp: slab_inv_def slab_ok_def Let_def)
  note step = bm.take_step [OF ok(1) idx]
  let ?b' = "snd (bitmap_set ?b idx)"
  have bound: "unat idx < unat (objects_in_class ci)"
    using bm.find_capacity [OF ok(1) idx] ok(2) by simp
  have "free_count ?x \<noteq> 0" using ok(3) step(5) by auto
  then have c: "unat (free_count ?x - 1) = card (bm_free ?b')"
    using ok(3) step(5) by (simp add: unat_minus_one)
  have cnt: "bit_count ?b' = objects_in_class ci" using step(2) ok(2) by (metis unat_inj)
  note upd = upd_slab_spec [OF inv sl step(1) cnt c]
  have st': "st' = st\<lparr>slabs := (slabs st)(sl := ?x\<lparr>slab_bitmap := ?b', free_count := free_count ?x - 1\<rparr>)\<rparr>"
    and p: "(p, class_size ci - 24) = payload ci (page ?x) (unat idx)"
    using res by (auto simp: take_object_def upd_slab_def payload_def)
  show "slab_inv L st'" unfolding st' by (rule upd(1))
  have fresh: "(p, class_size ci - 24) \<notin> in_use ci ?x"
    using payload_inj [OF sl(1)] step(4) unfolding p by (auto simp: in_use_def)
  have use: "in_use ci (?x\<lparr>slab_bitmap := ?b', free_count := free_count ?x - 1\<rparr>) =
      insert (p, class_size ci - 24) (in_use ci ?x)"
    using bound step(3,4) unfolding p by (auto simp: in_use_def)
  have sub: "in_use ci ?x \<subseteq> live L st" using sl by (auto simp: live_def)
  show "live L st' = insert (p, class_size ci - 24) (live L st)"
    unfolding st' upd(2) use using sub by auto
  show "p \<noteq> 0" using p by (simp add: payload_def)
  have "slab_inv L st'" unfolding st' by (rule upd(1))
  show "(p, class_size ci - 24) \<notin> live L st"
  proof
    assume "(p, class_size ci - 24) \<in> live L st"
    then obtain cj a where a: "cj < 10" "a \<in> set (L cj)" "(p, class_size ci - 24) \<in> in_use cj (slabs st a)"
      by (auto simp: live_def)
    then have "(cj, a) \<noteq> (ci, sl)" using fresh by auto
    then have "span cj (page (slabs st a)) \<inter> span ci (page ?x) = {}"
      using slab_apart [OF inv a(1) sl(1) a(2) sl(2)] by auto
    moreover have "p \<in> span cj (page (slabs st a))" using in_use_span [OF a(1,3)] .
    moreover have "p \<in> span ci (page ?x)"
      using payload_span(1) [OF sl(1) bound p [symmetric]] class_facts(3) [OF sl(1)] by auto
    ultimately show False by blast
  qed
qed

section \<open>A new slab\<close>

text \<open>What \<open>malloc\<close> promises: the blocks it returns overlap nothing that is in use.\<close>

definition fresh_blocks :: "(nat \<Rightarrow> nat list) \<Rightarrow> slab_state \<Rightarrow> nat \<Rightarrow> nat \<times> nat \<times> nat \<Rightarrow> bool" where
  "fresh_blocks L st ci mallocs \<longleftrightarrow>
     (case mallocs of (sl, bs, raw) \<Rightarrow>
        \<forall>cj<10. \<forall>a\<in>set (L cj). a \<noteq> sl \<and>
          span cj (page (slabs st a)) \<inter> span ci (slab_align_up raw 8) = {})"

lemma write_headers_apply:
  "write_headers pg ci sl n h a =
     (if \<exists>i<n. a = pg + i * class_size ci
      then \<lparr>magic = SLAB_MAGIC, class_idx = word_of_nat ci, slab_of = sl\<rparr> else h a)"
  by (induction n) (auto simp: write_headers_def less_Suc_eq)

lemma header_span: "ci < 10 \<Longrightarrow> i < unat (objects_in_class ci) \<Longrightarrow> pg + i * class_size ci \<in> span ci pg"
  using class_facts(3) [of ci] by (simp add: span_def)

lemma new_bitmap:
  assumes "ci < 10"
  defines "b \<equiv> bitmap_init (Some (replicate (unat (bitmap_storage_size (objects_in_class ci))) 0))
    (objects_in_class ci) False"
  shows "bitmap_wf b" "bm_free b = {..<unat (objects_in_class ci)}" "bit_count b = objects_in_class ci"
proof -
  have "unat (objects_in_class ci) + 7 < 2 ^ 64" using class_facts(2) [OF assms(1)] by simp
  from bitmap_init_spec [OF this, of "replicate (unat (bitmap_storage_size (objects_in_class ci))) 0" False]
  show "bitmap_wf b" "bm_free b = {..<unat (objects_in_class ci)}" by (simp_all add: b_def)
  show "bit_count b = objects_in_class ci"
    by (simp add: b_def bitmap_init_def Let_def)
qed

lemma freed_irrelevant:
  "slab_inv L (st\<lparr>freed := fr\<rparr>) = slab_inv L st" "live L (st\<lparr>freed := fr\<rparr>) = live L st"
  unfolding slab_inv_def slab_ok_def live_def by simp_all

lemma slab_grow_spec:
  assumes inv: "slab_inv L st" and ci: "ci < 10" and fresh: "fresh_blocks L st ci mallocs"
    and res: "slab_grow mallocs ci st = (sl, st')"
  shows "sl = 0 \<Longrightarrow> slab_inv L st' \<and> live L st' = live L st"
    "sl \<noteq> 0 \<Longrightarrow> slab_inv (L(ci := sl # L ci)) st' \<and> live (L(ci := sl # L ci)) st' = live L st \<and>
       free_count (slabs st' sl) \<noteq> 0"
proof -
  obtain s0 bs raw where m: "mallocs = (s0, bs, raw)" by (metis prod_cases3)
  show "slab_inv L st' \<and> live L st' = live L st" if "sl = 0"
  proof -
    have "st' = st\<lparr>freed := freed st'\<rparr>"
      using res that unfolding m slab_grow_def Let_def by (auto split: if_splits)
    then show ?thesis using inv freed_irrelevant by metis
  qed
  assume nz: "sl \<noteq> 0"
  let ?n = "objects_in_class ci" and ?pg = "slab_align_up raw 8"
  let ?b = "bitmap_init (Some (replicate (unat (bitmap_storage_size ?n)) 0)) ?n False"
  let ?x = "\<lparr>raw_page = raw, page = ?pg, slab_bitmap = ?b, next_slab = slab_classes st ci,
    object_count = ?n, free_count = ?n\<rparr>"
  let ?L = "L(ci := sl # L ci)"
  have st': "st' = st\<lparr>slabs := (slabs st)(sl := ?x), headers := write_headers ?pg ci sl (unat ?n) (headers st),
      slab_classes := (slab_classes st)(ci := sl)\<rparr>" and s0: "s0 = sl"
    using res nz by (auto simp: m slab_grow_def Let_def split: if_splits)
  note nb = new_bitmap [OF ci]
  have out: "a \<noteq> sl" "span cj (page (slabs st a)) \<inter> span ci ?pg = {}" if "cj < 10" "a \<in> set (L cj)" for cj a
    using fresh that by (auto simp: fresh_blocks_def m s0)
  have x: "slabs st' sl = ?x" "\<And>a. a \<noteq> sl \<Longrightarrow> slabs st' a = slabs st a" by (simp_all add: st')
  have ok: "slab_ok cj st' a" if "cj < 10" "a \<in> set (L cj)" for cj a
  proof -
    have "slab_ok cj st a" using inv that by (simp add: slab_inv_def)
    moreover have "headers st' (page (slabs st a) + i * class_size cj) =
        headers st (page (slabs st a) + i * class_size cj)" if "i < unat (objects_in_class cj)" for i
      using header_span [OF \<open>cj < 10\<close> that, of "page (slabs st a)"] header_span [OF ci, of _ ?pg]
        out(2) [OF \<open>cj < 10\<close> \<open>a \<in> set (L cj)\<close>]
      by (auto simp: st' write_headers_apply)
    ultimately show ?thesis using x(2) [OF out(1) [OF that]] by (simp add: slab_ok_def)
  qed
  have okn: "slab_ok ci st' sl"
    using nb by (auto simp: slab_ok_def x(1) Let_def st' write_headers_apply)
  have seg: "nseg (\<lambda>a. next_slab (slabs st' a)) (slab_classes st' cj) (?L cj) 0" if cj: "cj < 10" for cj
  proof -
    have old: "nseg (\<lambda>a. next_slab (slabs st' a)) (slab_classes st cj) (L cj) 0"
    proof -
      have "nseg (\<lambda>a. next_slab (slabs st a)) (slab_classes st cj) (L cj) 0"
        using inv cj by (simp add: slab_inv_def)
      then show ?thesis
        using nseg_cong [of "L cj" "\<lambda>a. next_slab (slabs st a)" "\<lambda>a. next_slab (slabs st' a)"]
          x(2) out(1) [OF cj] by metis
    qed
    then show ?thesis using nz x(1) by (cases "cj = ci") (simp_all add: st')
  qed
  have apart: "a \<noteq> b \<and> span ca (page (slabs st' a)) \<inter> span cb (page (slabs st' b)) = {}"
    if a: "ca < 10" "a \<in> set (?L ca)" and b: "cb < 10" "b \<in> set (?L cb)" and ne: "(ca, a) \<noteq> (cb, b)" for ca cb a b
  proof -
    consider "a \<in> set (L ca)" "b \<in> set (L cb)" | "ca = ci" "a = sl" "b \<in> set (L cb)"
      | "cb = ci" "b = sl" "a \<in> set (L ca)"
      using a(2) b(2) ne by (auto split: if_splits)
    then show ?thesis
    proof cases
      case 1
      then show ?thesis using slab_apart [OF inv a(1) b(1) 1 ne] x(2) out(1) a(1) b(1) by metis
    next
      case 2
      then show ?thesis using out [OF b(1) 2(3)] x by auto
    next
      case 3
      then show ?thesis using out [OF a(1) 3(3)] x by auto
    qed
  qed
  have "slab_ok cj st' a" if "cj < 10" "a \<in> set (?L cj)" for cj a
    using that ok okn by (cases "cj = ci") auto
  then have "slab_inv ?L st'" unfolding slab_inv_def using seg apart by blast
  moreover have "live ?L st' = live L st"
  proof -
    have none: "in_use ci (slabs st' sl) = {}" using nb(2) by (simp add: in_use_def x(1))
    have same: "(\<Union>a\<in>set (L cj). in_use cj (slabs st' a)) = (\<Union>a\<in>set (L cj). in_use cj (slabs st a))"
      if "cj < 10" for cj
      using x(2) out(1) [OF that] by (intro SUP_cong) auto
    have "(\<Union>a\<in>set (?L cj). in_use cj (slabs st' a)) = (\<Union>a\<in>set (L cj). in_use cj (slabs st a))"
      if "cj < 10" for cj
      using same [OF that] none by (cases "cj = ci") simp_all
    then show ?thesis unfolding live_def by (rule SUP_cong [OF refl]) (simp only: lessThan_iff)
  qed
  moreover have "free_count (slabs st' sl) \<noteq> 0"
    using class_facts(1) [OF ci] by (auto simp: x(1))
  ultimately show "slab_inv ?L st' \<and> live ?L st' = live L st \<and> free_count (slabs st' sl) \<noteq> 0" by blast
qed

section \<open>Freeing an object\<close>

lemma slab_free_spec:
  assumes inv: "slab_inv L st" and p: "(p, l) \<in> live L st"
  shows "slab_inv L (slab_free p st)" "live L (slab_free p st) = live L st - {(p, l)}"
proof -
  obtain ci sl i where o: "ci < 10" "sl \<in> set (L ci)" "i < unat (objects_in_class ci)"
    "i \<notin> bm_free (slab_bitmap (slabs st sl))" "payload ci (page (slabs st sl)) i = (p, l)"
    using p by (auto simp: live_def in_use_def)
  let ?x = "slabs st sl" and ?b = "slab_bitmap (slabs st sl)"
  have ok: "bitmap_wf ?b" "bit_count ?b = objects_in_class ci" "object_count ?x = objects_in_class ci"
    "unat (free_count ?x) = card (bm_free ?b)"
    "headers st (page ?x + i * class_size ci) = \<lparr>magic = SLAB_MAGIC, class_idx = word_of_nat ci, slab_of = sl\<rparr>"
    using inv o(1-3) by (auto simp: slab_inv_def slab_ok_def Let_def)
  have nz: "sl \<noteq> 0" using inv o(1,2) nseg_nonzero by (fastforce simp: slab_inv_def)
  define idx :: u64 where "idx = word_of_nat i"
  have ui: "unat idx = i" using o(3) class_facts(2) [OF o(1)] by (simp add: idx_def unat_of_nat_small)
  have lt: "idx < bit_count ?b" using o(3) ui ok(2) by (simp add: word_less_nat_alt)
  have cs: "0 < class_size ci" using class_facts(3) [OF o(1)] by simp
  have hd: "p - 24 = page ?x + i * class_size ci" "p \<noteq> 0" using o(5) by (auto simp: payload_def)
  have uc: "unat (word_of_nat ci :: u64) = ci" using o(1) by (simp add: unat_of_nat_small)
  have cls: "\<not> word_of_nat 10 \<le> (word_of_nat ci :: u64)" "(word_of_nat ci :: u64) \<noteq> - 1"
    using o(1) uc by (auto simp: word_le_nat_alt dest: arg_cong [of _ _ unat])
  obtain bytes where "storage ?b = Some bytes" using ok(1) by (auto simp: bitmap_wf_def)
  from bitmap_get_used [OF this] have get: "bitmap_get ?b idx"
    using o(3,4) ok(2) by (simp add: bm_used_free ui)
  let ?b' = "snd (bitmap_clear ?b idx)"
  have st': "slab_free p st =
      st\<lparr>slabs := (slabs st)(sl := ?x\<lparr>slab_bitmap := ?b', free_count := free_count ?x + 1\<rparr>)\<rparr>"
    using hd ok(3,5) cls nz cs get lt ok(2)
    by (simp add: slab_free_def Let_def uc upd_slab_def idx_def [symmetric])
  note rel = bm.release_ok [OF ok(1), of idx]
  have r: "bitmap_wf ?b'" "bit_count ?b' = objects_in_class ci" "bm_free ?b' = insert i (bm_free ?b)"
    using rel lt ok(2) ui by (auto simp: word_less_nat_alt intro: unat_inj)
  have "card (bm_free ?b') = Suc (card (bm_free ?b))"
    using r(3) o(4) bm.finite_free [OF ok(1)] by simp
  moreover have "card (bm_free ?b) \<le> 128"
  proof -
    have "card (bm_free ?b) \<le> card {..<unat (objects_in_class ci)}"
      using bm.free_bound [OF ok(1)] ok(2) by (intro card_mono) simp_all
    then show ?thesis using class_facts(2) [OF o(1)] by simp
  qed
  ultimately have c: "unat (free_count ?x + 1) = card (bm_free ?b')"
    using ok(4) unat_suc_small [of "free_count ?x"] by simp
  note upd = upd_slab_spec [OF inv o(1,2) r(1,2) c]
  show "slab_inv L (slab_free p st)" unfolding st' by (rule upd(1))
  have "in_use ci (?x\<lparr>slab_bitmap := ?b', free_count := free_count ?x + 1\<rparr>) = in_use ci ?x - {(p, l)}"
  proof -
    have "inj (payload ci (page ?x))" using payload_inj [OF o(1)] by (auto intro: injI)
    note diff = image_set_diff [OF this, of "{..<unat (objects_in_class ci)} - bm_free ?b" "{i}"]
    have "{..<unat (objects_in_class ci)} - bm_free ?b' = {..<unat (objects_in_class ci)} - bm_free ?b - {i}"
      using r(3) by auto
    moreover have "in_use ci (?x\<lparr>slab_bitmap := ?b', free_count := free_count ?x + 1\<rparr>) =
        payload ci (page ?x) ` ({..<unat (objects_in_class ci)} - bm_free ?b')"
      by (simp add: in_use_def)
    ultimately show ?thesis using diff o(5) by (simp add: in_use_def)
  qed
  moreover have "in_use ci ?x \<subseteq> live L st" using o(1,2) by (auto simp: live_def)
  moreover have "(p, l) \<in> in_use ci ?x" using o(3-5) by (force simp: in_use_def)
  ultimately show "live L (slab_free p st) = live L st - {(p, l)}" unfolding st' upd(2) by auto
qed

section \<open>Allocating an object\<close>

lemma class_from_bound: "class_from n i cs = Some ci \<Longrightarrow> i \<le> ci \<and> ci < i + length cs \<and> n \<le> cs ! (ci - i)"
proof (induction cs arbitrary: i)
  case (Cons c cs)
  then show ?case
  proof (cases "n \<le> c")
    case False
    then show ?thesis using Cons.IH [of "Suc i"] Cons.prems by (auto simp: nth_Cons' Suc_diff_le)
  qed simp
qed simp

lemma class_for_size:
  assumes "slab_class_for_size sz = Some ci"
  shows "ci < 10" "unat (sz + 24) \<le> class_size ci"
  using class_from_bound [OF assms [unfolded slab_class_for_size_def]]
  by (simp_all add: slab_class_sizes_def word_le_nat_alt)

lemma slab_find_clear:
  assumes "slab_inv L st" "ci < 10" "sl \<in> set (L ci)" "free_count (slabs st sl) \<noteq> 0"
  shows "\<exists>idx. bitmap_find_clear (slab_bitmap (slabs st sl)) = Some idx"
proof -
  have ok: "bitmap_wf (slab_bitmap (slabs st sl))"
    "unat (free_count (slabs st sl)) = card (bm_free (slab_bitmap (slabs st sl)))"
    using assms(1-3) by (auto simp: slab_inv_def slab_ok_def Let_def)
  then have "bm_free (slab_bitmap (slabs st sl)) \<noteq> {}" using assms(4) by (auto simp: unat_eq_0)
  then show ?thesis using bm.find_none [OF ok(1)] by auto
qed

lemma slab_alloc_spec:
  assumes inv: "slab_inv L st" and ci: "slab_class_for_size (if sz = 0 then 1 else sz) = Some ci"
    and fresh: "fresh_blocks L st ci (grow 0)"
  shows "\<exists>p st' L'. slab_alloc big grow sz st = Some (p, st') \<and> slab_inv L' st' \<and>
    (if p = 0 then live L' st' = live L st \<and> fst (slab_grow (grow 0) ci st) = 0
     else live L' st' = insert (p, class_size ci - 24) (live L st) \<and>
       (p, class_size ci - 24) \<notin> live L st)"
proof -
  note c10 = class_for_size(1) [OF ci]
  have seg: "nseg (\<lambda>a. next_slab (slabs st a)) (slab_classes st ci) (L ci) 0"
    using inv c10 by (simp add: slab_inv_def)
  obtain sl where sl: "find_slab st (slab_classes st ci) = Some sl"
    "sl = 0 \<or> sl \<in> set (L ci) \<and> free_count (slabs st sl) \<noteq> 0"
    using find_slab_list [OF seg] by blast
  show ?thesis
  proof (cases "sl = 0")
    case False
    then have h: "sl \<in> set (L ci)" "free_count (slabs st sl) \<noteq> 0" using sl(2) by auto
    obtain idx where idx: "bitmap_find_clear (slab_bitmap (slabs st sl)) = Some idx"
      using slab_find_clear [OF inv c10 h] by blast
    obtain p st' where t: "take_object ci sl idx st = (p, st')" by (metis surj_pair)
    have "slab_alloc big grow sz st = Some (p, st')"
      using ci sl(1) False h(2) idx t by (simp add: slab_alloc_def Let_def)
    then show ?thesis using take_object_spec [OF inv c10 h(1) idx t] by auto
  next
    case True
    obtain s1 st1 where g: "slab_grow (grow 0) ci st = (s1, st1)" by (metis surj_pair)
    note gs = slab_grow_spec [OF inv c10 fresh g]
    show ?thesis
    proof (cases "s1 = 0")
      case zero: True
      then have "slab_alloc big grow sz st = Some (0, st1)"
        using ci sl(1) True g by (simp add: slab_alloc_def Let_def)
      then show ?thesis using gs(1) [OF zero] g zero by auto
    next
      case False
      define L' where "L' = L(ci := s1 # L ci)"
      have h: "slab_inv L' st1" "live L' st1 = live L st" "free_count (slabs st1 s1) \<noteq> 0"
        using gs(2) [OF False] unfolding L'_def by blast+
      have m: "s1 \<in> set (L' ci)" by (simp add: L'_def)
      obtain idx where idx: "bitmap_find_clear (slab_bitmap (slabs st1 s1)) = Some idx"
        using slab_find_clear [OF h(1) c10 m h(3)] by blast
      obtain p st' where t: "take_object ci s1 idx st1 = (p, st')" by (metis surj_pair)
      have "slab_alloc big grow sz st = Some (p, st')"
        using ci sl(1) True g False h(3) idx t by (simp add: slab_alloc_def Let_def)
      then show ?thesis using take_object_spec [OF h(1) c10 m idx t] h(2) by auto
    qed
  qed
qed

section \<open>Properties\<close>


definition empty_slabs :: slab_state where
  "empty_slabs = \<lparr>slabs = (\<lambda>_. \<lparr>raw_page = 0, page = 0, slab_bitmap = bitmap_init None 0 False,
     next_slab = 0, object_count = 0, free_count = 0\<rparr>), slab_classes = (\<lambda>_. 0),
     headers = (\<lambda>_. \<lparr>magic = 0, class_idx = 0, slab_of = 0\<rparr>), freed = []\<rparr>"

lemma empty_slabs_inv: "slab_inv (\<lambda>_. []) empty_slabs" "live (\<lambda>_. []) empty_slabs = {}"
  by (simp_all add: slab_inv_def live_def empty_slabs_def)

lemma class_of_40: "slab_class_for_size 40 = Some 1"
  by (simp add: slab_class_for_size_def slab_class_sizes_def)

lemma grow_example: "fst (slab_grow (0x100, 0x200, 0x1000) 1 empty_slabs) \<noteq> 0"
  by (simp add: slab_grow_def Let_def)


text \<open>C39. Freeing a payload in use takes exactly this payload out of use and keeps the slabs well
  formed.\<close>

theorem slab_free_exact:
  assumes "slab_inv L st" "(p, l) \<in> live L st"
  shows "slab_inv L (slab_free p st) \<and> live L (slab_free p st) = live L st - {(p, l)}"
  using slab_free_spec [OF assms] by simp

theorem slab_free_exact_witness:
  "\<exists>p st L. slab_alloc 0 (\<lambda>_. (0x100, 0x200, 0x1000)) 40 empty_slabs = Some (p, st) \<and> 
     live L st = {(p, class_size 1 - 24)} \<and> live L (slab_free p st) = {}"
proof -
  have "fresh_blocks (\<lambda>_. []) empty_slabs 1 (0x100, 0x200, 0x1000)" by (simp add: fresh_blocks_def)
  then obtain p st L where r: "slab_alloc 0 (\<lambda>_. (0x100, 0x200, 0x1000)) 40 empty_slabs = Some (p, st)"
    "slab_inv L st" "live L st = {(p, class_size 1 - 24)}"
    using slab_alloc_spec [where grow = "\<lambda>_. (0x100, 0x200, 0x1000)" and sz = 40 and big = 0 and ci = 1,
        OF empty_slabs_inv(1)] class_of_40
      empty_slabs_inv(2) grow_example
    by (auto split: if_splits)
  have "live L (slab_free p st) = {}"
    using slab_free_exact [OF r(2), of p "class_size 1 - 24"] r(3) by auto
  then show ?thesis using r by blast
qed

text \<open>C40. The sum of the size and the header's size is not checked: a request for one of the 24 largest
  sizes is answered like a request for one byte.\<close>

theorem slab_size_wraps:
  assumes "2 ^ 64 - 24 \<le> unat sz"
  shows "slab_alloc big grow sz st = slab_alloc big grow 1 st"
proof -
  have "unat (sz + 24) = (unat sz + 24) mod 2 ^ 64" by (simp add: unat_word_ariths)
  also have "\<dots> < 24" using assms unat_u64_less [of sz] by (auto simp: mod_if)
  finally have "sz + 24 \<le> 32" by (simp add: word_le_nat_alt)
  moreover have "sz \<noteq> 0" using assms by auto
  ultimately show ?thesis
    by (simp add: slab_alloc_def slab_class_for_size_def slab_class_sizes_def)
qed

theorem slab_size_wraps_witness:
  "slab_alloc 0 (\<lambda>_. (0x100, 0x200, 0x1000)) (- 1) empty_slabs =
   slab_alloc 0 (\<lambda>_. (0x100, 0x200, 0x1000)) 1 empty_slabs"
  by (rule slab_size_wraps) simp

end
