(* ===== verification/Hmalloc.thy ===== *)
theory Hmalloc
  imports Hojicha_Prelude "HOL-Library.Sublist"
begin

text \<open>
  The heap of \<^verbatim>\<open>libc/hmalloc/hmalloc.c\<close>, shared by the kernel and user space. A block is a packed
  header of 25 bytes, the payload and a footer of 8 bytes; the blocks lie one after the other from
  \<open>first_available_vaddr\<close> to \<open>last_footer\<close>, and the free ones are linked in order of address
  through \<open>next\<close>.

  The memory of the headers and footers is one function per field, from the address of the header
  or footer to the field's value; the null pointer is 0. Addresses are natural numbers: what maps
  pages is an argument of the operations that grow the heap, and a region it maps ends below
  \<open>2 ^ 64\<close>, so that no address computed from it wraps. The size check that guards against
  wrap-around, \<open>bytes_to_pages\<close>, is written with its 64-bit bound. Following \<open>next\<close> may not end
  when the list is broken; the loops are partial functions and an operation that does not return
  is \<open>None\<close>. Interrupts are off during each call, which is why no interleaving is modelled.
\<close>

section \<open>Model\<close>

record heap =
  is_free :: "nat \<Rightarrow> bool"
  size_bytes :: "nat \<Rightarrow> nat"
  next_block :: "nat \<Rightarrow> nat"
  footer :: "nat \<Rightarrow> nat"
  header :: "nat \<Rightarrow> nat"
  free_regions :: nat
  heap_grow_size :: nat
  first_available_vaddr :: nat
  last_footer :: nat
  heap_initialized :: bool

abbreviation SIZEOF_HEADER :: nat where "SIZEOF_HEADER \<equiv> 25"
abbreviation SIZEOF_FOOTER :: nat where "SIZEOF_FOOTER \<equiv> 8"
abbreviation BLOCK_OVERHEAD :: nat where "BLOCK_OVERHEAD \<equiv> 33"
abbreviation HPAGE_SIZE :: nat where "HPAGE_SIZE \<equiv> 4096"
abbreviation MAX_GROW_SIZE :: nat where "MAX_GROW_SIZE \<equiv> 160"

definition addr_to_page :: "nat \<Rightarrow> nat" where
  "addr_to_page addr = addr div HPAGE_SIZE"

definition page_to_addr_base :: "nat \<Rightarrow> nat" where
  "page_to_addr_base page = page * HPAGE_SIZE"

definition align_up :: "nat \<Rightarrow> nat \<Rightarrow> nat" where
  "align_up addr alignment = (addr + alignment - 1) div alignment * alignment"

definition bytes_to_pages :: "nat \<Rightarrow> nat option" where
  "bytes_to_pages req =
     (if 18446744073709551615 - BLOCK_OVERHEAD - HPAGE_SIZE + 1 < req then None
      else
        (let pages = addr_to_page (req + BLOCK_OVERHEAD + HPAGE_SIZE - 1)
         in Some (if pages = 0 then 1 else pages)))"

definition initialize_heap_region :: "nat \<Rightarrow> nat \<Rightarrow> heap \<Rightarrow> bool \<times> heap" where
  "initialize_heap_region heap_start pages h =
     (let h = h\<lparr>free_regions := heap_start\<rparr>
      in if heap_start = 0 then (False, h)
         else
           (let sz = page_to_addr_base pages - SIZEOF_HEADER - SIZEOF_FOOTER;
                f = heap_start + SIZEOF_HEADER + sz;
                h = h\<lparr>first_available_vaddr := heap_start,
                      is_free := (is_free h)(heap_start := True),
                      size_bytes := (size_bytes h)(heap_start := sz),
                      next_block := (next_block h)(heap_start := 0),
                      header := (header h)(f := heap_start),
                      footer := (footer h)(heap_start := f),
                      last_footer := f\<rparr>;
                h = (if heap_grow_size h < MAX_GROW_SIZE
                     then h\<lparr>heap_grow_size := heap_grow_size h * 2\<rparr> else h)
            in (True, h\<lparr>heap_initialized := True\<rparr>)))"

text \<open>The kernel's set-up; \<open>map_pages\<close> is \<open>vmm_map\<close> and \<open>heap_start\<close> the first available
  address. The halt on failure is \<open>None\<close>.\<close>

definition hmalloc_initialize :: "(nat \<Rightarrow> nat \<Rightarrow> nat) \<Rightarrow> nat \<Rightarrow> heap \<Rightarrow> heap option" where
  "hmalloc_initialize map_pages heap_start h =
     (let h = h\<lparr>heap_grow_size := 5\<rparr>;
          (ok, h) = initialize_heap_region (map_pages heap_start 5) 5 h
      in if \<not> ok then None else Some h)"

text \<open>The user-space variants; \<open>sbrk\<close> gives \<open>None\<close> where the source's \<open>sbrk\<close> gives \<open>(void* )-1\<close>.
  \<open>INTPTR_MAX\<close> is \<open>2 ^ 63 - 1\<close>.\<close>

definition hmalloc_initialize_user :: "(nat \<Rightarrow> nat option) \<Rightarrow> heap \<Rightarrow> bool \<times> heap" where
  "hmalloc_initialize_user sbrk h =
     (let h = h\<lparr>heap_grow_size := 5\<rparr>;
          bytes = page_to_addr_base (heap_grow_size h)
      in if 9223372036854775807 < bytes then (False, h)
         else
           (case sbrk bytes of
              None \<Rightarrow> (False, h)
            | Some heap_region \<Rightarrow> initialize_heap_region heap_region (heap_grow_size h) h))"

definition map_heap_pages_user :: "(nat \<Rightarrow> nat option) \<Rightarrow> nat \<Rightarrow> nat \<Rightarrow> nat" where
  "map_heap_pages_user sbrk addr pages =
     (let bytes = page_to_addr_base pages
      in if 9223372036854775807 < bytes then 0
         else
           (case sbrk bytes of
              None \<Rightarrow> 0
            | Some mapped \<Rightarrow> if mapped \<noteq> addr then 0 else mapped))"

definition is_block_header_in_heap :: "heap \<Rightarrow> nat \<Rightarrow> bool" where
  "is_block_header_in_heap h block \<longleftrightarrow>
     block \<noteq> 0 \<and> first_available_vaddr h \<le> block \<and> block + SIZEOF_HEADER \<le> last_footer h"

definition is_footer_in_heap :: "heap \<Rightarrow> nat \<Rightarrow> bool" where
  "is_footer_in_heap h f \<longleftrightarrow> f \<noteq> 0 \<and> first_available_vaddr h \<le> f \<and> f \<le> last_footer h"

text \<open>The three loops over the free list.\<close>

partial_function (option) walk_below :: "heap \<Rightarrow> nat \<Rightarrow> nat \<Rightarrow> nat option" where
  "walk_below h block prev =
     (if next_block h prev \<noteq> 0 \<and> next_block h prev < block
      then walk_below h block (next_block h prev) else Some prev)"

partial_function (option) walk_to :: "heap \<Rightarrow> nat \<Rightarrow> nat \<Rightarrow> nat option" where
  "walk_to h block prev =
     (if next_block h prev \<noteq> 0 \<and> next_block h prev \<noteq> block
      then walk_to h block (next_block h prev) else Some prev)"

partial_function (option) walk_until :: "heap \<Rightarrow> nat \<Rightarrow> nat \<Rightarrow> nat option" where
  "walk_until h block prev =
     (if prev \<noteq> 0 \<and> next_block h prev \<noteq> block
      then walk_until h block (next_block h prev) else Some prev)"

definition set_next :: "nat \<Rightarrow> nat \<Rightarrow> heap \<Rightarrow> heap" where
  "set_next b n h = h\<lparr>next_block := (next_block h)(b := n)\<rparr>"

definition insert_free_block :: "heap \<Rightarrow> nat \<Rightarrow> heap option" where
  "insert_free_block h block =
     (if block = 0 then Some h
      else
        (let h = h\<lparr>is_free := (is_free h)(block := True)\<rparr>
         in if free_regions h = 0 \<or> block < free_regions h
            then Some ((set_next block (free_regions h) h)\<lparr>free_regions := block\<rparr>)
            else
              (case walk_below h block (free_regions h) of
                 None \<Rightarrow> None
               | Some prev \<Rightarrow> Some (set_next prev block (set_next block (next_block h prev) h)))))"

partial_function (option) find_first_fit_block :: "heap \<Rightarrow> nat \<Rightarrow> nat \<Rightarrow> nat option" where
  "find_first_fit_block h block req =
     (if block \<noteq> 0 then
        (if req \<le> size_bytes h block \<and> is_free h block then Some block
         else find_first_fit_block h (next_block h block) req)
      else Some 0)"

definition get_next :: "heap \<Rightarrow> nat \<Rightarrow> nat" where
  "get_next h block =
     (if \<not> is_block_header_in_heap h block \<or> \<not> is_footer_in_heap h (footer h block) then 0
      else
        (let nx = footer h block + SIZEOF_FOOTER
         in if last_footer h \<le> nx then 0
            else if \<not> is_block_header_in_heap h nx \<or> \<not> is_footer_in_heap h (footer h nx) then 0
            else if header h (footer h nx) \<noteq> nx then 0
            else nx))"

definition get_previous :: "heap \<Rightarrow> nat \<Rightarrow> nat" where
  "get_previous h block =
     (if \<not> is_block_header_in_heap h block then 0
      else if block < first_available_vaddr h + SIZEOF_HEADER + SIZEOF_FOOTER then 0
      else
        (let previous_footer = block - SIZEOF_FOOTER
         in if \<not> is_footer_in_heap h previous_footer then 0
            else
              (let previous = header h previous_footer
               in if \<not> is_block_header_in_heap h previous then 0
                  else if block \<le> previous then 0
                  else if footer h previous \<noteq> previous_footer then 0
                  else previous)))"

definition merge_blocks :: "nat \<Rightarrow> nat \<Rightarrow> heap \<Rightarrow> heap" where
  "merge_blocks a b h =
     (let h = h\<lparr>header := (header h)(footer h a := 0)\<rparr>;
          h = h\<lparr>footer := (footer h)(a := footer h b)\<rparr>;
          h = h\<lparr>header := (header h)(footer h a := a)\<rparr>;
          h = set_next a (next_block h b) h;
          h = h\<lparr>size_bytes := (size_bytes h)(a := size_bytes h a + (size_bytes h b + BLOCK_OVERHEAD))\<rparr>
      in h\<lparr>is_free := (is_free h)(b := False), size_bytes := (size_bytes h)(b := 0),
           next_block := (next_block h)(b := 0), footer := (footer h)(b := 0)\<rparr>)"

definition remove_from_free_list :: "heap \<Rightarrow> nat \<Rightarrow> heap option" where
  "remove_from_free_list h block =
     (if block = 0 \<or> free_regions h = 0 then Some h
      else if free_regions h = block
      then Some (set_next block 0 (h\<lparr>free_regions := next_block h block\<rparr>))
      else
        (case walk_to h block (free_regions h) of
           None \<Rightarrow> None
         | Some prev \<Rightarrow>
             if next_block h prev = block
             then Some (set_next block 0 (set_next prev (next_block h block) h)) else Some h))"

definition replace_free_list_block :: "heap \<Rightarrow> nat \<Rightarrow> nat \<Rightarrow> heap option" where
  "replace_free_list_block h old new =
     (if old = 0 \<or> new = 0 then Some h
      else if free_regions h = old
      then Some (set_next old 0 ((set_next new (next_block h old) h)\<lparr>free_regions := new\<rparr>))
      else
        (case walk_until h old (free_regions h) of
           None \<Rightarrow> None
         | Some prev \<Rightarrow>
             if prev \<noteq> 0
             then Some (set_next old 0 (set_next prev new (set_next new (next_block h old) h)))
             else map_option (set_next old 0) (insert_free_block h new)))"

definition set_footer_at :: "nat \<Rightarrow> nat \<Rightarrow> heap \<Rightarrow> heap" where
  "set_footer_at block addr h =
     h\<lparr>header := (header h)(addr := block), footer := (footer h)(block := addr)\<rparr>"

definition split_region :: "nat \<Rightarrow> nat \<Rightarrow> heap \<Rightarrow> nat \<times> heap" where
  "split_region block req h =
     (let leftover = block + SIZEOF_HEADER + SIZEOF_FOOTER + req;
          h = h\<lparr>footer := (footer h)(leftover := footer h block)\<rparr>;
          h = h\<lparr>header := (header h)(footer h leftover := leftover)\<rparr>;
          h = set_footer_at block (leftover - SIZEOF_FOOTER) h;
          h = h\<lparr>size_bytes := (size_bytes h)(leftover :=
                size_bytes h block - req - SIZEOF_HEADER - SIZEOF_FOOTER)\<rparr>;
          h = set_next leftover (next_block h block) h
      in (leftover, h\<lparr>is_free := (is_free h)(leftover := True)\<rparr>))"

definition occupy_block :: "nat \<Rightarrow> nat \<Rightarrow> heap \<Rightarrow> heap option" where
  "occupy_block block req h =
     (let h = h\<lparr>is_free := (is_free h)(block := False)\<rparr>;
          size_needed_for_split = req + SIZEOF_HEADER + SIZEOF_FOOTER
      in map_option (set_next block 0)
           (if size_bytes h block \<le> size_needed_for_split then remove_from_free_list h block
            else
              (let (leftover, h) = split_region block req h;
                   h = h\<lparr>size_bytes := (size_bytes h)(block := req)\<rparr>
               in replace_free_list_block h block leftover)))"

text \<open>\<open>grow_heap_by\<close> returns the grown block, 0 on failure. \<open>map_pages addr n\<close> stands for
  \<open>map_heap_pages\<close>.\<close>

definition grow_heap_by :: "(nat \<Rightarrow> nat \<Rightarrow> nat) \<Rightarrow> nat \<Rightarrow> heap \<Rightarrow> (nat \<times> heap) option" where
  "grow_heap_by map_pages pages h =
     (if pages = 0 then Some (0, h)
      else
        (let addr_to_map = align_up (last_footer h + SIZEOF_FOOTER) HPAGE_SIZE;
             new_pages = map_pages addr_to_map pages
         in if new_pages = 0 then Some (0, h)
            else
              (let last_block = header h (last_footer h);
                   new_block = last_footer h + SIZEOF_FOOTER;
                   difference = new_pages - (last_footer h + SIZEOF_FOOTER);
                   sz = page_to_addr_base pages + difference - SIZEOF_HEADER - SIZEOF_FOOTER;
                   f = new_block + SIZEOF_HEADER + sz;
                   h = h\<lparr>is_free := (is_free h)(new_block := True),
                         size_bytes := (size_bytes h)(new_block := sz),
                         next_block := (next_block h)(new_block := 0),
                         header := (header h)(f := new_block),
                         footer := (footer h)(new_block := f),
                         last_footer := f\<rparr>
               in if is_free h last_block
                  then
                    (case remove_from_free_list h last_block of
                       None \<Rightarrow> None
                     | Some h \<Rightarrow>
                         (let h = merge_blocks last_block new_block h
                          in map_option (Pair last_block) (insert_free_block h last_block)))
                  else map_option (Pair new_block) (insert_free_block h new_block))))"

definition grow_heap :: "(nat \<Rightarrow> nat \<Rightarrow> nat) \<Rightarrow> heap \<Rightarrow> (nat \<times> heap) option" where
  "grow_heap map_pages h =
     grow_heap_by map_pages (heap_grow_size h) (h\<lparr>heap_grow_size := heap_grow_size h + 1\<rparr>)"

definition grow_and_occupy :: "(nat \<times> heap) option \<Rightarrow> nat \<Rightarrow> (nat \<times> heap) option" where
  "grow_and_occupy r req =
     (case r of
        None \<Rightarrow> None
      | Some (b, h) \<Rightarrow> if b = 0 then Some (0, h) else map_option (Pair b) (occupy_block b req h))"

text \<open>The kernel's \<open>hmalloc_page_aligned\<close> returns the header's address.\<close>

definition hmalloc_page_aligned :: "(nat \<Rightarrow> nat \<Rightarrow> nat) \<Rightarrow> nat \<Rightarrow> heap \<Rightarrow> (nat \<times> heap) option" where
  "hmalloc_page_aligned map_pages req h =
     (if \<not> heap_initialized h then Some (0, h)
      else
        (case bytes_to_pages req of
           None \<Rightarrow> Some (0, h)
         | Some pages \<Rightarrow> grow_and_occupy (grow_heap_by map_pages pages h) req))"

definition user_pointer :: "nat \<times> heap \<Rightarrow> nat \<times> heap" where
  "user_pointer r = (case r of (b, h) \<Rightarrow> if b = 0 then (0, h) else (b + SIZEOF_HEADER, h))"

text \<open>\<open>hmalloc\<close> once the heap is initialised, as the kernel has it.\<close>

definition hmalloc :: "(nat \<Rightarrow> nat \<Rightarrow> nat) \<Rightarrow> nat \<Rightarrow> heap \<Rightarrow> (nat \<times> heap) option" where
  "hmalloc map_pages req h =
     (if \<not> heap_initialized h then Some (0, h)
      else
        (case bytes_to_pages req of
           None \<Rightarrow> Some (0, h)
         | Some pages \<Rightarrow>
             if heap_grow_size h < pages
             then map_option user_pointer (grow_and_occupy (grow_heap_by map_pages pages h) req)
             else
               (case find_first_fit_block h (free_regions h) req of
                  None \<Rightarrow> None
                | Some first_fit \<Rightarrow>
                    if first_fit = 0
                    then map_option user_pointer (grow_and_occupy (grow_heap map_pages h) req)
                    else map_option (\<lambda>h. (first_fit + SIZEOF_HEADER, h)) (occupy_block first_fit req h))))"

text \<open>The user-space \<open>hmalloc\<close> sets the heap up on its first call.\<close>

definition hmalloc_user :: "(nat \<Rightarrow> nat option) \<Rightarrow> nat \<Rightarrow> heap \<Rightarrow> (nat \<times> heap) option" where
  "hmalloc_user sbrk req h =
     (let (ok, h) = (if \<not> heap_initialized h then hmalloc_initialize_user sbrk h else (True, h))
      in if \<not> ok then Some (0, h) else hmalloc (map_heap_pages_user sbrk) req h)"

text \<open>The two merge steps of \<open>hfree\<close>; the first returns the block that remains.\<close>

definition merge_with_previous :: "nat \<Rightarrow> heap \<Rightarrow> (nat \<times> heap) option" where
  "merge_with_previous current h =
     (let previous = get_previous h current
      in if previous \<noteq> 0 \<and> is_free h previous
         then map_option (\<lambda>h. (previous, merge_blocks previous current h))
                (remove_from_free_list h previous)
         else Some (current, h))"

definition merge_with_next :: "nat \<Rightarrow> heap \<Rightarrow> heap option" where
  "merge_with_next current h =
     (let nx = get_next h current
      in if nx \<noteq> 0 \<and> is_free h nx
         then map_option (merge_blocks current nx) (remove_from_free_list h nx)
         else Some h)"

definition hfree :: "nat \<Rightarrow> heap \<Rightarrow> heap option" where
  "hfree ptr h =
     (if ptr = 0 \<or> \<not> heap_initialized h then Some h
      else
        (let current = ptr - SIZEOF_HEADER
         in if current < first_available_vaddr h \<or> last_footer h \<le> current then Some h
            else if \<not> is_footer_in_heap h (footer h current) \<or> header h (footer h current) \<noteq> current
            then Some h
            else if is_free h current then Some h
            else
              (let h = h\<lparr>is_free := (is_free h)(current := True)\<rparr>;
                   h = set_next current 0 h
               in case merge_with_previous current h of
                    None \<Rightarrow> None
                  | Some (current, h) \<Rightarrow>
                      (case merge_with_next current h of
                         None \<Rightarrow> None
                       | Some h \<Rightarrow> insert_free_block h current))))"

definition hmalloc_usable_size :: "nat \<Rightarrow> heap \<Rightarrow> nat" where
  "hmalloc_usable_size ptr h =
     (if ptr = 0 \<or> \<not> heap_initialized h then 0
      else
        (let current = ptr - SIZEOF_HEADER
         in if current < first_available_vaddr h \<or> last_footer h \<le> current then 0
            else if \<not> is_footer_in_heap h (footer h current) \<or>
                    header h (footer h current) \<noteq> current \<or> is_free h current
            then 0 else size_bytes h current))"

section \<open>The free list\<close>

abbreviation relink :: "heap \<Rightarrow> (nat \<Rightarrow> nat) \<Rightarrow> nat \<Rightarrow> heap" where
  "relink h nx fr \<equiv> h\<lparr>next_block := nx, free_regions := fr\<rparr>"

lemma walk_to_found:
  assumes "nseg (next_block h) p us x" "us \<noteq> []" "x \<noteq> 0" "x \<notin> set us"
  shows "walk_to h x p = Some (last us)"
  using assms
proof (induction us arbitrary: p)
  case (Cons u us)
  show ?case
  proof (cases us)
    case Nil
    then show ?thesis using Cons.prems by (subst walk_to.simps) auto
  next
    case (Cons w ws)
    then have "next_block h p \<noteq> 0" "next_block h p \<noteq> x" using Cons.prems by auto
    then show ?thesis using Cons.IH [of "next_block h p"] Cons.prems Cons
      by (subst walk_to.simps) auto
  qed
qed simp

lemma walk_until_found:
  assumes "nseg (next_block h) p us x" "us \<noteq> []" "x \<notin> set us"
  shows "walk_until h x p = Some (last us)"
  using assms
proof (induction us arbitrary: p)
  case (Cons u us)
  show ?case
  proof (cases us)
    case Nil
    then show ?thesis using Cons.prems by (subst walk_until.simps) auto
  next
    case (Cons w ws)
    then have "p \<noteq> 0" "next_block h p \<noteq> x" using Cons.prems by auto
    then show ?thesis using Cons.IH [of "next_block h p"] Cons.prems Cons
      by (subst walk_until.simps) auto
  qed
qed simp

lemma walk_below_found:
  assumes "nseg (next_block h) p us q" "us \<noteq> []" "\<forall>u\<in>set us. u < x" "q = 0 \<or> x < q"
  shows "walk_below h x p = Some (last us)"
  using assms
proof (induction us arbitrary: p)
  case (Cons u us)
  show ?case
  proof (cases us)
    case Nil
    then show ?thesis using Cons.prems by (subst walk_below.simps) auto
  next
    case (Cons w ws)
    then have "next_block h p \<noteq> 0 \<and> next_block h p < x" using Cons.prems by auto
    then show ?thesis using Cons.IH [of "next_block h p"] Cons.prems Cons
      by (subst walk_below.simps) auto
  qed
qed simp

lemma find_first_fit_spec:
  "nseg (next_block h) p us 0 \<Longrightarrow>
    find_first_fit_block h p req =
      Some (case find (\<lambda>u. req \<le> size_bytes h u \<and> is_free h u) us of None \<Rightarrow> 0 | Some u \<Rightarrow> u)"
proof (induction us arbitrary: p)
  case (Cons u us)
  then show ?case by (subst find_first_fit_block.simps) auto
qed (simp add: find_first_fit_block.simps)

lemma remove_free_spec:
  assumes "nseg (next_block h) (free_regions h) (us @ x # vs) 0"
  shows "\<exists>nx fr. remove_from_free_list h x = Some (relink h nx fr) \<and> nseg nx fr (us @ vs) 0 \<and>
    nx x = 0 \<and> (\<forall>y. y \<notin> set (us @ x # vs) \<longrightarrow> nx y = next_block h y)"
proof -
  note dist = nseg_distinct [OF assms] and nz = nseg_nonzero [OF assms]
  obtain m where seg: "nseg (next_block h) (free_regions h) us x" "nseg (next_block h) (next_block h x) vs 0"
    using assms by (auto simp: nseg_append)
  show ?thesis
  proof (cases us rule: rev_cases)
    case Nil
    then have "free_regions h = x" using seg(1) by simp
    then show ?thesis using seg(2) dist nz Nil
      by (intro exI [of _ "(next_block h)(x := 0)"] exI [of _ "next_block h x"])
         (auto simp: remove_from_free_list_def set_next_def)
  next
    case (snoc ys z)
    have ne: "free_regions h \<noteq> 0" "free_regions h \<noteq> x"
      using nseg_start [OF seg(1)] snoc dist nz by (cases ys; auto)+
    have walk: "walk_to h x (free_regions h) = Some z"
      using walk_to_found [OF seg(1)] snoc dist nz by auto
    have z: "next_block h z = x" using nseg_last [OF seg(1)] snoc by simp
    let ?nx = "(next_block h)(z := next_block h x, x := 0)"
    have "nseg ?nx (free_regions h) (us @ vs) 0"
      using seg dist snoc nz by (auto simp: nseg_append)
    moreover have "remove_from_free_list h x = Some (relink h ?nx (free_regions h))"
      using ne walk z nz by (simp add: remove_from_free_list_def set_next_def)
    ultimately show ?thesis using snoc
      by (intro exI [of _ ?nx] exI [of _ "free_regions h"]) auto
  qed
qed

lemma insert_free_spec:
  assumes seg: "nseg (next_block h) (free_regions h) (us @ vs) 0" and x: "x \<noteq> 0"
    and ord: "\<forall>u\<in>set us. u < x" "\<forall>v\<in>set vs. x < v"
  shows "\<exists>nx fr. insert_free_block h x =
      Some (relink (h\<lparr>is_free := (is_free h)(x := True)\<rparr>) nx fr) \<and> nseg nx fr (us @ x # vs) 0"
proof -
  have fresh: "x \<notin> set us" "x \<notin> set vs" using ord by auto
  note dist = nseg_distinct [OF seg] and nz = nseg_nonzero [OF seg]
  obtain q where q: "nseg (next_block h) (free_regions h) us q" "nseg (next_block h) q vs 0"
    using seg by (auto simp: nseg_append)
  have q_above: "q = 0 \<or> x < q" using nseg_start [OF q(2)] ord(2) by (cases vs) auto
  show ?thesis
  proof (cases us rule: rev_cases)
    case Nil
    then have "free_regions h = q" using q(1) by simp
    then show ?thesis using Nil x q q_above fresh
      by (intro exI [of _ "(next_block h)(x := q)"] exI [of _ x])
         (auto simp: insert_free_block_def set_next_def Let_def)
  next
    case (snoc ys z)
    have fr: "free_regions h \<noteq> 0" "free_regions h < x"
      using nseg_start [OF q(1)] snoc nz ord(1) by (cases ys; auto)+
    have walk: "walk_below (h\<lparr>is_free := (is_free h)(x := True)\<rparr>) x (free_regions h) = Some z"
      using walk_below_found [of "h\<lparr>is_free := (is_free h)(x := True)\<rparr>" "free_regions h" us q x]
        q q_above snoc ord(1) by simp
    have z: "next_block h z = q" using nseg_last [OF q(1)] snoc by simp
    let ?nx = "(next_block h)(x := q, z := x)"
    have "nseg ?nx (free_regions h) (us @ x # vs) 0"
      using q dist snoc fresh x by (auto simp: nseg_append)
    moreover have "insert_free_block h x =
        Some (relink (h\<lparr>is_free := (is_free h)(x := True)\<rparr>) ?nx (free_regions h))"
      using fr walk z x by (simp add: insert_free_block_def set_next_def Let_def)
    ultimately show ?thesis by blast
  qed
qed

lemma replace_free_spec:
  assumes seg: "nseg (next_block h) (free_regions h) (us @ old # vs) 0"
    and new: "new \<noteq> 0" "new \<notin> set (us @ old # vs)"
  shows "\<exists>nx fr. replace_free_list_block h old new = Some (relink h nx fr) \<and>
    nseg nx fr (us @ new # vs) 0"
proof -
  note dist = nseg_distinct [OF seg] and nz = nseg_nonzero [OF seg]
  have q: "nseg (next_block h) (free_regions h) us old" "nseg (next_block h) (next_block h old) vs 0"
    using seg by (auto simp: nseg_append)
  show ?thesis
  proof (cases us rule: rev_cases)
    case Nil
    then have "free_regions h = old" using q(1) by simp
    then show ?thesis using Nil q(2) dist nz new
      by (intro exI [of _ "(next_block h)(new := next_block h old, old := 0)"] exI [of _ new])
         (auto simp: replace_free_list_block_def set_next_def)
  next
    case (snoc ys z)
    have fr: "free_regions h \<noteq> 0" "free_regions h \<noteq> old"
      using nseg_start [OF q(1)] snoc nz dist by (cases ys; auto)+
    have walk: "walk_until h old (free_regions h) = Some z"
      using walk_until_found [OF q(1)] snoc dist by auto
    let ?nx = "(next_block h)(new := next_block h old, z := new, old := 0)"
    have "nseg ?nx (free_regions h) (us @ new # vs) 0"
      using q dist snoc new by (auto simp: nseg_append)
    moreover have "replace_free_list_block h old new = Some (relink h ?nx (free_regions h))"
      using fr walk nz new snoc by (simp add: replace_free_list_block_def set_next_def)
    ultimately show ?thesis by blast
  qed
qed

section \<open>The blocks\<close>

record blk =
  baddr :: nat
  bsize :: nat
  bfree :: bool

definition field_ok :: "heap \<Rightarrow> blk \<Rightarrow> bool" where
  "field_ok h b \<longleftrightarrow>
     size_bytes h (baddr b) = bsize b \<and> is_free h (baddr b) = bfree b \<and>
     footer h (baddr b) = baddr b + 25 + bsize b \<and> header h (baddr b + 25 + bsize b) = baddr b"

fun contig :: "nat \<Rightarrow> blk list \<Rightarrow> nat \<Rightarrow> bool" where
  "contig a [] e \<longleftrightarrow> a = e"
| "contig a (b # bs) e \<longleftrightarrow> baddr b = a \<and> contig (a + bsize b + 33) bs e"

fun coalesced :: "blk list \<Rightarrow> bool" where
  "coalesced (b # c # bs) \<longleftrightarrow> \<not> (bfree b \<and> bfree c) \<and> coalesced (c # bs)"
| "coalesced bs \<longleftrightarrow> True"

lemma contig_append: "contig a (xs @ ys) e \<longleftrightarrow> (\<exists>m. contig a xs m \<and> contig m ys e)"
  by (induction xs arbitrary: a) auto

lemma contig_le: "contig a bs e \<Longrightarrow> a \<le> e"
  by (induction bs arbitrary: a) fastforce+

lemma contig_bounds: "contig a bs e \<Longrightarrow> b \<in> set bs \<Longrightarrow> a \<le> baddr b \<and> baddr b + bsize b + 33 \<le> e"
proof (induction bs arbitrary: a)
  case (Cons c bs)
  then show ?case using contig_le [of "a + bsize c + 33" bs e] by fastforce
qed simp

lemma contig_sorted: "contig a bs e \<Longrightarrow> sorted_wrt (<) (map baddr bs)"
  by (induction bs arbitrary: a) (auto dest: contig_bounds)

lemma coalesced_append:
  "coalesced (xs @ ys) \<longleftrightarrow> coalesced xs \<and> coalesced ys \<and>
     (xs \<noteq> [] \<and> ys \<noteq> [] \<longrightarrow> \<not> (bfree (last xs) \<and> bfree (hd ys)))"
  by (induction xs rule: coalesced.induct; cases ys) auto

text \<open>Two heaps that agree on the headers and footers outside \<open>s .. t\<close>.\<close>

definition agree_outside :: "nat \<Rightarrow> nat \<Rightarrow> heap \<Rightarrow> heap \<Rightarrow> bool" where
  "agree_outside s t h h' \<longleftrightarrow>
     (\<forall>a. a < s \<or> t \<le> a \<longrightarrow> size_bytes h a = size_bytes h' a \<and> is_free h a = is_free h' a \<and>
        footer h a = footer h' a \<and> header h a = header h' a)"

definition blocks_ok :: "heap \<Rightarrow> nat \<Rightarrow> blk list \<Rightarrow> nat \<Rightarrow> bool" where
  "blocks_ok h a bs e \<longleftrightarrow> contig a bs e \<and> (\<forall>b\<in>set bs. field_ok h b)"

lemma field_ok_outside:
  "agree_outside s t h h' \<Longrightarrow> baddr b + bsize b + 33 \<le> s \<or> t \<le> baddr b \<Longrightarrow> field_ok h b = field_ok h' b"
  by (auto simp: agree_outside_def field_ok_def)

lemma blocks_ok_append:
  "blocks_ok h a (xs @ ys) e \<longleftrightarrow> (\<exists>m. blocks_ok h a xs m \<and> blocks_ok h m ys e)"
  by (auto simp: blocks_ok_def contig_append)

lemma blocks_ok_outside:
  assumes "blocks_ok h a bs e" "agree_outside s t h h'" "e \<le> s \<or> t \<le> a"
  shows "blocks_ok h' a bs e"
proof -
  have "field_ok h' b" if "b \<in> set bs" for b
    using that assms contig_bounds [of a bs e b] field_ok_outside [OF assms(2), of b]
    by (auto simp: blocks_ok_def)
  then show ?thesis using assms(1) by (simp add: blocks_ok_def)
qed

lemma blocks_replace:
  assumes "blocks_ok h a pre s" "blocks_ok h t post e" "agree_outside s t h h'" "blocks_ok h' s mid t"
  shows "blocks_ok h' a (pre @ mid @ post) e"
  using blocks_ok_outside [OF assms(1,3)] blocks_ok_outside [OF assms(2,3)] assms(4)
  by (auto simp: blocks_ok_append)

section \<open>Invariant\<close>

abbreviation free_addrs :: "blk list \<Rightarrow> nat list" where
  "free_addrs bs \<equiv> map baddr (filter bfree bs)"

text \<open>The blocks tile the heap, the free list holds the free ones in order of address, and no two
  neighbours are both free.\<close>

definition heap_wf :: "heap \<Rightarrow> blk list \<Rightarrow> bool" where
  "heap_wf h bs \<longleftrightarrow>
     heap_initialized h \<and> 0 < first_available_vaddr h \<and> 0 < heap_grow_size h \<and> bs \<noteq> [] \<and>
     blocks_ok h (first_available_vaddr h) bs (last_footer h + 8) \<and>
     nseg (next_block h) (free_regions h) (free_addrs bs) 0 \<and> coalesced bs"

text \<open>The blocks in use, as user pointers with their sizes.\<close>

definition live :: "blk list \<Rightarrow> (nat \<times> nat) set" where
  "live bs = {(baddr b + 25, bsize b) | b. b \<in> set bs \<and> \<not> bfree b}"

lemma live_append [simp]: "live (xs @ ys) = live xs \<union> live ys"
  by (auto simp: live_def)

lemma live_Cons [simp]:
  "live [] = {}" "live (b # bs) = (if bfree b then {} else {(baddr b + 25, bsize b)}) \<union> live bs"
  by (auto simp: live_def)

lemma blocks_ok_Cons [simp]:
  "blocks_ok h a [] e \<longleftrightarrow> a = e"
  "blocks_ok h a (b # bs) e \<longleftrightarrow> baddr b = a \<and> field_ok h b \<and> blocks_ok h (a + bsize b + 33) bs e"
  by (auto simp: blocks_ok_def)

lemma agree_refl_next [simp]: "agree_outside s t h (relink h' nx fr) = agree_outside s t h h'"
  "field_ok (relink h nx fr) b = field_ok h b"
  "blocks_ok (relink h nx fr) a bs e = blocks_ok h a bs e"
  by (simp_all add: agree_outside_def field_ok_def blocks_ok_def)

lemma set_next_fields [simp]:
  "is_free (set_next b n h) = is_free h" "size_bytes (set_next b n h) = size_bytes h"
  "footer (set_next b n h) = footer h" "header (set_next b n h) = header h"
  "next_block (set_next b n h) = (next_block h)(b := n)" "free_regions (set_next b n h) = free_regions h"
  "first_available_vaddr (set_next b n h) = first_available_vaddr h"
  "last_footer (set_next b n h) = last_footer h" "heap_grow_size (set_next b n h) = heap_grow_size h"
  "heap_initialized (set_next b n h) = heap_initialized h"
  by (simp_all add: set_next_def)

lemma set_next_agree [simp]:
  "agree_outside s t h (set_next b n h') = agree_outside s t h h'"
  "field_ok (set_next b n h) x = field_ok h x"
  "blocks_ok (set_next b n h) a bs e = blocks_ok h a bs e"
  by (simp_all add: agree_outside_def field_ok_def blocks_ok_def)

lemma heap_wf_parts:
  assumes "heap_wf h (pre @ b # post)"
  shows "blocks_ok h (first_available_vaddr h) pre (baddr b)" "field_ok h b"
    "blocks_ok h (baddr b + bsize b + 33) post (last_footer h + 8)"
    "\<forall>x\<in>set (free_addrs pre). x < baddr b"
    "\<forall>x\<in>set (free_addrs post). baddr b + bsize b + 33 \<le> x"
    "0 < baddr b"
proof -
  have b: "\<exists>m. blocks_ok h (first_available_vaddr h) pre m \<and> baddr b = m \<and> field_ok h b \<and>
      blocks_ok h (m + bsize b + 33) post (last_footer h + 8)"
    using assms by (auto simp: heap_wf_def blocks_ok_append)
  then show pp: "blocks_ok h (first_available_vaddr h) pre (baddr b)" "field_ok h b"
    "blocks_ok h (baddr b + bsize b + 33) post (last_footer h + 8)" by auto
  show "\<forall>x\<in>set (free_addrs pre). x < baddr b"
    using pp(1) contig_bounds by (fastforce simp: blocks_ok_def)
  show "\<forall>x\<in>set (free_addrs post). baddr b + bsize b + 33 \<le> x"
    using pp(3) contig_bounds by (fastforce simp: blocks_ok_def)
  show "0 < baddr b"
    using pp(1) contig_le assms by (fastforce simp: blocks_ok_def heap_wf_def)
qed

definition occupied :: "blk \<Rightarrow> nat \<Rightarrow> blk list" where
  "occupied b req =
     (if bsize b \<le> req + 33 then [b\<lparr>bfree := False\<rparr>]
      else [b\<lparr>bsize := req, bfree := False\<rparr>,
            \<lparr>baddr = baddr b + 33 + req, bsize = bsize b - req - 33, bfree = True\<rparr>])"

lemma occupy_coalesced:
  assumes "coalesced (pre @ b # post)" "bfree b"
  shows "coalesced (pre @ occupied b req @ post)"
proof -
  have "coalesced pre" "coalesced post" "post \<noteq> [] \<longrightarrow> \<not> bfree (hd post)"
    using assms by (cases post; auto simp: coalesced_append)+
  then show ?thesis by (cases post) (auto simp: occupied_def coalesced_append)
qed

lemma occupy_whole:
  assumes wf: "heap_wf h (pre @ b # post)" and b: "bfree b" "bsize b \<le> req + 33"
  shows "\<exists>h'. occupy_block (baddr b) req h = Some h' \<and> heap_wf h' (pre @ occupied b req @ post) \<and>
    heap_grow_size h' = heap_grow_size h"
proof -
  note p = heap_wf_parts [OF wf]
  let ?h = "h\<lparr>is_free := (is_free h)(baddr b := False)\<rparr>"
  have seg: "nseg (next_block ?h) (free_regions ?h) (free_addrs pre @ baddr b # free_addrs post) 0"
    using wf b(1) by (simp add: heap_wf_def)
  obtain nx fr where r: "remove_from_free_list ?h (baddr b) = Some (relink ?h nx fr)"
    "nseg nx fr (free_addrs pre @ free_addrs post) 0"
    using remove_free_spec [OF seg] by blast
  have fresh: "baddr b \<notin> set (free_addrs pre @ free_addrs post)" using nseg_distinct [OF seg] by auto
  let ?h' = "set_next (baddr b) 0 (relink ?h nx fr)"
  have "blocks_ok ?h' (first_available_vaddr h) (pre @ [b\<lparr>bfree := False\<rparr>] @ post) (last_footer h + 8)"
  proof (rule blocks_replace [OF p(1,3)])
    show "agree_outside (baddr b) (baddr b + bsize b + 33) h ?h'" by (auto simp: agree_outside_def)
    show "blocks_ok ?h' (baddr b) [b\<lparr>bfree := False\<rparr>] (baddr b + bsize b + 33)"
      using p(2) by (auto simp: field_ok_def)
  qed
  moreover have "nseg ((nx)(baddr b := 0)) fr (free_addrs pre @ free_addrs post) 0"
    using r(2) fresh by simp
  moreover have "occupy_block (baddr b) req h = Some ?h'"
    using r(1) b(2) p(2) by (simp add: occupy_block_def field_ok_def)
  moreover have "coalesced (pre @ b\<lparr>bfree := False\<rparr> # post)"
    using occupy_coalesced [of pre b post req] wf b by (simp add: heap_wf_def occupied_def)
  ultimately show ?thesis
    using wf b(2) by (simp add: heap_wf_def occupied_def)
qed

lemma occupy_split:
  assumes wf: "heap_wf h (pre @ b # post)" and b: "bfree b" "req + 33 < bsize b"
  shows "\<exists>h'. occupy_block (baddr b) req h = Some h' \<and> heap_wf h' (pre @ occupied b req @ post) \<and>
    heap_grow_size h' = heap_grow_size h"
proof -
  note p = heap_wf_parts [OF wf]
  let ?a = "baddr b" and ?l = "baddr b + 33 + req" and ?t = "baddr b + bsize b + 33"
  let ?f = "baddr b + 25 + bsize b"
  define h0 where "h0 = h\<lparr>is_free := (is_free h)(?a := False)\<rparr>"
  define h2 where "h2 = snd (split_region ?a req h0)"
  define h1 where "h1 = h2\<lparr>size_bytes := (size_bytes h2)(?a := req)\<rparr>"
  have fields: "size_bytes h ?a = bsize b" "footer h ?a = ?f" using p(2) by (simp_all add: field_ok_def)
  have l: "fst (split_region ?a req h0) = ?l" by (simp add: split_region_def Let_def)
  have h1: "is_free h1 = (is_free h)(?a := False, ?l := True)"
    "size_bytes h1 = (size_bytes h)(?l := bsize b - req - 33, ?a := req)"
    "footer h1 = (footer h)(?l := ?f, ?a := ?l - 8)"
    "header h1 = (header h)(?f := ?l, ?l - 8 := ?a)"
    "next_block h1 = (next_block h)(?l := next_block h ?a)"
    "free_regions h1 = free_regions h" "last_footer h1 = last_footer h"
    "first_available_vaddr h1 = first_available_vaddr h" "heap_grow_size h1 = heap_grow_size h"
    "heap_initialized h1 = heap_initialized h"
    using fields
    by (simp_all add: h1_def h2_def h0_def split_region_def set_footer_at_def Let_def ac_simps)
  have occ: "occupy_block ?a req h = map_option (set_next ?a 0) (replace_free_list_block h1 ?a ?l)"
    using fields b(2) l
    by (simp add: occupy_block_def h1_def h2_def h0_def Let_def split_beta)
  have fresh: "?l \<notin> set (free_addrs pre @ ?a # free_addrs post)" using p(4,5) b(2) by fastforce
  have seg: "nseg (next_block h1) (free_regions h1) (free_addrs pre @ ?a # free_addrs post) 0"
    using wf b(1) fresh by (simp add: heap_wf_def h1)
  obtain nx fr where r: "replace_free_list_block h1 ?a ?l = Some (relink h1 nx fr)"
    "nseg nx fr (free_addrs pre @ ?l # free_addrs post) 0"
    using replace_free_spec [OF seg _ fresh] p(6) by auto
  have a_out: "?a \<notin> set (free_addrs pre @ ?l # free_addrs post)" using p(4,5) by fastforce
  let ?h' = "set_next ?a 0 (relink h1 nx fr)"
  have "blocks_ok ?h' (first_available_vaddr h) (pre @ occupied b req @ post) (last_footer h + 8)"
  proof (rule blocks_replace [OF p(1,3)])
    show "agree_outside ?a ?t h ?h'" using b(2) by (auto simp: agree_outside_def h1)
    show "blocks_ok ?h' ?a (occupied b req) ?t"
      using b(2) by (auto simp: occupied_def field_ok_def h1)
  qed
  moreover have "nseg (nx(?a := 0)) fr (free_addrs (pre @ occupied b req @ post)) 0"
    using r(2) a_out b(2) by (simp add: occupied_def)
  moreover have "occupy_block ?a req h = Some ?h'" using occ r(1) by simp
  moreover have "coalesced (pre @ occupied b req @ post)"
    using occupy_coalesced [of pre b post req] wf b(1) by (simp add: heap_wf_def)
  ultimately show ?thesis
    using wf by (simp add: heap_wf_def h1 occupied_def)
qed

section \<open>Growing and releasing\<close>

text \<open>The invariant without the link between free blocks and free list, for the states inside an
  operation.\<close>

definition part :: "heap \<Rightarrow> blk list \<Rightarrow> nat list \<Rightarrow> bool" where
  "part h bs L \<longleftrightarrow>
     heap_initialized h \<and> 0 < first_available_vaddr h \<and> 0 < heap_grow_size h \<and>
     blocks_ok h (first_available_vaddr h) bs (last_footer h + 8) \<and>
     nseg (next_block h) (free_regions h) L 0"

lemma heap_wf_part: "heap_wf h bs \<longleftrightarrow> bs \<noteq> [] \<and> part h bs (free_addrs bs) \<and> coalesced bs"
  by (auto simp: heap_wf_def part_def)

lemma part_blocks:
  assumes "part h (pre @ b # post) L"
  shows "blocks_ok h (first_available_vaddr h) pre (baddr b)" "field_ok h b"
    "blocks_ok h (baddr b + bsize b + 33) post (last_footer h + 8)" "0 < baddr b"
    "first_available_vaddr h \<le> baddr b" "baddr b + bsize b + 25 \<le> last_footer h"
proof -
  have *: "\<exists>m. blocks_ok h (first_available_vaddr h) pre m \<and> baddr b = m \<and> field_ok h b \<and>
      blocks_ok h (m + bsize b + 33) post (last_footer h + 8)"
    using assms by (auto simp: part_def blocks_ok_append)
  then show pp: "blocks_ok h (first_available_vaddr h) pre (baddr b)" "field_ok h b"
    "blocks_ok h (baddr b + bsize b + 33) post (last_footer h + 8)" by auto
  show le: "first_available_vaddr h \<le> baddr b" using pp(1) contig_le by (auto simp: blocks_ok_def)
  then show "0 < baddr b" using assms by (simp add: part_def)
  have "contig (baddr b + bsize b + 33) post (last_footer h + 8)" using pp(3) by (simp add: blocks_ok_def)
  from contig_le [OF this] show "baddr b + bsize b + 25 \<le> last_footer h" by simp
qed

lemma part_in_heap:
  assumes "part h (pre @ b # post) L"
  shows "is_block_header_in_heap h (baddr b)" "is_footer_in_heap h (footer h (baddr b))"
    "header h (footer h (baddr b)) = baddr b" "footer h (baddr b) + 8 = baddr b + bsize b + 33"
    "baddr b < last_footer h" "is_free h (baddr b) = bfree b" "size_bytes h (baddr b) = bsize b"
  using part_blocks [OF assms]
  by (auto simp: is_block_header_in_heap_def is_footer_in_heap_def field_ok_def)

lemma get_next_spec:
  assumes "part h (pre @ b # post) L"
  shows "get_next h (baddr b) = (case post of [] \<Rightarrow> 0 | c # _ \<Rightarrow> baddr c)"
proof -
  note p = part_blocks [OF assms] and b = part_in_heap [OF assms]
  show ?thesis
  proof (cases post)
    case Nil
    then show ?thesis using b(1,2,4) p(3) by (simp add: get_next_def Let_def)
  next
    case (Cons c cs)
    have "part h ((pre @ [b]) @ c # cs) L" using assms Cons by simp
    note pc = part_in_heap [OF this]
    have "footer h (baddr b) + 8 = baddr c" using p(3) b(4) Cons by simp
    then show ?thesis using b(1,2) pc(1-3,5) Cons by (simp add: get_next_def Let_def)
  qed
qed

lemma get_previous_spec:
  assumes "part h (pre @ b # post) L"
  shows "get_previous h (baddr b) = (if pre = [] then 0 else baddr (last pre))"
proof -
  note p = part_blocks [OF assms] and b = part_in_heap [OF assms]
  show ?thesis
  proof (cases pre rule: rev_cases)
    case Nil
    then show ?thesis using p(1) b(1) by (simp add: get_previous_def)
  next
    case (snoc ys c)
    have c: "part h (ys @ c # b # post) L" using assms snoc by simp
    note pc = part_in_heap [OF c] and qc = part_blocks [OF c]
    have adj: "baddr b - 8 = footer h (baddr c)" "baddr c < baddr b"
      "\<not> baddr b < first_available_vaddr h + 25 + 8"
      using qc(3,5) pc(4) by auto
    show ?thesis using b(1) pc(1-3) adj snoc by (simp add: get_previous_def Let_def)
  qed
qed

definition join :: "blk \<Rightarrow> blk \<Rightarrow> blk" where
  "join b c = b\<lparr>bsize := bsize b + bsize c + 33\<rparr>"

lemma join_simps [simp]:
  "baddr (join b c) = baddr b" "bfree (join b c) = bfree b" "bsize (join b c) = bsize b + bsize c + 33"
  by (simp_all add: join_def)

lemma merge_fields:
  assumes "baddr c = baddr b + bsize b + 33" "field_ok h b" "field_ok h c"
  defines "h' \<equiv> merge_blocks (baddr b) (baddr c) h"
  shows "is_free h' = (is_free h)(baddr c := False)"
    "size_bytes h' = (size_bytes h)(baddr b := bsize b + (bsize c + 33), baddr c := 0)"
    "footer h' = (footer h)(baddr b := footer h (baddr c), baddr c := 0)"
    "header h' = (header h)(footer h (baddr b) := 0, footer h (baddr c) := baddr b)"
    "next_block h' = (next_block h)(baddr b := next_block h (baddr c), baddr c := 0)"
    "free_regions h' = free_regions h" "last_footer h' = last_footer h"
    "first_available_vaddr h' = first_available_vaddr h" "heap_grow_size h' = heap_grow_size h"
    "heap_initialized h' = heap_initialized h"
  using assms(1-3) by (auto simp: h'_def merge_blocks_def Let_def field_ok_def)

lemma merge_part:
  assumes wf: "part h (pre @ b # c # post) L" and L: "baddr b \<notin> set L" "baddr c \<notin> set L"
  shows "part (merge_blocks (baddr b) (baddr c) h) (pre @ join b c # post) L"
proof -
  note p = part_blocks [OF wf]
  have c: "part h ((pre @ [b]) @ c # post) L" using wf by simp
  note pc = part_blocks [OF c]
  have adj: "baddr c = baddr b + bsize b + 33" using p(3) by simp
  note m = merge_fields [OF adj p(2) pc(2)]
  let ?h = "merge_blocks (baddr b) (baddr c) h"
  let ?t = "baddr b + (bsize b + bsize c + 33) + 33"
  have f: "footer h (baddr b) = baddr b + 25 + bsize b" "footer h (baddr c) = baddr c + 25 + bsize c"
    "is_free h (baddr b) = bfree b"
    using p(2) pc(2) by (auto simp: field_ok_def)
  have "blocks_ok ?h (first_available_vaddr h) (pre @ [join b c] @ post) (last_footer h + 8)"
  proof (rule blocks_replace [OF p(1)])
    show "blocks_ok h ?t post (last_footer h + 8)" using pc(3) adj by (simp add: ac_simps)
    show "agree_outside (baddr b) ?t h ?h" unfolding agree_outside_def m using adj f by auto
    show "blocks_ok ?h (baddr b) [join b c] ?t"
      unfolding blocks_ok_Cons field_ok_def m using adj f by auto
  qed
  then show ?thesis using wf L unfolding part_def m by simp
qed

lemma remove_part:
  assumes "part h bs (us @ x # vs)"
  shows "\<exists>h'. remove_from_free_list h x = Some h' \<and> part h' bs (us @ vs) \<and> is_free h' = is_free h \<and>
    heap_grow_size h' = heap_grow_size h \<and> last_footer h' = last_footer h"
proof -
  have "nseg (next_block h) (free_regions h) (us @ x # vs) 0" using assms by (simp add: part_def)
  from remove_free_spec [OF this] obtain nx fr where
    "remove_from_free_list h x = Some (relink h nx fr)" "nseg nx fr (us @ vs) 0" by blast
  then show ?thesis using assms by (auto simp: part_def)
qed

lemma insert_part:
  assumes wf: "part h (pre @ b # post) (free_addrs pre @ free_addrs post)" and b: "bfree b"
  shows "\<exists>h'. insert_free_block h (baddr b) = Some h' \<and>
    part h' (pre @ b # post) (free_addrs (pre @ b # post)) \<and> heap_grow_size h' = heap_grow_size h"
proof -
  note p = part_blocks [OF wf]
  have ord: "\<forall>u\<in>set (free_addrs pre). u < baddr b" "\<forall>v\<in>set (free_addrs post). baddr b < v"
    using p(1,3) contig_bounds by (fastforce simp: blocks_ok_def)+
  have "nseg (next_block h) (free_regions h) (free_addrs pre @ free_addrs post) 0"
    using wf by (simp add: part_def)
  from insert_free_spec [OF this _ ord] p(4) obtain nx fr where
    r: "insert_free_block h (baddr b) =
        Some (relink (h\<lparr>is_free := (is_free h)(baddr b := True)\<rparr>) nx fr)"
    "nseg nx fr (free_addrs pre @ baddr b # free_addrs post) 0" by auto
  have "h\<lparr>is_free := (is_free h)(baddr b := True)\<rparr> = h"
    using p(2) b by (simp add: field_ok_def fun_upd_idem)
  then show ?thesis using r wf b by (auto simp: part_def)
qed

text \<open>What releasing a block does to the list of blocks: it absorbs a free neighbour on each side.\<close>

definition absorb_left :: "blk list \<Rightarrow> blk \<Rightarrow> blk list \<times> blk" where
  "absorb_left pre b =
     (if pre \<noteq> [] \<and> bfree (last pre) then (butlast pre, join (last pre) b) else (pre, b))"

definition absorb_right :: "blk \<Rightarrow> blk list \<Rightarrow> blk \<times> blk list" where
  "absorb_right b post =
     (case post of [] \<Rightarrow> (b, []) | c # cs \<Rightarrow> if bfree c then (join b c, cs) else (b, post))"

definition released :: "blk list \<Rightarrow> blk \<Rightarrow> blk list \<Rightarrow> blk list" where
  "released pre b post =
     (let (pre', b') = absorb_left pre (b\<lparr>bfree := True\<rparr>); (b'', post') = absorb_right b' post
      in pre' @ b'' # post')"

lemma part_order:
  assumes "part h (pre @ b # post) L"
  shows "baddr b \<notin> set (free_addrs pre)" "baddr b \<notin> set (free_addrs post)"
  using part_blocks(1,3) [OF assms] contig_bounds by (fastforce simp: blocks_ok_def)+

lemma left_step:
  assumes wf: "part h (pre @ b # post) (free_addrs pre @ free_addrs post)" and b: "bfree b"
    and ab: "absorb_left pre b = (pre', b')"
  shows "\<exists>h'. merge_with_previous (baddr b) h = Some (baddr b', h') \<and>
    part h' (pre' @ b' # post) (free_addrs pre' @ free_addrs post) \<and> bfree b' \<and>
    heap_grow_size h' = heap_grow_size h"
proof (cases pre rule: rev_cases)
  case Nil
  then show ?thesis using wf ab b get_previous_spec [OF wf] by (auto simp: merge_with_previous_def absorb_left_def)
next
  case (snoc ys c)
  note prev = get_previous_spec [OF wf]
  have c: "part h (ys @ c # b # post) (free_addrs pre @ free_addrs post)" using wf snoc by simp
  note pc = part_in_heap [OF c] and qc = part_blocks [OF c]
  show ?thesis
  proof (cases "bfree c")
    case False
    then show ?thesis using wf ab b prev pc(6) snoc by (auto simp: merge_with_previous_def absorb_left_def)
  next
    case True
    have "part h (ys @ c # b # post) (free_addrs ys @ baddr c # free_addrs post)"
      using c True snoc by simp
    from remove_part [OF this] obtain h1 where h1: "remove_from_free_list h (baddr c) = Some h1"
      "part h1 (ys @ c # b # post) (free_addrs ys @ free_addrs post)"
      "heap_grow_size h1 = heap_grow_size h" by blast
    have "part h1 ((ys @ [c]) @ b # post) (free_addrs ys @ free_addrs post)" using h1(2) by simp
    from part_order [OF this] part_order [OF h1(2)]
    have "part (merge_blocks (baddr c) (baddr b) h1) (ys @ join c b # post) (free_addrs ys @ free_addrs post)"
      using True by (intro merge_part [OF h1(2)]) (auto simp: b)
    then show ?thesis
      using ab b prev pc(6) qc(4) snoc True h1(1,3)
      by (auto simp: merge_with_previous_def absorb_left_def merge_blocks_def Let_def)
  qed
qed

lemma right_step:
  assumes wf: "part h (pre @ b # post) (free_addrs pre @ free_addrs post)" and b: "bfree b"
    and ab: "absorb_right b post = (b', post')"
  shows "\<exists>h'. merge_with_next (baddr b) h = Some h' \<and>
    part h' (pre @ b' # post') (free_addrs pre @ free_addrs post') \<and> bfree b' \<and> baddr b' = baddr b \<and>
    heap_grow_size h' = heap_grow_size h"
proof (cases post)
  case Nil
  then show ?thesis using wf ab b get_next_spec [OF wf] by (auto simp: merge_with_next_def absorb_right_def)
next
  case (Cons c cs)
  note nx = get_next_spec [OF wf]
  have c: "part h ((pre @ [b]) @ c # cs) (free_addrs pre @ free_addrs post)" using wf Cons by simp
  note pc = part_in_heap [OF c] and qc = part_blocks [OF c]
  show ?thesis
  proof (cases "bfree c")
    case False
    then show ?thesis using wf ab b nx pc(6) Cons by (auto simp: merge_with_next_def absorb_right_def)
  next
    case True
    have "part h (pre @ b # c # cs) (free_addrs pre @ baddr c # free_addrs cs)"
      using wf True Cons by simp
    from remove_part [OF this] obtain h1 where h1: "remove_from_free_list h (baddr c) = Some h1"
      "part h1 (pre @ b # c # cs) (free_addrs pre @ free_addrs cs)"
      "heap_grow_size h1 = heap_grow_size h" by blast
    have "part h1 ((pre @ [b]) @ c # cs) (free_addrs pre @ free_addrs cs)" using h1(2) by simp
    from part_order [OF this] part_order [OF h1(2)]
    have "part (merge_blocks (baddr b) (baddr c) h1) (pre @ join b c # cs) (free_addrs pre @ free_addrs cs)"
      using True b by (intro merge_part [OF h1(2)]) auto
    then show ?thesis
      using ab b nx pc(6) qc(4) Cons True h1(1,3)
      by (auto simp: merge_with_next_def absorb_right_def merge_blocks_def Let_def)
  qed
qed

lemma released_coalesced:
  assumes "coalesced (pre @ b # post)"
  shows "coalesced (released pre b post)"
proof -
  have c: "coalesced pre" "coalesced post" using assms by (cases post; auto simp: coalesced_append)+
  have left: "coalesced pre' \<and> (pre' \<noteq> [] \<longrightarrow> \<not> bfree (last pre')) \<and> bfree b'"
    if "absorb_left pre (b\<lparr>bfree := True\<rparr>) = (pre', b')" for pre' b'
    using that c(1) by (cases pre rule: rev_cases) (auto simp: absorb_left_def coalesced_append split: if_splits)
  have right: "coalesced post' \<and> (post' \<noteq> [] \<longrightarrow> \<not> bfree (hd post')) \<and> bfree b''"
    if "absorb_right b' post = (b'', post')" "bfree b'" for b' b'' post'
    using that c(2) by (cases post; cases "tl post") (auto simp: absorb_right_def split: if_splits)
  obtain pre' b' where l: "absorb_left pre (b\<lparr>bfree := True\<rparr>) = (pre', b')" by (metis surj_pair)
  obtain b'' post' where r: "absorb_right b' post = (b'', post')" by (metis surj_pair)
  show ?thesis
    using left [OF l] right [OF r] by (cases post') (auto simp: released_def l r coalesced_append)
qed

lemma hfree_spec:
  assumes wf: "heap_wf h (pre @ b # post)" and b: "\<not> bfree b"
  shows "\<exists>h'. hfree (baddr b + 25) h = Some h' \<and> heap_wf h' (released pre b post) \<and>
    heap_grow_size h' = heap_grow_size h"
proof -
  have w: "part h (pre @ b # post) (free_addrs pre @ free_addrs post)" "coalesced (pre @ b # post)"
    using wf b by (auto simp: heap_wf_part)
  note p = part_in_heap [OF w(1)] and q = part_blocks [OF w(1)]
  let ?b = "b\<lparr>bfree := True\<rparr>"
  define h1 where "h1 = set_next (baddr b) 0 (h\<lparr>is_free := (is_free h)(baddr b := True)\<rparr>)"
  have "blocks_ok h1 (first_available_vaddr h) (pre @ [?b] @ post) (last_footer h + 8)"
  proof (rule blocks_replace [OF q(1,3)])
    show "agree_outside (baddr b) (baddr b + bsize b + 33) h h1" by (auto simp: agree_outside_def h1_def)
    show "blocks_ok h1 (baddr b) [?b] (baddr b + bsize b + 33)"
      using q(2) by (auto simp: field_ok_def h1_def)
  qed
  then have w1: "part h1 (pre @ ?b # post) (free_addrs pre @ free_addrs post)"
    using w(1) part_order [OF w(1)] by (simp add: part_def h1_def)
  obtain pre' b' where l: "absorb_left pre ?b = (pre', b')" by (metis surj_pair)
  from left_step [OF w1 _ l] obtain h2 where h2: "merge_with_previous (baddr b) h1 = Some (baddr b', h2)"
    "part h2 (pre' @ b' # post) (free_addrs pre' @ free_addrs post)" "bfree b'"
    "heap_grow_size h2 = heap_grow_size h1" by auto
  obtain b'' post' where r: "absorb_right b' post = (b'', post')" by (metis surj_pair)
  from right_step [OF h2(2,3) r] obtain h3 where h3: "merge_with_next (baddr b') h2 = Some h3"
    "part h3 (pre' @ b'' # post') (free_addrs pre' @ free_addrs post')" "bfree b''" "baddr b'' = baddr b'"
    "heap_grow_size h3 = heap_grow_size h2" by blast
  from insert_part [OF h3(2,3)] obtain h4 where h4: "insert_free_block h3 (baddr b'') = Some h4"
    "part h4 (pre' @ b'' # post') (free_addrs (pre' @ b'' # post'))" "heap_grow_size h4 = heap_grow_size h3"
    by blast
  have "hfree (baddr b + 25) h = Some h4"
    using p(2,3,5,6) q(5) b w(1) h4(1) h3(4)
    by (simp add: hfree_def Let_def h1_def [symmetric] h2(1) h3(1) part_def)
  moreover have "heap_wf h4 (released pre b post)"
    using h4(2) released_coalesced [OF w(2)] by (simp add: heap_wf_part released_def l r)
  ultimately show ?thesis using h4(3) h3(5) h2(4) by (auto simp: h1_def)
qed

text \<open>What the operations rely on of the code that maps pages: it maps at the address asked for or
  fails with 0.\<close>

definition maps_in_place :: "(nat \<Rightarrow> nat \<Rightarrow> nat) \<Rightarrow> bool" where
  "maps_in_place mp \<longleftrightarrow> (\<forall>a n. mp a n = 0 \<or> mp a n = a)"

lemma user_maps_in_place: "maps_in_place (map_heap_pages_user sbrk)"
  by (auto simp: maps_in_place_def map_heap_pages_user_def Let_def split: option.splits)

lemma align_up_ge: "a \<le> align_up a HPAGE_SIZE"
  by (simp add: align_up_def)

lemma heap_wf_last:
  assumes "heap_wf h bs"
  obtains pre b where "bs = pre @ [b]" "header h (last_footer h) = baddr b"
    "last_footer h = baddr b + bsize b + 25"
proof -
  obtain pre b where bs: "bs = pre @ [b]" using assms by (cases bs rule: rev_cases) (auto simp: heap_wf_def)
  have w: "part h (pre @ b # []) (free_addrs bs)" using assms bs by (simp add: heap_wf_part)
  have "last_footer h = baddr b + bsize b + 25" using part_blocks(3) [OF w] by simp
  moreover have "header h (last_footer h) = baddr b"
    using part_blocks(2) [OF w] calculation by (simp add: field_ok_def ac_simps)
  ultimately show thesis using that bs by blast
qed

text \<open>The new block is written behind the last one, and then merged into it if that one is free.\<close>

definition append_block :: "blk \<Rightarrow> heap \<Rightarrow> heap" where
  "append_block n h =
     (let f = baddr n + 25 + bsize n
      in h\<lparr>is_free := (is_free h)(baddr n := True),
           size_bytes := (size_bytes h)(baddr n := bsize n), next_block := (next_block h)(baddr n := 0),
           header := (header h)(f := baddr n), footer := (footer h)(baddr n := f), last_footer := f\<rparr>)"

lemma append_part:
  assumes w: "part h bs (free_addrs bs)" and n: "baddr n = last_footer h + 8" "bfree n"
  shows "part (append_block n h) (bs @ [n]) (free_addrs bs)"
proof -
  let ?h = "append_block n h" and ?f = "baddr n + 25 + bsize n"
  have "blocks_ok ?h (first_available_vaddr h) bs (baddr n)"
  proof (rule blocks_ok_outside)
    show "blocks_ok h (first_available_vaddr h) bs (baddr n)" using w n by (simp add: part_def)
    show "agree_outside (baddr n) (?f + 8) h ?h" by (auto simp: agree_outside_def append_block_def Let_def)
  qed simp
  moreover have "field_ok ?h n" using n(2) by (simp add: field_ok_def append_block_def Let_def)
  moreover have "baddr n \<notin> set (free_addrs bs)"
    using w n contig_bounds by (fastforce simp: part_def blocks_ok_def)
  ultimately show ?thesis
    using w n by (auto simp: part_def blocks_ok_append append_block_def Let_def)
qed

lemma grow_free_last:
  assumes w: "part h (pre @ b # [n]) (free_addrs pre @ [baddr b])" and c: "coalesced (pre @ [b])"
    and free: "bfree b"
  shows "\<exists>h1 h2. remove_from_free_list h (baddr b) = Some h1 \<and>
    insert_free_block (merge_blocks (baddr b) (baddr n) h1) (baddr b) = Some h2 \<and>
    heap_wf h2 (pre @ [join b n]) \<and> heap_grow_size h2 = heap_grow_size h"
proof -
  from remove_part [of h "pre @ b # [n]" "free_addrs pre" "baddr b" "[]"] w obtain h1 where
    h1: "remove_from_free_list h (baddr b) = Some h1" "part h1 (pre @ b # [n]) (free_addrs pre)"
    "heap_grow_size h1 = heap_grow_size h" by auto
  have "part h1 ((pre @ [b]) @ n # []) (free_addrs pre)" using h1(2) by simp
  from part_order [OF this] part_order [OF h1(2)]
  have "part (merge_blocks (baddr b) (baddr n) h1) (pre @ join b n # []) (free_addrs pre @ free_addrs [])"
    using merge_part [of h1 pre b n "[]" "free_addrs pre"] h1(2) free by simp
  from insert_part [OF this] free obtain h2 where
    h2: "insert_free_block (merge_blocks (baddr b) (baddr n) h1) (baddr b) = Some h2"
    "part h2 (pre @ [join b n]) (free_addrs (pre @ [join b n]))"
    "heap_grow_size h2 = heap_grow_size (merge_blocks (baddr b) (baddr n) h1)" by auto
  moreover have "heap_wf h2 (pre @ [join b n])"
    using h2(2) c free by (simp add: heap_wf_part coalesced_append)
  ultimately show ?thesis using h1 by (auto simp: merge_blocks_def Let_def)
qed

lemma grow_used_last:
  assumes w: "part h (pre @ b # [n]) (free_addrs (pre @ [b]))" and c: "coalesced (pre @ [b])"
    and used: "\<not> bfree b" and n: "bfree n"
  shows "\<exists>h1. insert_free_block h (baddr n) = Some h1 \<and> heap_wf h1 (pre @ [b, n]) \<and>
    heap_grow_size h1 = heap_grow_size h"
proof -
  have "part h ((pre @ [b]) @ n # []) (free_addrs (pre @ [b]) @ free_addrs [])" using w by simp
  from insert_part [OF this n] obtain h1 where h1: "insert_free_block h (baddr n) = Some h1"
    "part h1 ((pre @ [b]) @ [n]) (free_addrs ((pre @ [b]) @ [n]))" "heap_grow_size h1 = heap_grow_size h"
    by auto
  then show ?thesis using c used by (auto simp: heap_wf_part coalesced_append)
qed

lemma grow_by_spec:
  assumes wf: "heap_wf h bs" and pages: "0 < pages" and mp: "maps_in_place mp"
  shows "\<exists>b h'. grow_heap_by mp pages h = Some (b, h') \<and>
    (b = 0 \<and> h' = h \<and> (\<exists>a. mp a pages = 0) \<or>
     (\<exists>pre n. heap_wf h' (pre @ [n]) \<and> b = baddr n \<and> bfree n \<and> pages * 4096 \<le> bsize n + 33 \<and>
        live (pre @ [n]) = live bs \<and> heap_grow_size h' = heap_grow_size h))"
proof -
  define addr where "addr = align_up (last_footer h + 8) HPAGE_SIZE"
  have ge: "last_footer h + 8 \<le> addr" unfolding addr_def by (rule align_up_ge)
  show ?thesis
  proof (cases "mp addr pages = 0")
    case True
    then show ?thesis using pages by (auto simp: grow_heap_by_def addr_def)
  next
    case False
    then have np: "mp addr pages = addr" using mp unfolding maps_in_place_def by metis
    obtain pre b where bs: "bs = pre @ [b]" and last: "header h (last_footer h) = baddr b"
      "last_footer h = baddr b + bsize b + 25" by (rule heap_wf_last [OF wf])
    define n where "n = \<lparr>baddr = last_footer h + 8,
      bsize = pages * 4096 + (addr - (last_footer h + 8)) - 25 - 8, bfree = True\<rparr>"
    define h1 where "h1 = append_block n h"
    have c: "coalesced (pre @ [b])" using wf bs by (simp add: heap_wf_part)
    have w1: "part h1 (pre @ b # [n]) (free_addrs (pre @ [b]))"
      using append_part [of h bs n] wf bs by (simp add: h1_def n_def heap_wf_part)
    have big: "pages * 4096 \<le> bsize n + 33" using pages ge by (simp add: n_def)
    have grow: "grow_heap_by mp pages h =
      (if is_free h1 (baddr b)
       then (case remove_from_free_list h1 (baddr b) of None \<Rightarrow> None
         | Some h2 \<Rightarrow> map_option (Pair (baddr b)) (insert_free_block (merge_blocks (baddr b) (baddr n) h2) (baddr b)))
       else map_option (Pair (baddr n)) (insert_free_block h1 (baddr n)))"
      using False pages last(1)
      by (simp add: grow_heap_by_def Let_def addr_def [symmetric] np h1_def append_block_def n_def
          page_to_addr_base_def cong: option.case_cong)
    have gs: "heap_grow_size h1 = heap_grow_size h" by (simp add: h1_def append_block_def Let_def)
    show ?thesis
    proof (cases "bfree b")
      case True
      then have "part h1 (pre @ b # [n]) (free_addrs pre @ [baddr b])" using w1 by simp
      from grow_free_last [OF this c True] part_in_heap(6) [OF w1] True grow gs big bs show ?thesis
        by (auto intro!: exI [of _ pre] exI [of _ "join b n"])
    next
      case False
      from grow_used_last [OF w1 c False] part_in_heap(6) [OF w1] False grow gs big bs show ?thesis
        by (auto intro!: exI [of _ "pre @ [b]"] exI [of _ n] simp: n_def)
    qed
  qed
qed

section \<open>Allocation\<close>

lemma occupy_spec:
  assumes wf: "heap_wf h (pre @ b # post)" and b: "bfree b" "req \<le> bsize b"
  shows "\<exists>h' bs' n. occupy_block (baddr b) req h = Some h' \<and> heap_wf h' bs' \<and>
    req \<le> n \<and> live bs' = insert (baddr b + 25, n) (live (pre @ b # post)) \<and>
    heap_grow_size h' = heap_grow_size h"
proof -
  have lv: "live (pre @ occupied b req @ post) =
      insert (baddr b + 25, if bsize b \<le> req + 33 then bsize b else req) (live (pre @ b # post))"
    using b by (auto simp: occupied_def)
  have "\<exists>h'. occupy_block (baddr b) req h = Some h' \<and> heap_wf h' (pre @ occupied b req @ post) \<and>
    heap_grow_size h' = heap_grow_size h"
  proof (cases "bsize b \<le> req + 33")
    case True
    then show ?thesis using occupy_whole [OF wf b(1)] by blast
  next
    case False
    then show ?thesis using occupy_split [OF wf b(1)] by simp
  qed
  then show ?thesis using lv b(2) by (metis le_refl)
qed

lemma live_addr:
  assumes "heap_wf h (pre @ b # post)" "bfree b"
  shows "(baddr b + 25, n) \<notin> live (pre @ b # post)"
proof -
  have "sorted_wrt (<) (map baddr (pre @ b # post))"
    using assms(1) contig_sorted [of _ "pre @ b # post"] by (auto simp: heap_wf_def blocks_ok_def simp del: map_append)
  then have "distinct (map baddr (pre @ b # post))" by (simp add: strict_sorted_iff)
  then show ?thesis using assms(2) by (fastforce simp: live_def)
qed

lemma grow_and_occupy_spec:
  assumes grow: "r = Some (b, h1)"
    "b = 0 \<and> h1 = h \<and> fail \<or> (\<exists>pre n. heap_wf h1 (pre @ [n]) \<and> b = baddr n \<and> bfree n \<and>
       req \<le> bsize n \<and> live (pre @ [n]) = live bs \<and> heap_grow_size h1 = g)"
    and wf: "heap_wf h bs"
  shows "\<exists>p h' bs'. map_option user_pointer (grow_and_occupy r req) = Some (p, h') \<and> heap_wf h' bs' \<and>
    (p = 0 \<and> live bs' = live bs \<and> fail \<or>
     (\<exists>n\<ge>req. 25 < p \<and> (p, n) \<notin> live bs \<and> live bs' = insert (p, n) (live bs)))"
  using grow(2)
proof (elim disjE exE conjE)
  assume "b = 0" "h1 = h" "fail"
  then show ?thesis using wf grow(1) by (auto simp: grow_and_occupy_def user_pointer_def)
next
  fix pre n
  assume n: "heap_wf h1 (pre @ [n])" "b = baddr n" "bfree n" "req \<le> bsize n" "live (pre @ [n]) = live bs"
  have n1: "heap_wf h1 (pre @ n # [])" using n(1) by simp
  have pos: "0 < baddr n" using heap_wf_parts(6) [OF n1] .
  from occupy_spec [OF n1 n(3,4)] live_addr [OF n1 n(3)] pos n(2,5) grow(1) show ?thesis
    by (fastforce simp: grow_and_occupy_def user_pointer_def)
qed

lemma find_fit_block:
  assumes wf: "heap_wf h bs" and u: "find (\<lambda>u. req \<le> size_bytes h u \<and> is_free h u) (free_addrs bs) = Some u"
  obtains pre b post where "bs = pre @ b # post" "u = baddr b" "bfree b" "req \<le> bsize b"
proof -
  have "u \<in> set (free_addrs bs)" "req \<le> size_bytes h u"
    using u by (auto simp: find_Some_iff in_set_conv_nth simp del: set_map)
  then obtain b where b: "b \<in> set bs" "bfree b" "u = baddr b" by auto
  then have "req \<le> bsize b"
    using wf \<open>req \<le> size_bytes h u\<close> by (auto simp: heap_wf_def blocks_ok_def field_ok_def)
  then show thesis using that b split_list [OF b(1)] by blast
qed

lemma pages_enough:
  "bytes_to_pages req = Some pages \<Longrightarrow> 0 < pages \<and> req + 33 \<le> pages * 4096"
  by (auto simp: bytes_to_pages_def addr_to_page_def Let_def split: if_splits)

lemma hmalloc_spec:
  assumes wf: "heap_wf h bs" and mp: "maps_in_place mp"
  shows "\<exists>p h' bs'. hmalloc mp req h = Some (p, h') \<and> heap_wf h' bs' \<and>
    (p = 0 \<and> live bs' = live bs \<and> (bytes_to_pages req = None \<or> (\<exists>a n. mp a n = 0)) \<or>
     (\<exists>n\<ge>req. 25 < p \<and> (p, n) \<notin> live bs \<and> live bs' = insert (p, n) (live bs)))"
proof -
  have init: "heap_initialized h" "0 < heap_grow_size h" using wf by (auto simp: heap_wf_def)
  show ?thesis
  proof (cases "bytes_to_pages req")
    case None
    then show ?thesis using wf init by (auto simp: hmalloc_def)
  next
    case (Some pages)
    note pg = pages_enough [OF Some]
    show ?thesis
    proof (cases "heap_grow_size h < pages")
      case True
      from grow_by_spec [OF wf _ mp, of pages] pg obtain b h1 where g: "grow_heap_by mp pages h = Some (b, h1)"
        "b = 0 \<and> h1 = h \<and> (\<exists>a n. mp a n = 0) \<or> (\<exists>pre n. heap_wf h1 (pre @ [n]) \<and> b = baddr n \<and> bfree n \<and>
           req \<le> bsize n \<and> live (pre @ [n]) = live bs \<and> heap_grow_size h1 = heap_grow_size h)"
        by fastforce
      from grow_and_occupy_spec [OF g wf] init Some True show ?thesis by (simp add: hmalloc_def)
    next
      case False
      have seg: "nseg (next_block h) (free_regions h) (free_addrs bs) 0" using wf by (simp add: heap_wf_def)
      note fit = find_first_fit_spec [OF seg, of req]
      show ?thesis
      proof (cases "find (\<lambda>u. req \<le> size_bytes h u \<and> is_free h u) (free_addrs bs)")
        case None
        let ?h = "h\<lparr>heap_grow_size := heap_grow_size h + 1\<rparr>"
        have wf': "heap_wf ?h bs"
          using wf by (simp add: heap_wf_def blocks_ok_def field_ok_def)
        from grow_by_spec [OF wf' init(2) mp] obtain b h1 where
          g: "grow_heap_by mp (heap_grow_size h) ?h = Some (b, h1)"
          "b = 0 \<and> h1 = ?h \<and> (\<exists>a n. mp a n = 0) \<or> (\<exists>pre n. heap_wf h1 (pre @ [n]) \<and> b = baddr n \<and> bfree n \<and>
             heap_grow_size h * 4096 \<le> bsize n + 33 \<and> live (pre @ [n]) = live bs \<and>
             heap_grow_size h1 = heap_grow_size ?h)"
          by blast
        have "req + 33 \<le> heap_grow_size h * 4096" using pg False by linarith
        then have g2: "b = 0 \<and> h1 = ?h \<and> (\<exists>a n. mp a n = 0) \<or> (\<exists>pre n. heap_wf h1 (pre @ [n]) \<and> b = baddr n \<and>
             bfree n \<and> req \<le> bsize n \<and> live (pre @ [n]) = live bs \<and> heap_grow_size h1 = heap_grow_size ?h)"
          using g(2) by fastforce
        from grow_and_occupy_spec [OF g(1) g2 wf'] init Some False None fit show ?thesis
          by (simp add: hmalloc_def grow_heap_def)
      next
        case found: (Some u)
        obtain pre b post where b: "bs = pre @ b # post" "u = baddr b" "bfree b" "req \<le> bsize b"
          by (rule find_fit_block [OF wf found])
        note w = wf [unfolded b(1)]
        have pos: "0 < baddr b" using heap_wf_parts(6) [OF w] .
        from occupy_spec [OF w b(3,4)] live_addr [OF w b(3)] pos b(1,2) init Some False fit found
        show ?thesis by (fastforce simp: hmalloc_def)
      qed
    qed
  qed
qed

end
