(* ===== verification/Heap_Contract.thy ===== *)
theory Heap_Contract
  imports Hmalloc
begin

text \<open>
  The contract of the heap: what a client of \<open>hmalloc\<close> and \<open>hfree\<close> may rely on, as the locale
  \<open>heap_allocator\<close> over the set of payloads handed out, its interpretation on the allocator of
  \<^verbatim>\<open>libc/hmalloc/hmalloc.c\<close>, and the properties of the heap stated over that set.
\<close>

section \<open>The allocator's contract\<close>

text \<open>What a client of an allocator relies on: \<open>inv s L\<close> says that in state \<open>s\<close> exactly the
  payloads \<open>L\<close> (start and length) are handed out.\<close>

locale heap_allocator =
  fixes inv :: "'s \<Rightarrow> (nat \<times> nat) set \<Rightarrow> bool"
    and alloc :: "nat \<Rightarrow> 's \<Rightarrow> (nat \<times> 's) option"
    and release :: "nat \<Rightarrow> 's \<Rightarrow> 's option"
    and may_fail :: "nat \<Rightarrow> bool"
  assumes apart: "inv s L \<Longrightarrow> (p, n) \<in> L \<Longrightarrow> (q, m) \<in> L \<Longrightarrow> (p, n) \<noteq> (q, m) \<Longrightarrow> p + n < q \<or> q + m < p"
    and not_null: "inv s L \<Longrightarrow> (p, n) \<in> L \<Longrightarrow> 0 < p"
    and alloc_law: "inv s L \<Longrightarrow> \<exists>p s'. alloc req s = Some (p, s') \<and>
      (p = 0 \<and> inv s' L \<and> may_fail req \<or> (\<exists>n\<ge>req. (p, n) \<notin> L \<and> inv s' (insert (p, n) L)))"
    and release_law: "inv s L \<Longrightarrow> (p, n) \<in> L \<Longrightarrow> \<exists>s'. release p s = Some s' \<and> inv s' (L - {(p, n)})"
begin

lemma alloc_disjoint:
  assumes "inv s L" "alloc req s = Some (p, s')" "p \<noteq> 0"
  shows "\<exists>n\<ge>req. inv s' (insert (p, n) L) \<and> (\<forall>(q, m)\<in>L. p + n < q \<or> q + m < p)"
proof -
  obtain n where n: "req \<le> n" "(p, n) \<notin> L" "inv s' (insert (p, n) L)"
    using alloc_law [OF assms(1), of req] assms(2,3) by auto
  have "p + n < q \<or> q + m < p" if "(q, m) \<in> L" for q m
    using apart [OF n(3), of p n q m] that n(2) by auto
  then show ?thesis using n by auto
qed

lemma alloc_release:
  assumes "inv s L" "alloc req s = Some (p, s')" "p \<noteq> 0"
  shows "\<exists>s''. release p s' = Some s'' \<and> inv s'' L"
proof -
  obtain n where n: "(p, n) \<notin> L" "inv s' (insert (p, n) L)"
    using alloc_law [OF assms(1), of req] assms(2,3) by auto
  then show ?thesis using release_law [OF n(2), of p n] by (simp add: insert_Diff_if)
qed

lemma alloc_succeeds:
  assumes "inv s L" "\<not> may_fail req"
  shows "\<exists>p s' n. alloc req s = Some (p, s') \<and> req \<le> n \<and> (p, n) \<notin> L \<and> inv s' (insert (p, n) L)"
  using alloc_law [OF assms(1), of req] assms(2) by blast

end

definition heap_inv :: "heap \<Rightarrow> (nat \<times> nat) set \<Rightarrow> bool" where
  "heap_inv h L \<longleftrightarrow> (\<exists>bs. heap_wf h bs \<and> live bs = L)"

lemma contig_apart:
  assumes "contig a (xs @ b # ys @ c # zs) e"
  shows "baddr b + bsize b + 33 \<le> baddr c"
  using assms contig_le by (fastforce simp: contig_append)

lemma two_elements:
  assumes "b \<in> set bs" "c \<in> set bs" "b \<noteq> c"
  obtains xs ys zs where "bs = xs @ b # ys @ c # zs" | xs ys zs where "bs = xs @ c # ys @ b # zs"
proof -
  obtain xs r where r: "bs = xs @ b # r" using split_list [OF assms(1)] by blast
  show thesis
  proof (cases "c \<in> set r")
    case True
    then show thesis using that(1) r split_list [OF True] by blast
  next
    case False
    then have "c \<in> set xs" using assms(2,3) r by auto
    then show thesis using that(2) r split_list [of c xs] by fastforce
  qed
qed

lemma live_apart:
  assumes wf: "heap_wf h bs" and p: "(p, n) \<in> live bs" "(q, m) \<in> live bs" "(p, n) \<noteq> (q, m)"
  shows "p + n < q \<or> q + m < p"
proof -
  obtain b c where b: "b \<in> set bs" "p = baddr b + 25" "n = bsize b"
    and c: "c \<in> set bs" "q = baddr c + 25" "m = bsize c"
    using p by (auto simp: live_def)
  have ct: "contig (first_available_vaddr h) bs (last_footer h + 8)"
    using wf by (simp add: heap_wf_def blocks_ok_def)
  from b c p(3) have "b \<noteq> c" by auto
  from two_elements [OF b(1) c(1) this] have "baddr b + bsize b + 33 \<le> baddr c \<or> baddr c + bsize c + 33 \<le> baddr b"
    using contig_apart ct by metis
  then show ?thesis using b(2,3) c(2,3) by auto
qed

lemma live_block:
  assumes "heap_wf h bs" "(p, n) \<in> live bs"
  obtains pre b post where "bs = pre @ b # post" "\<not> bfree b" "p = baddr b + 25" "n = bsize b"
  using assms(2) by (auto simp: live_def) (metis split_list)

lemma live_not_twice:
  assumes "heap_wf h (pre @ b # post)"
  shows "(baddr b + 25, n) \<notin> live pre" "(baddr b + 25, n) \<notin> live post"
proof -
  have "sorted_wrt (<) (map baddr (pre @ b # post))"
    using assms contig_sorted [of _ "pre @ b # post"] by (auto simp: heap_wf_def blocks_ok_def simp del: map_append)
  then have "distinct (map baddr (pre @ b # post))" by (simp add: strict_sorted_iff)
  then show "(baddr b + 25, n) \<notin> live pre" "(baddr b + 25, n) \<notin> live post" by (fastforce simp: live_def)+
qed

lemma live_released:
  assumes "heap_wf h (pre @ b # post)" "\<not> bfree b"
  shows "live (released pre b post) = live (pre @ b # post) - {(baddr b + 25, bsize b)}"
proof -
  have left: "live pre' = live pre \<and> bfree b'" if "absorb_left pre (b\<lparr>bfree := True\<rparr>) = (pre', b')" for pre' b'
    using that by (cases pre rule: rev_cases) (auto simp: absorb_left_def split: if_splits)
  have right: "live post' = live post \<and> bfree b''" if "absorb_right b' post = (b'', post')" "bfree b'" for b' b'' post'
    using that by (cases post) (auto simp: absorb_right_def split: if_splits)
  have "live (released pre b post) = live pre \<union> live post"
    using left right by (auto simp: released_def split: prod.splits)
  then show ?thesis using live_not_twice [OF assms(1)] assms(2) by auto
qed

lemma hmalloc_inv:
  assumes "heap_inv h L" "maps_in_place mp"
  shows "\<exists>p h'. hmalloc mp req h = Some (p, h') \<and>
    (p = 0 \<and> heap_inv h' L \<and> (bytes_to_pages req = None \<or> (\<exists>a n. mp a n = 0)) \<or>
     (\<exists>n\<ge>req. (p, n) \<notin> L \<and> heap_inv h' (insert (p, n) L)))"
proof -
  obtain bs where bs: "heap_wf h bs" "L = live bs" using assms(1) by (auto simp: heap_inv_def)
  from hmalloc_spec [OF bs(1) assms(2), of req] obtain p h' bs' where
    m: "hmalloc mp req h = Some (p, h')" "heap_wf h' bs'" and
    c: "p = 0 \<and> live bs' = live bs \<and> (bytes_to_pages req = None \<or> (\<exists>a n. mp a n = 0)) \<or>
      (\<exists>n\<ge>req. 25 < p \<and> (p, n) \<notin> live bs \<and> live bs' = insert (p, n) (live bs))" by blast
  have i: "heap_inv h' (live bs')" using m(2) by (auto simp: heap_inv_def)
  from c show ?thesis
  proof (elim disjE)
    assume "\<exists>n\<ge>req. 25 < p \<and> (p, n) \<notin> live bs \<and> live bs' = insert (p, n) (live bs)"
    then show ?thesis using m(1) bs(2) i by auto
  qed (use m(1) bs(2) i in auto)
qed

lemma hfree_inv:
  assumes "heap_inv h L" "(p, n) \<in> L"
  shows "\<exists>h'. hfree p h = Some h' \<and> heap_inv h' (L - {(p, n)})"
proof -
  obtain bs where bs: "heap_wf h bs" "live bs = L" using assms(1) by (auto simp: heap_inv_def)
  obtain pre b post where b: "bs = pre @ b # post" "\<not> bfree b" "p = baddr b + 25" "n = bsize b"
    using live_block [OF bs(1)] assms(2) bs(2) by metis
  from hfree_spec [OF bs(1) [unfolded b(1)] b(2)] live_released [OF bs(1) [unfolded b(1)] b(2)] bs b
  show ?thesis by (auto simp: heap_inv_def)
qed

section \<open>The allocator meets it\<close>

locale page_mapper =
  fixes mp :: "nat \<Rightarrow> nat \<Rightarrow> nat"
  assumes in_place: "maps_in_place mp"

sublocale page_mapper \<subseteq> heap_allocator heap_inv "hmalloc mp" hfree
  "\<lambda>req. bytes_to_pages req = None \<or> (\<exists>a n. mp a n = 0)"
proof
  fix s L p n q m req
  show "p + n < q \<or> q + m < p" if "heap_inv s L" "(p, n) \<in> L" "(q, m) \<in> L" "(p, n) \<noteq> (q, m)"
    using that live_apart [of s _ p n q m] by (auto simp: heap_inv_def)
  show "0 < p" if "heap_inv s L" "(p, n) \<in> L" using that by (auto simp: heap_inv_def live_def)
  show "\<exists>p s'. hmalloc mp req s = Some (p, s') \<and>
      (p = 0 \<and> heap_inv s' L \<and> (bytes_to_pages req = None \<or> (\<exists>a n. mp a n = 0)) \<or>
       (\<exists>n\<ge>req. (p, n) \<notin> L \<and> heap_inv s' (insert (p, n) L)))" if "heap_inv s L"
    by (rule hmalloc_inv [OF that in_place])
  show "\<exists>s'. hfree p s = Some s' \<and> heap_inv s' (L - {(p, n)})" if "heap_inv s L" "(p, n) \<in> L"
    by (rule hfree_inv [OF that])
qed

context page_mapper
begin

lemmas hmalloc_alloc_law = alloc_law
lemmas hmalloc_disjoint = alloc_disjoint
lemmas hmalloc_release = alloc_release
lemmas hmalloc_not_null = not_null

end

text \<open>In user space the pages come from \<open>sbrk\<close>; the wrapper refuses a break that is not where the
  heap ends, so the contract holds whatever \<open>sbrk\<close> does.\<close>

interpretation user_heap: page_mapper "map_heap_pages_user sbrk" for sbrk
  by unfold_locales (rule user_maps_in_place)

lemma initialize_region_inv:
  assumes "initialize_heap_region a pages h = (True, h')" "0 < pages" "0 < heap_grow_size h"
  shows "heap_inv h' {}"
proof -
  let ?b = "\<lparr>baddr = a, bsize = pages * 4096 - 33, bfree = True\<rparr>"
  have "heap_wf h' [?b]"
    using assms
    by (auto simp: initialize_heap_region_def Let_def heap_wf_def blocks_ok_def field_ok_def
        page_to_addr_base_def split: if_splits)
  then show ?thesis by (auto simp: heap_inv_def intro!: exI [of _ "[?b]"])
qed

lemma kernel_heap_inv:
  "case hmalloc_initialize mp start h of
     None \<Rightarrow> mp start 5 = 0
   | Some h' \<Rightarrow> heap_inv h' {}"
proof -
  obtain ok h' where r: "initialize_heap_region (mp start 5) 5 (h\<lparr>heap_grow_size := 5\<rparr>) = (ok, h')"
    by (metis surj_pair)
  have "\<not> ok \<Longrightarrow> mp start 5 = 0"
    using r by (auto simp: initialize_heap_region_def Let_def split: if_splits)
  moreover have "ok \<Longrightarrow> heap_inv h' {}" using initialize_region_inv [of "mp start 5" 5] r by simp
  ultimately show ?thesis by (auto simp: hmalloc_initialize_def r)
qed

lemma no_live_one_block:
  assumes "heap_wf h bs" "live bs = {}"
  shows "\<exists>b. bs = [b] \<and> bfree b"
proof -
  have "\<forall>b\<in>set bs. bfree b" using assms(2) by (auto simp: live_def)
  then show ?thesis using assms(1) by (cases bs rule: coalesced.cases) (auto simp: heap_wf_def)
qed

section \<open>Properties of the heap\<close>

text \<open>A concrete heap for the examples below: set up at \<open>0x10000\<close>, then one allocation of 100 bytes,
  which is then freed.\<close>

definition zero_heap :: heap where
  "zero_heap = \<lparr>is_free = (\<lambda>_. False), size_bytes = (\<lambda>_. 0), next_block = (\<lambda>_. 0), footer = (\<lambda>_. 0),
     header = (\<lambda>_. 0), free_regions = 0, heap_grow_size = 1, first_available_vaddr = 0, last_footer = 0,
     heap_initialized = False\<rparr>"

definition heap0 :: heap where
  "heap0 = the (hmalloc_initialize (\<lambda>a n. a) 65536 zero_heap)"

definition heap1 :: heap where
  "heap1 = snd (the (hmalloc (\<lambda>a n. a) 100 heap0))"

definition heap2 :: heap where
  "heap2 = the (hfree 65561 heap1)"

lemma in_place_id: "maps_in_place (\<lambda>a n. a)"
  by (simp add: maps_in_place_def)

lemma heap0_inv: "heap_inv heap0 {}"
  using kernel_heap_inv [of "\<lambda>a n. a" 65536 zero_heap] by (auto simp: heap0_def split: option.splits)

lemmas heap_eval = heap0_def hmalloc_initialize_def initialize_heap_region_def page_to_addr_base_def zero_heap_def
  Let_def hmalloc_def bytes_to_pages_def addr_to_page_def occupy_block_def split_region_def set_footer_at_def
  replace_free_list_block_def remove_from_free_list_def is_block_header_in_heap_def set_next_def

lemma heap1_alloc: "hmalloc (\<lambda>a n. a) 100 heap0 = Some (65561, heap1)"
proof -
  have "map_option fst (hmalloc (\<lambda>a n. a) 100 heap0) = Some 65561"
    by (simp add: heap_eval find_first_fit_block.simps [of _ 65536])
  then show ?thesis by (auto simp: heap1_def)
qed

lemma heap1_inv: "\<exists>n\<ge>100. heap_inv heap1 {(65561, n)}"
  using hmalloc_inv [OF heap0_inv in_place_id, of 100] heap1_alloc by auto

lemma heap2_free: "hfree 65561 heap1 = Some heap2"
  using heap1_inv hfree_inv [of heap1] by (fastforce simp: heap2_def)

text \<open>C4. A successful \<open>hmalloc\<close> hands out at least the bytes asked for, disjoint from every payload
  in use (with room for the bookkeeping in between), and exactly that payload becomes in use.\<close>

theorem hmalloc_fresh_disjoint:
  assumes "heap_inv h L" "maps_in_place mp" "hmalloc mp req h = Some (p, h')" "p \<noteq> 0"
  shows "\<exists>n\<ge>req. heap_inv h' (insert (p, n) L) \<and> (\<forall>(q, m)\<in>L. p + n < q \<or> q + m < p)"
  by (rule page_mapper.hmalloc_disjoint [OF page_mapper.intro [OF assms(2)] assms(1,3,4)])

theorem hmalloc_fresh_disjoint_witness:
  "\<exists>n\<ge>100. heap_inv heap1 (insert (65561, n) {}) \<and> (\<forall>(q, m)\<in>{}. 65561 + n < q \<or> q + m < 65561)"
  using hmalloc_fresh_disjoint [OF heap0_inv in_place_id heap1_alloc] by simp



text \<open>C23. \<open>hfree\<close> of what \<open>hmalloc\<close> returned returns, and leaves exactly the payloads in use that
  were in use before.\<close>

theorem hmalloc_hfree_roundtrip:
  assumes "heap_inv h L" "maps_in_place mp" "hmalloc mp req h = Some (p, h')" "p \<noteq> 0"
  shows "\<exists>h''. hfree p h' = Some h'' \<and> heap_inv h'' L"
  by (rule page_mapper.hmalloc_release [OF page_mapper.intro [OF assms(2)] assms(1,3,4)])

theorem hmalloc_hfree_roundtrip_witness: "heap_inv heap2 {}"
  using hmalloc_hfree_roundtrip [OF heap0_inv in_place_id heap1_alloc] heap2_free by simp

text \<open>C11. Freeing the last payload in use leaves one free block that spans the whole heap: no
  fragmentation survives, whatever the history.\<close>

theorem hfree_coalesces_all:
  assumes "heap_inv h {(p, n)}" "hfree p h = Some h'"
  shows "free_regions h' = first_available_vaddr h' \<and> next_block h' (free_regions h') = 0 \<and>
    is_free h' (free_regions h') \<and>
    first_available_vaddr h' + 25 + size_bytes h' (free_regions h') = last_footer h'"
proof -
  have "heap_inv h' {}" using hfree_inv [OF assms(1), of p n] assms(2) by simp
  then obtain b where "heap_wf h' [b]" "bfree b"
    using no_live_one_block [of h'] unfolding heap_inv_def by blast
  then show ?thesis by (auto simp: heap_wf_def blocks_ok_def field_ok_def)
qed

theorem hfree_coalesces_all_witness:
  "free_regions heap2 = first_available_vaddr heap2 \<and> next_block heap2 (free_regions heap2) = 0"
  using heap1_inv hfree_coalesces_all [OF _ heap2_free] by blast

text \<open>\<open>hmalloc_usable_size\<close> of a payload in use is its length.\<close>

theorem usable_size_exact:
  assumes "heap_inv h L" "(p, n) \<in> L"
  shows "hmalloc_usable_size p h = n"
proof -
  obtain bs where bs: "heap_wf h bs" "live bs = L" using assms(1) by (auto simp: heap_inv_def)
  obtain pre b post where b: "bs = pre @ b # post" "\<not> bfree b" "p = baddr b + 25" "n = bsize b"
    using live_block [OF bs(1)] assms(2) bs(2) by metis
  have w: "part h (pre @ b # post) (free_addrs bs)" using bs(1) b(1) by (simp add: heap_wf_part)
  note i = part_in_heap [OF w] and q = part_blocks [OF w]
  show ?thesis using i q b bs(1) by (auto simp: hmalloc_usable_size_def Let_def field_ok_def heap_wf_def)
qed

theorem usable_size_exact_witness: "100 \<le> hmalloc_usable_size 65561 heap1"
  using heap1_inv usable_size_exact [of heap1 _ 65561] by blast

text \<open>The kernel's set-up ends either in the halt, when the first pages cannot be mapped, or in a
  well-formed heap with no payload in use.\<close>

theorem hmalloc_initialize_inv:
  "case hmalloc_initialize mp start h of
     None \<Rightarrow> mp start 5 = 0
   | Some h' \<Rightarrow> heap_inv h' {}"
  by (rule kernel_heap_inv)

text \<open>\<open>hmalloc_page_aligned\<close> returns the address of the block's header, not of its payload, and it
  is page-aligned only by chance: on a fresh heap a request for 100 bytes that follows one for 100
  bytes gets \<open>0x10085\<close>, an odd address at which the header of the block lies.\<close>

theorem page_aligned_returns_header:
  "map_option (\<lambda>(p, h). (p, size_bytes h p, is_free h p)) (hmalloc_page_aligned (\<lambda>a n. a) 100 heap1)
   = Some (65669, 100, False)"
  by (simp add: heap1_def heap_eval find_first_fit_block.simps [of _ 65536] hmalloc_page_aligned_def
    grow_and_occupy_def grow_heap_by_def align_up_def merge_blocks_def insert_free_block_def)

end
