(* ===== verification/Fifo.thy ===== *)
theory Fifo
  imports Main
begin

text \<open>
  The contract of the kernel's first-in first-out queues: the ring buffer behind the keyboard and
  the terminal, and the process queues of the scheduler. \<open>rep s q\<close> says that the state \<open>s\<close> holds
  the values \<open>q\<close>, oldest first; \<open>fits s q\<close> that it may hold \<open>q\<close>. An operation that would
  leave its memory is \<open>None\<close>.
\<close>

datatype 'v queue_op = Enq 'v | Deq

text \<open>The specification of a run: the values read, in order, and the queue that is left.\<close>

fun spec_run :: "'v queue_op list \<Rightarrow> 'v list \<Rightarrow> 'v option list \<times> 'v list" where
  "spec_run [] q = ([], q)"
| "spec_run (Enq v # ops) q = spec_run ops (q @ [v])"
| "spec_run (Deq # ops) q =
     (case q of
        [] \<Rightarrow> (let (out, q') = spec_run ops [] in (None # out, q'))
      | v # q1 \<Rightarrow> (let (out, q') = spec_run ops q1 in (Some v # out, q')))"

text \<open>The same run on an implementation.\<close>

fun impl_run ::
  "('v \<Rightarrow> 's \<Rightarrow> 's option) \<Rightarrow> ('s \<Rightarrow> ('v option \<times> 's) option) \<Rightarrow> 'v queue_op list \<Rightarrow> 's
     \<Rightarrow> ('v option list \<times> 's) option" where
  "impl_run enq deq [] s = Some ([], s)"
| "impl_run enq deq (Enq v # ops) s =
     (case enq v s of None \<Rightarrow> None | Some s1 \<Rightarrow> impl_run enq deq ops s1)"
| "impl_run enq deq (Deq # ops) s =
     (case deq s of
        None \<Rightarrow> None
      | Some (v, s1) \<Rightarrow> map_option (\<lambda>(out, s2). (v # out, s2)) (impl_run enq deq ops s1))"

text \<open>A run only ever asks for queues that are admitted.\<close>

fun run_fits :: "('v list \<Rightarrow> bool) \<Rightarrow> 'v queue_op list \<Rightarrow> 'v list \<Rightarrow> bool" where
  "run_fits room [] q \<longleftrightarrow> True"
| "run_fits room (Enq v # ops) q \<longleftrightarrow> room (q @ [v]) \<and> run_fits room ops (q @ [v])"
| "run_fits room (Deq # ops) q \<longleftrightarrow> run_fits room ops (tl q)"

locale fifo =
  fixes rep :: "'s \<Rightarrow> 'v list \<Rightarrow> bool"
    and fits :: "'s \<Rightarrow> 'v list \<Rightarrow> bool"
    and enq :: "'v \<Rightarrow> 's \<Rightarrow> 's option"
    and deq :: "'s \<Rightarrow> ('v option \<times> 's) option"
  assumes enq_law: "rep s q \<Longrightarrow> fits s (q @ [v]) \<Longrightarrow>
      \<exists>s'. enq v s = Some s' \<and> rep s' (q @ [v]) \<and> fits s' = fits s"
    and deq_nil: "rep s [] \<Longrightarrow> \<exists>s'. deq s = Some (None, s') \<and> rep s' [] \<and> fits s' = fits s"
    and deq_Cons: "rep s (v # q) \<Longrightarrow> \<exists>s'. deq s = Some (Some v, s') \<and> rep s' q \<and> fits s' = fits s"
begin

lemma run_refines:
  "rep s q \<Longrightarrow> run_fits (fits s) ops q \<Longrightarrow>
   \<exists>s'. impl_run enq deq ops s = Some (fst (spec_run ops q), s') \<and> rep s' (snd (spec_run ops q)) \<and>
     fits s' = fits s"
proof (induction ops arbitrary: s q)
  case Nil
  then show ?case by simp
next
  case (Cons x ops)
  show ?case
  proof (cases x)
    case (Enq v)
    with Cons.prems obtain s1 where s1: "enq v s = Some s1" "rep s1 (q @ [v])" "fits s1 = fits s"
      using enq_law [of s q v] by auto
    then show ?thesis using Cons.IH [of s1 "q @ [v]"] Cons.prems Enq by simp
  next
    case Deq
    show ?thesis
    proof (cases q)
      case Nil
      with Cons.prems obtain s1 where s1: "deq s = Some (None, s1)" "rep s1 []" "fits s1 = fits s"
        using deq_nil [of s] by auto
      then show ?thesis using Cons.IH [of s1 "[]"] Cons.prems Deq Nil by (auto simp: split_beta)
    next
      case (Cons v q1)
      with Cons.prems obtain s1 where s1: "deq s = Some (Some v, s1)" "rep s1 q1" "fits s1 = fits s"
        using deq_Cons [of s v q1] by auto
      then show ?thesis using Cons.IH [of s1 q1] Cons.prems Deq Cons by (auto simp: split_beta)
    qed
  qed
qed

end

text \<open>Writing values and then reading as many gives the values in the order written.\<close>

lemma spec_run_append:
  "spec_run (xs @ ys) q =
     (let (o1, q1) = spec_run xs q; (o2, q2) = spec_run ys q1 in (o1 @ o2, q2))"
  by (induction xs q rule: spec_run.induct) (auto simp: split_beta Let_def split: list.split)

lemma spec_run_enqs: "spec_run (map Enq vs) q = ([], q @ vs)"
  by (induction vs arbitrary: q) auto

lemma spec_run_deqs: "spec_run (replicate (length q) Deq) q = (map Some q, [])"
  by (induction q) auto

end
