(* ===== verification/Ringbuffer.thy ===== *)
theory Ringbuffer
  imports Hojicha_Prelude Fifo
begin

text \<open>
  The ring buffer of \<^verbatim>\<open>kernel/utils/ringbuffer.c\<close>: \<open>size\<close> slots behind an unused slot 0, a read
  and a write position that start at 0 and then cycle through \<open>1 .. size\<close>. An access outside the
  allocated slots is \<open>None\<close>. \<open>read_guarded\<close> and \<open>write_guarded\<close> give
  the calls of the lock callbacks around a read and a write. Values are pointer-sized words.
\<close>

section \<open>Model\<close>

record ringbuffer =
  buf :: "u64 list"
  read_pos :: nat
  write_pos :: nat
  rsize :: nat
  lock :: bool
  read_lock_fn :: bool
  read_unlock_fn :: bool
  write_lock_fn :: bool
  write_unlock_fn :: bool

datatype lock_event = ReadLock | ReadUnlock | WriteLock | WriteUnlock

text \<open>The four lock macros; the flags say whether the pointer or callback was given.\<close>

definition read_guarded :: "ringbuffer \<Rightarrow> lock_event list" where
  "read_guarded r = (if lock r \<and> read_lock_fn r \<and> read_unlock_fn r then [ReadLock, ReadUnlock] else [])"

definition write_guarded :: "ringbuffer \<Rightarrow> lock_event list" where
  "write_guarded r = (if lock r \<and> write_lock_fn r \<and> write_unlock_fn r then [WriteLock, WriteUnlock] else [])"

text \<open>The two allocations succeed or fail, \<open>ret_ok\<close> and \<open>buffer_ok\<close>; the second is of
  \<open>(size + 1) * 8\<close> bytes, computed in 64 bits.\<close>

definition ringbuffer_new ::
  "bool \<Rightarrow> bool \<Rightarrow> u64 \<Rightarrow> bool \<Rightarrow> bool \<Rightarrow> bool \<Rightarrow> bool \<Rightarrow> bool \<Rightarrow> ringbuffer option" where
  "ringbuffer_new ret_ok buffer_ok sz lk rl ru wl wu =
     (if \<not> ret_ok \<or> \<not> buffer_ok then None
      else Some \<lparr>buf = replicate (unat ((sz + 1) * 8) div 8) 0, read_pos = 0, write_pos = 0,
             rsize = unat sz, lock = lk, read_lock_fn = rl, read_unlock_fn = ru,
             write_lock_fn = wl, write_unlock_fn = wu\<rparr>)"

definition ringbuffer_write :: "u64 \<Rightarrow> ringbuffer \<Rightarrow> ringbuffer option" where
  "ringbuffer_write value r =
     (let w = (if write_pos r = 0 then 1 else write_pos r)
      in if length (buf r) \<le> w then None
         else Some (r\<lparr>buf := (buf r)[w := value],
                      write_pos := (if rsize r < w + 1 then 1 else w + 1)\<rparr>))"

text \<open>\<open>None\<close> inside is the result \<open>false\<close>.\<close>

definition ringbuffer_read :: "ringbuffer \<Rightarrow> (u64 option \<times> ringbuffer) option" where
  "ringbuffer_read r =
     (if read_pos r = write_pos r then Some (None, r)
      else
        (let p = (if read_pos r = 0 then 1 else read_pos r)
         in if length (buf r) \<le> p then None
            else Some (Some (buf r ! p), r\<lparr>read_pos := (if rsize r < p + 1 then 1 else p + 1)\<rparr>)))"

section \<open>Representation\<close>

text \<open>The slot of the \<open>i\<close>-th value behind the read position.\<close>

definition slot :: "ringbuffer \<Rightarrow> nat \<Rightarrow> nat" where
  "slot r i = (read_pos r - 1 + i) mod rsize r + 1"

definition ring_rep :: "ringbuffer \<Rightarrow> u64 list \<Rightarrow> bool" where
  "ring_rep r q \<longleftrightarrow>
     0 < rsize r \<and> length (buf r) = rsize r + 1 \<and>
     (if write_pos r = 0 then q = [] \<and> read_pos r = 0
      else read_pos r \<le> rsize r \<and> write_pos r = slot r (length q) \<and>
        (\<forall>i<length q. q ! i = buf r ! slot r i) \<and>
        (if read_pos r = 0 then 0 < length q \<and> length q \<le> rsize r else length q < rsize r))"

text \<open>Room: a value may be lost once as many are unread as there are slots.\<close>

definition ring_fits :: "ringbuffer \<Rightarrow> u64 list \<Rightarrow> bool" where
  "ring_fits r q \<longleftrightarrow> length q < rsize r"

lemma slot_bounds: "0 < rsize r \<Longrightarrow> 1 \<le> slot r i \<and> slot r i \<le> rsize r"
  by (simp add: slot_def Suc_leI)

lemma slot_neq: "0 < rsize r \<Longrightarrow> i < j \<Longrightarrow> j < i + rsize r \<Longrightarrow> slot r i \<noteq> slot r j"
proof
  assume a: "0 < rsize r" "i < j" "j < i + rsize r" "slot r i = slot r j"
  then have "(read_pos r - 1 + i) mod rsize r = (read_pos r - 1 + j) mod rsize r" by (simp add: slot_def)
  then have "rsize r dvd (read_pos r - 1 + j) - (read_pos r - 1 + i)"
    using a(2) by (intro mod_eq_dvd_iff_nat [THEN iffD1]) auto
  then show False using a by (auto dest: dvd_imp_le)
qed

lemma slot_Suc: "0 < rsize r \<Longrightarrow> slot r (Suc i) = (if rsize r < slot r i + 1 then 1 else slot r i + 1)"
proof -
  assume n: "0 < rsize r"
  define m where "m = (read_pos r - Suc 0 + i) mod rsize r"
  have "m < rsize r" using n by (simp add: m_def)
  then show ?thesis by (auto simp: slot_def mod_Suc m_def [symmetric])
qed

lemma ring_write_spec:
  assumes r: "ring_rep r q" and fits: "length q < rsize r" "read_pos r = 0 \<or> Suc (length q) < rsize r"
  shows "\<exists>r'. ringbuffer_write v r = Some r' \<and> ring_rep r' (q @ [v]) \<and> rsize r' = rsize r \<and>
    read_pos r' = read_pos r"
proof -
  let ?w = "if write_pos r = 0 then 1 else write_pos r"
  let ?r = "r\<lparr>buf := (buf r)[?w := v], write_pos := (if rsize r < ?w + 1 then 1 else ?w + 1)\<rparr>"
  have n: "0 < rsize r" and len: "length (buf r) = rsize r + 1" using r by (auto simp: ring_rep_def)
  have w: "?w = slot r (length q)" using r by (auto simp: ring_rep_def slot_def split: if_splits)
  have same: "slot ?r = slot r" by (simp add: slot_def fun_eq_iff)
  have "ringbuffer_write v r = Some ?r"
    using len slot_bounds [OF n, of "length q"] by (simp add: ringbuffer_write_def Let_def w)
  moreover have "ring_rep ?r (q @ [v])"
  proof -
    have "(q @ [v]) ! i = (buf r)[?w := v] ! slot r i" if "i < Suc (length q)" for i
    proof (cases "i = length q")
      case True
      then show ?thesis using len slot_bounds [OF n, of "length q"] w by simp
    next
      case False
      then have "i < length q" using that by simp
      then have "slot r i \<noteq> ?w" using slot_neq [OF n, of i "length q"] fits(1) w by simp
      then show ?thesis using \<open>i < length q\<close> r by (auto simp: nth_append ring_rep_def split: if_splits)
    qed
    moreover have "write_pos ?r = slot r (Suc (length q))" using slot_Suc [OF n, of "length q"] w by simp
    moreover have "read_pos r \<le> rsize r" using r by (auto simp: ring_rep_def split: if_splits)
    moreover have "write_pos ?r \<noteq> 0" by simp
    ultimately show ?thesis using n len fits unfolding ring_rep_def same by (cases "read_pos r") simp_all
  qed
  ultimately show ?thesis by auto
qed

lemma ring_read_empty: "ring_rep r [] \<Longrightarrow> ringbuffer_read r = Some (None, r)"
  by (auto simp: ring_rep_def ringbuffer_read_def slot_def split: if_splits)

lemma ring_read_spec:
  assumes r: "ring_rep r (v # q)"
  shows "\<exists>r'. ringbuffer_read r = Some (Some v, r') \<and> ring_rep r' q \<and> rsize r' = rsize r"
proof -
  let ?p = "if read_pos r = 0 then 1 else read_pos r"
  let ?r = "r\<lparr>read_pos := (if rsize r < ?p + 1 then 1 else ?p + 1)\<rparr>"
  have n: "0 < rsize r" and len: "length (buf r) = rsize r + 1" and w: "write_pos r = slot r (Suc (length q))"
    and w0: "write_pos r \<noteq> 0" and rp: "read_pos r \<le> rsize r"
    using r by (auto simp: ring_rep_def split: if_splits)
  have p: "?p = slot r 0" using rp n by (auto simp: slot_def)
  have v: "buf r ! ?p = v" using r p by (auto simp: ring_rep_def split: if_splits)
  have sl: "slot ?r i = slot r (Suc i)" for i
  proof -
    define d where "d = read_pos r - Suc 0"
    have d: "d < rsize r" "?p = d + 1" using n rp by (auto simp: d_def)
    have "read_pos ?r - 1 = (d + 1) mod rsize r" using d by (auto simp: mod_Suc)
    then have "slot ?r i = ((d + 1) mod rsize r + i) mod rsize r + 1" unfolding slot_def by simp
    then show ?thesis by (simp add: slot_def d_def [symmetric] mod_add_left_eq)
  qed
  have ne: "read_pos r \<noteq> write_pos r"
  proof (cases "read_pos r = 0")
    case False
    then have "Suc (length q) < rsize r" using r by (auto simp: ring_rep_def split: if_splits)
    then show ?thesis using slot_neq [OF n, of 0 "Suc (length q)"] w p False by simp
  qed (use w0 in simp)
  have "ringbuffer_read r = Some (Some v, ?r)"
    using ne len v slot_bounds [OF n, of 0] p by (simp add: ringbuffer_read_def Let_def)
  moreover have "ring_rep ?r q"
    using r w0 rp w unfolding ring_rep_def sl by (auto split: if_splits)
  ultimately show ?thesis by auto
qed

text \<open>The ring buffer is a queue with one slot fewer than it was made with.\<close>

interpretation ring: fifo ring_rep ring_fits ringbuffer_write ringbuffer_read
proof
  fix s :: ringbuffer and q v
  show "\<exists>s'. ringbuffer_write v s = Some s' \<and> ring_rep s' (q @ [v]) \<and> ring_fits s' = ring_fits s"
    if "ring_rep s q" "ring_fits s (q @ [v])"
    using ring_write_spec [OF that(1), of v] that(2) by (auto simp: ring_fits_def fun_eq_iff)
  show "\<exists>s'. ringbuffer_read s = Some (None, s') \<and> ring_rep s' [] \<and> ring_fits s' = ring_fits s"
    if "ring_rep s []"
    using ring_read_empty [OF that] that by simp
  show "\<exists>s'. ringbuffer_read s = Some (Some v, s') \<and> ring_rep s' q \<and> ring_fits s' = ring_fits s"
    if "ring_rep s (v # q)"
    using ring_read_spec [OF that] by (auto simp: ring_fits_def fun_eq_iff)
qed

lemma ring_new_rep:
  assumes "ringbuffer_new ok1 ok2 sz lk rl ru wl wu = Some r" "0 < sz" "sz < 2305843009213693951"
  shows "ring_rep r [] \<and> rsize r = unat sz \<and> read_pos r = 0"
proof -
  have "unat sz < 2305843009213693951" using assms(3) by (simp add: word_less_nat_alt)
  then have "unat ((sz + 1) * 8) = (unat sz + 1) * 8" by (simp add: unat_word_ariths)
  then show ?thesis using assms(1,2)
    by (auto simp: ringbuffer_new_def ring_rep_def word_less_nat_alt split: if_splits)
qed

section \<open>Properties\<close>

definition ring_example :: ringbuffer where
  "ring_example = \<lparr>buf = [0, 0, 0, 0], read_pos = 0, write_pos = 0, rsize = 3, lock = False,
     read_lock_fn = False, read_unlock_fn = False, write_lock_fn = False, write_unlock_fn = False\<rparr>"

lemma ring_example_new:
  "ringbuffer_new True True 3 False False False False False = Some ring_example"
  by code_simp

text \<open>C21. Any interleaving of writes and reads on a new ring buffer that never has \<open>size\<close> values
  unread returns and reads exactly what a list queue gives: nothing is lost, repeated or reordered.\<close>

theorem ringbuffer_is_fifo:
  assumes "ringbuffer_new True True sz lk rl ru wl wu = Some r" "0 < sz" "sz < 2305843009213693951"
    and "run_fits (\<lambda>q. length q < unat sz) ops []"
  shows "\<exists>r'. impl_run ringbuffer_write ringbuffer_read ops r = Some (fst (spec_run ops []), r')"
proof -
  note new = ring_new_rep [OF assms(1-3)]
  then have "run_fits (ring_fits r) ops []" using assms(4) by (simp add: ring_fits_def [abs_def])
  from ring.run_refines [OF _ this] new show ?thesis by blast
qed

theorem ringbuffer_is_fifo_witness:
  "\<exists>r'. impl_run ringbuffer_write ringbuffer_read [Enq 7, Enq 8, Deq, Enq 9, Deq, Deq, Deq] ring_example =
     Some ([Some 7, Some 8, Some 9, None], r')"
  using ringbuffer_is_fifo [OF ring_example_new, of "[Enq 7, Enq 8, Deq, Enq 9, Deq, Deq, Deq]"] by simp

text \<open>Before the first read all \<open>size\<close> slots can be filled and read back in order.\<close>

theorem ringbuffer_first_fill:
  assumes "ringbuffer_new True True sz lk rl ru wl wu = Some r" "0 < sz" "sz < 2305843009213693951"
    and "length vs = unat sz"
  shows "\<exists>r1 r2. impl_run ringbuffer_write ringbuffer_read (map Enq vs) r = Some ([], r1) \<and>
    impl_run ringbuffer_write ringbuffer_read (replicate (length vs) Deq) r1 = Some (map Some vs, r2)"
proof -
  note new = ring_new_rep [OF assms(1-3)]
  have "\<exists>s. impl_run ringbuffer_write ringbuffer_read (map Enq us) s0 = Some ([], s) \<and> ring_rep s (q @ us)"
    if "ring_rep s0 q" "read_pos s0 = 0" "length q + length us \<le> rsize s0" for s0 q us
    using that
  proof (induction us arbitrary: s0 q)
    case (Cons u us)
    then obtain s1 where "ringbuffer_write u s0 = Some s1" "ring_rep s1 (q @ [u])" "rsize s1 = rsize s0"
      "read_pos s1 = 0" using ring_write_spec [OF Cons.prems(1), of u] by auto
    then show ?case using Cons.IH [of s1 "q @ [u]"] Cons.prems by simp
  qed simp
  from this [of r "[]" vs] new assms(4) obtain r1 where
    r1: "impl_run ringbuffer_write ringbuffer_read (map Enq vs) r = Some ([], r1)" "ring_rep r1 vs" by auto
  have "run_fits f (replicate k Deq) q" for f k and q :: "u64 list" by (induction k arbitrary: q) auto
  from ring.run_refines [OF r1(2) this, of "length vs"] obtain r2 where
    "impl_run ringbuffer_write ringbuffer_read (replicate (length vs) Deq) r1 = Some (map Some vs, r2)"
    using spec_run_deqs [of vs] by auto
  then show ?thesis using r1 by blast
qed

theorem ringbuffer_first_fill_witness:
  "\<exists>r1 r2. impl_run ringbuffer_write ringbuffer_read (map Enq [7, 8, 9]) ring_example = Some ([], r1) \<and>
     impl_run ringbuffer_write ringbuffer_read [Deq, Deq, Deq] r1 = Some ([Some 7, Some 8, Some 9], r2)"
  using ringbuffer_first_fill [OF ring_example_new, of "[7, 8, 9]"] by simp

lemma write_pos_run:
  assumes "0 < rsize r" "length (buf r) = rsize r + 1" "0 < write_pos r" "write_pos r \<le> rsize r"
  shows "\<exists>r'. impl_run ringbuffer_write ringbuffer_read (map Enq vs) r = Some ([], r') \<and>
    read_pos r' = read_pos r \<and> write_pos r' = (write_pos r - 1 + length vs) mod rsize r + 1"
  using assms
proof (induction vs arbitrary: r)
  case (Cons v vs)
  let ?r = "r\<lparr>buf := (buf r)[write_pos r := v],
    write_pos := (if rsize r < write_pos r + 1 then 1 else write_pos r + 1)\<rparr>"
  have "ringbuffer_write v r = Some ?r" using Cons.prems by (simp add: ringbuffer_write_def Let_def)
  moreover have "(write_pos ?r - 1 + length vs) mod rsize r = (write_pos r - 1 + length (v # vs)) mod rsize r"
  proof (cases "rsize r = write_pos r")
    case True
    then have "write_pos r - 1 + length (v # vs) = length vs + rsize r" using Cons.prems by simp
    then have "(write_pos r - 1 + length (v # vs)) mod rsize r = length vs mod rsize r" by (simp only: mod_add_self2)
    then show ?thesis using True Cons.prems by simp
  qed (use Cons.prems in auto)
  ultimately show ?case using Cons.IH [of ?r] Cons.prems by auto
qed simp

text \<open>C30. Once something has been read, \<open>size\<close> further values written to an empty ring buffer bring
  the write position back to the read position: the full buffer reads as empty and all of them are
  lost.\<close>

theorem ringbuffer_full_reads_empty:
  assumes "ring_rep r []" "0 < read_pos r" "length vs = rsize r"
  shows "\<exists>r'. impl_run ringbuffer_write ringbuffer_read (map Enq vs) r = Some ([], r') \<and>
    ringbuffer_read r' = Some (None, r')"
proof -
  have "read_pos r = write_pos r" "write_pos r \<le> rsize r" "length (buf r) = rsize r + 1" "0 < rsize r"
    using assms(1,2) by (auto simp: ring_rep_def slot_def split: if_splits)
  note r = this
  from write_pos_run [of r vs] r assms(2,3) obtain r' where
    r': "impl_run ringbuffer_write ringbuffer_read (map Enq vs) r = Some ([], r')"
    "read_pos r' = read_pos r" "write_pos r' = (read_pos r - 1 + rsize r) mod rsize r + 1" by auto
  have "(read_pos r - 1 + rsize r) mod rsize r = read_pos r - 1" using r assms(2) by (simp only: mod_add_self2) auto
  then have "ringbuffer_read r' = Some (None, r')" using r' assms(2) by (simp add: ringbuffer_read_def)
  then show ?thesis using r'(1) by blast
qed

theorem ringbuffer_full_reads_empty_witness:
  "\<exists>r'. impl_run ringbuffer_write ringbuffer_read [Enq 7, Enq 8, Enq 9]
     (ring_example\<lparr>read_pos := 2, write_pos := 2\<rparr>) = Some ([], r') \<and> ringbuffer_read r' = Some (None, r')"
  using ringbuffer_full_reads_empty [of "ring_example\<lparr>read_pos := 2, write_pos := 2\<rparr>" "[7, 8, 9]"]
  by (simp add: ring_rep_def slot_def ring_example_def)

end
