(* ===== verification/Vfs_Types.thy ===== *)
theory Vfs_Types
  imports Hojicha_Prelude "HOL-Library.Char_ord"
begin

unbundle bit_operations_syntax

text \<open>
  The data of the file system layer, \<^verbatim>\<open>kernel/include/fs/vfs.h\<close> and the inode of
  \<^verbatim>\<open>kernel/fs/initrd.c\<close>, and the operations on them that need no file system: reference counts,
  names, access checks, the fd table of \<^verbatim>\<open>kernel/include/mp/proc.h\<close>.

  The state \<open>fs\<close> has one function per kind of object, from its address to its contents; the null
  pointer is 0. An initrd inode embeds its vnode, so both have one address. The intrusive list of a
  directory's children is the list \<open>children\<close>. The counters of references are natural numbers: a
  count would wrap only after \<open>2 ^ 32\<close> references to one object. A path or name is a string without
  its terminating NUL. An allocation takes the next number as its address and fails when
  \<open>alloc_fails\<close> says so; \<open>freed\<close> and \<open>freed_files\<close> list the inodes and open files given back to
  the allocator. \<open>clock\<close> is what \<open>unix_time\<close> returns.
\<close>

section \<open>Data\<close>

datatype vfs_status =
    VFS_STATUS_OK | VFS_STATUS_NOENT | VFS_STATUS_NOTDIR | VFS_STATUS_ISDIR | VFS_STATUS_NOMEM
  | VFS_STATUS_INVALID_ARG | VFS_STATUS_TOO_MANY_OPEN | VFS_STATUS_BAD_FD | VFS_STATUS_NOT_IMPLEMENTED
  | VFS_STATUS_NOTEMPTY | VFS_STATUS_EXISTS | VFS_STATUS_XDEV | VFS_STATUS_LOOP | VFS_STATUS_RANGE
  | VFS_STATUS_AGAIN

datatype vfs_node_type = VFS_NODE_FILE | VFS_NODE_DIR | VFS_NODE_SYMLINK | VFS_NODE_DEVICE

datatype vfs_seek_whence = VFS_SEEK_SET | VFS_SEEK_CUR | VFS_SEEK_END

abbreviation VFS_OPEN_READ :: u32 where "VFS_OPEN_READ \<equiv> 1"
abbreviation VFS_OPEN_WRITE :: u32 where "VFS_OPEN_WRITE \<equiv> 2"
abbreviation VFS_OPEN_DIRECTORY :: u32 where "VFS_OPEN_DIRECTORY \<equiv> 4"
abbreviation VFS_OPEN_CREATE :: u32 where "VFS_OPEN_CREATE \<equiv> 8"
abbreviation VFS_OPEN_CLOEXEC :: u32 where "VFS_OPEN_CLOEXEC \<equiv> 16"
abbreviation VFS_OPEN_TRUNC :: u32 where "VFS_OPEN_TRUNC \<equiv> 32"
abbreviation VFS_OPEN_APPEND :: u32 where "VFS_OPEN_APPEND \<equiv> 64"
abbreviation VFS_OPEN_NONBLOCK :: u32 where "VFS_OPEN_NONBLOCK \<equiv> 128"
abbreviation MAX_FDS :: nat where "MAX_FDS \<equiv> 256"
abbreviation VFS_SYMLINK_MAX_DEPTH :: nat where "VFS_SYMLINK_MAX_DEPTH \<equiv> 40"
abbreviation VFS_SYMLINK_TARGET_MAX :: nat where "VFS_SYMLINK_TARGET_MAX \<equiv> 1024"

definition has_flag :: "u32 \<Rightarrow> u32 \<Rightarrow> bool" where
  "has_flag flags f \<longleftrightarrow> flags AND f \<noteq> 0"

record vnode =
  vops :: nat
  vtype :: vfs_node_type
  refcount :: nat
  link_count :: nat
  accessed_timestamp :: int
  modified_timestamp :: int
  changed_mdt_timestamp :: int
  vmount :: nat

record vfs_mount =
  point :: nat
  mroot :: nat
  mparent :: nat

record vfs_file =
  fvnode :: nat
  fops :: nat
  fflags :: u32
  frefcount :: nat
  foffset :: u64
  d_current :: nat

record vfs_stat =
  stype :: vfs_node_type
  ssize :: u64
  slink_count :: nat
  saccessed :: int
  smodified :: int
  schanged :: int

record inode =
  number :: nat
  iname :: string
  name_owned :: bool
  ibuf :: "u8 list option"
  bufsize :: u64
  buf_owned :: bool
  ilen :: u64
  iaccessed :: int
  imodified :: int
  ichanged :: int
  iparent :: nat
  hard_target :: nat
  children :: "nat list"

record fs =
  vnodes :: "nat \<Rightarrow> vnode"
  inodes :: "nat \<Rightarrow> inode"
  mounts :: "nat \<Rightarrow> vfs_mount"
  files :: "nat \<Rightarrow> vfs_file"
  root_mount :: nat
  current_process :: bool
  cwd :: nat
  fds :: "nat list"
  inode_count :: nat
  clock :: int
  alloc_no :: nat
  alloc_fails :: "nat \<Rightarrow> bool"
  freed :: "nat list"
  freed_files :: "nat list"

text \<open>Updates of one object.\<close>

definition upd_vnode :: "nat \<Rightarrow> (vnode \<Rightarrow> vnode) \<Rightarrow> fs \<Rightarrow> fs" where
  "upd_vnode n f s = s\<lparr>vnodes := (vnodes s)(n := f (vnodes s n))\<rparr>"

definition upd_inode :: "nat \<Rightarrow> (inode \<Rightarrow> inode) \<Rightarrow> fs \<Rightarrow> fs" where
  "upd_inode n f s = s\<lparr>inodes := (inodes s)(n := f (inodes s n))\<rparr>"

definition upd_file :: "nat \<Rightarrow> (vfs_file \<Rightarrow> vfs_file) \<Rightarrow> fs \<Rightarrow> fs" where
  "upd_file n f s = s\<lparr>files := (files s)(n := f (files s n))\<rparr>"

definition upd_mount :: "nat \<Rightarrow> (vfs_mount \<Rightarrow> vfs_mount) \<Rightarrow> fs \<Rightarrow> fs" where
  "upd_mount n f s = s\<lparr>mounts := (mounts s)(n := f (mounts s n))\<rparr>"

text \<open>An allocation: its address, or 0 when it fails.\<close>

definition try_alloc :: "fs \<Rightarrow> nat \<times> fs" where
  "try_alloc s =
     (let s' = s\<lparr>alloc_no := Suc (alloc_no s)\<rparr>
      in if alloc_fails s (alloc_no s) then (0, s') else (Suc (alloc_no s), s'))"

text \<open>The two tables of operations. A missing operation is \<open>None\<close>; a result \<open>None\<close> of a read or
  write is an access outside its buffers.\<close>

record node_ops =
  op_lookup :: "(nat \<Rightarrow> string \<Rightarrow> fs \<Rightarrow> vfs_status \<times> nat \<times> fs) option"
  op_parent :: "(nat \<Rightarrow> fs \<Rightarrow> vfs_status \<times> nat \<times> fs) option"
  op_name :: "(nat \<Rightarrow> fs \<Rightarrow> vfs_status \<times> string) option"
  op_open :: "(nat \<Rightarrow> u32 \<Rightarrow> fs \<Rightarrow> vfs_status \<times> nat \<times> fs) option"
  op_create_file :: "(nat \<Rightarrow> string \<Rightarrow> fs \<Rightarrow> vfs_status \<times> nat \<times> fs) option"
  op_create_dir :: "(nat \<Rightarrow> string \<Rightarrow> fs \<Rightarrow> vfs_status \<times> nat \<times> fs) option"
  op_unlink :: "(nat \<Rightarrow> string \<Rightarrow> u32 \<Rightarrow> fs \<Rightarrow> vfs_status \<times> fs) option"
  op_rmdir :: "(nat \<Rightarrow> string \<Rightarrow> u32 \<Rightarrow> fs \<Rightarrow> vfs_status \<times> fs) option"
  op_link :: "(nat \<Rightarrow> string \<Rightarrow> nat \<Rightarrow> fs \<Rightarrow> vfs_status \<times> fs) option"
  op_symlink :: "(nat \<Rightarrow> string \<Rightarrow> string \<Rightarrow> fs \<Rightarrow> vfs_status \<times> nat \<times> fs) option"
  op_readlink :: "(nat \<Rightarrow> nat \<Rightarrow> fs \<Rightarrow> vfs_status \<times> string) option"
  op_free :: "(nat \<Rightarrow> fs \<Rightarrow> fs) option"
  op_stat :: "(nat \<Rightarrow> fs \<Rightarrow> (vfs_status \<times> vfs_stat option) \<times> fs) option"

record file_ops =
  op_read :: "(nat \<Rightarrow> u64 \<Rightarrow> fs \<Rightarrow> (vfs_status \<times> u8 list \<times> fs) option) option"
  op_write :: "(nat \<Rightarrow> u8 list \<Rightarrow> fs \<Rightarrow> (vfs_status \<times> u64 \<times> fs) option) option"
  op_readdir :: "(nat \<Rightarrow> fs \<Rightarrow> vfs_status \<times> (string \<times> nat) option \<times> fs) option"
  op_seek :: "(nat \<Rightarrow> u64 \<Rightarrow> vfs_seek_whence \<Rightarrow> fs \<Rightarrow> vfs_status \<times> u64 \<times> fs) option"
  op_close :: "(nat \<Rightarrow> fs \<Rightarrow> vfs_status \<times> fs) option"
  op_ioctl :: "(nat \<Rightarrow> u64 \<Rightarrow> u64 \<Rightarrow> fs \<Rightarrow> vfs_status \<times> fs) option"

record ops =
  node_tbl :: "nat \<Rightarrow> node_ops"
  file_tbl :: "nat \<Rightarrow> file_ops"

section \<open>Reference counts\<close>

definition vfs_file_borrow :: "nat \<Rightarrow> fs \<Rightarrow> fs" where
  "vfs_file_borrow f s = (if f \<noteq> 0 then upd_file f (\<lambda>x. x\<lparr>frefcount := frefcount x + 1\<rparr>) s else s)"

definition vfs_file_release :: "nat \<Rightarrow> fs \<Rightarrow> fs" where
  "vfs_file_release f s =
     (if f = 0 \<or> frefcount (files s f) = 0 then s
      else upd_file f (\<lambda>x. x\<lparr>frefcount := frefcount x - 1\<rparr>) s)"

definition vfs_vnode_borrow :: "nat \<Rightarrow> fs \<Rightarrow> fs" where
  "vfs_vnode_borrow n s = (if n \<noteq> 0 then upd_vnode n (\<lambda>v. v\<lparr>refcount := refcount v + 1\<rparr>) s else s)"

text \<open>\<open>HVFS_VOP_MISSING\<close> and \<open>HVFS_FOP_MISSING\<close>: the operation, if there is one.\<close>

definition vop :: "ops \<Rightarrow> (node_ops \<Rightarrow> 'a option) \<Rightarrow> nat \<Rightarrow> fs \<Rightarrow> 'a option" where
  "vop T sel n s = (if n = 0 \<or> vops (vnodes s n) = 0 then None else sel (node_tbl T (vops (vnodes s n))))"

definition fop :: "ops \<Rightarrow> (file_ops \<Rightarrow> 'a option) \<Rightarrow> nat \<Rightarrow> fs \<Rightarrow> 'a option" where
  "fop T sel f s = (if f = 0 \<or> fops (files s f) = 0 then None else sel (file_tbl T (fops (files s f))))"

definition vfs_vnode_release :: "ops \<Rightarrow> nat \<Rightarrow> fs \<Rightarrow> fs" where
  "vfs_vnode_release T n s =
     (if n = 0 \<or> refcount (vnodes s n) = 0 then s
      else
        (let s = upd_vnode n (\<lambda>v. v\<lparr>refcount := refcount v - 1\<rparr>) s
         in if refcount (vnodes s n) = 0 \<and> link_count (vnodes s n) = 0
            then (case vop T op_free n s of None \<Rightarrow> s | Some free \<Rightarrow> free n s)
            else s))"

section \<open>Names and status\<close>

definition vfs_validate_name :: "string \<Rightarrow> bool" where
  "vfs_validate_name name \<longleftrightarrow>
     name \<noteq> [] \<and>
     (\<forall>i<length name. \<not> (name ! i = CHR ''/'' \<or> (name ! i = CHR 0x00 \<and> i < length name - 1)))"

text \<open>The copy of a name, \<open>None\<close> when the allocation fails.\<close>

definition vfs_clone_name :: "string \<Rightarrow> bool \<Rightarrow> fs \<Rightarrow> string option \<times> fs" where
  "vfs_clone_name name trailing_slash s =
     (let (cloned, s) = try_alloc s
      in (if cloned = 0 then None
          else Some (name @ (if trailing_slash then [CHR ''/''] else [])), s))"

fun vfs_status_to_errno :: "vfs_status \<Rightarrow> int" where
  "vfs_status_to_errno VFS_STATUS_OK = 0"
| "vfs_status_to_errno VFS_STATUS_NOENT = 2"
| "vfs_status_to_errno VFS_STATUS_NOTDIR = 20"
| "vfs_status_to_errno VFS_STATUS_ISDIR = 21"
| "vfs_status_to_errno VFS_STATUS_NOMEM = 12"
| "vfs_status_to_errno VFS_STATUS_INVALID_ARG = 22"
| "vfs_status_to_errno VFS_STATUS_TOO_MANY_OPEN = 24"
| "vfs_status_to_errno VFS_STATUS_BAD_FD = 9"
| "vfs_status_to_errno VFS_STATUS_NOT_IMPLEMENTED = 38"
| "vfs_status_to_errno VFS_STATUS_NOTEMPTY = 39"
| "vfs_status_to_errno VFS_STATUS_EXISTS = 17"
| "vfs_status_to_errno VFS_STATUS_XDEV = 18"
| "vfs_status_to_errno VFS_STATUS_LOOP = 40"
| "vfs_status_to_errno VFS_STATUS_RANGE = 34"
| "vfs_status_to_errno VFS_STATUS_AGAIN = 11"

section \<open>Access checks\<close>

definition vnode_is_file_like :: "nat \<Rightarrow> fs \<Rightarrow> bool" where
  "vnode_is_file_like n s \<longleftrightarrow>
     n \<noteq> 0 \<and> (vtype (vnodes s n) = VFS_NODE_FILE \<or> vtype (vnodes s n) = VFS_NODE_DEVICE)"

definition can_ioctl :: "nat \<Rightarrow> fs \<Rightarrow> vfs_status" where
  "can_ioctl f s =
     (if f = 0 \<or> fvnode (files s f) = 0 then VFS_STATUS_BAD_FD
      else if vtype (vnodes s (fvnode (files s f))) \<noteq> VFS_NODE_DEVICE then VFS_STATUS_NOT_IMPLEMENTED
      else VFS_STATUS_OK)"

definition can_open :: "nat \<Rightarrow> u32 \<Rightarrow> fs \<Rightarrow> vfs_status" where
  "can_open n flags s =
     (if n = 0 then VFS_STATUS_INVALID_ARG
      else if has_flag flags VFS_OPEN_DIRECTORY
      then (if vtype (vnodes s n) = VFS_NODE_DIR then VFS_STATUS_OK else VFS_STATUS_NOTDIR)
      else if vtype (vnodes s n) = VFS_NODE_DIR then VFS_STATUS_ISDIR
      else if \<not> vnode_is_file_like n s then VFS_STATUS_INVALID_ARG
      else VFS_STATUS_OK)"

definition can_read :: "nat \<Rightarrow> fs \<Rightarrow> vfs_status" where
  "can_read f s =
     (if f = 0 \<or> fvnode (files s f) = 0 then VFS_STATUS_INVALID_ARG
      else if has_flag (fflags (files s f)) VFS_OPEN_READ then VFS_STATUS_OK else VFS_STATUS_BAD_FD)"

definition can_readdir :: "nat \<Rightarrow> fs \<Rightarrow> vfs_status" where
  "can_readdir f s =
     (if f = 0 \<or> fvnode (files s f) = 0 then VFS_STATUS_NOENT
      else if vtype (vnodes s (fvnode (files s f))) = VFS_NODE_DIR then VFS_STATUS_OK
      else VFS_STATUS_NOTDIR)"

text \<open>The \<open>whence\<close> of a seek as the caller passes it, and the check of \<open>can_seek\<close>: \<open>None\<close> is the
  status for an invalid argument.\<close>

definition can_seek :: "nat \<Rightarrow> int \<Rightarrow> vfs_seek_whence option" where
  "can_seek f whence =
     (if f = 0 then None
      else if whence = 0 then Some VFS_SEEK_SET
      else if whence = 1 then Some VFS_SEEK_CUR
      else if whence = 2 then Some VFS_SEEK_END
      else None)"

definition can_write :: "nat \<Rightarrow> fs \<Rightarrow> vfs_status" where
  "can_write f s =
     (if f = 0 \<or> fvnode (files s f) = 0 then VFS_STATUS_INVALID_ARG
      else if \<not> has_flag (fflags (files s f)) VFS_OPEN_WRITE then VFS_STATUS_BAD_FD
      else VFS_STATUS_OK)"

definition dir_mutation_allowed :: "nat \<Rightarrow> string \<Rightarrow> fs \<Rightarrow> vfs_status" where
  "dir_mutation_allowed dir name s =
     (if dir = 0 then VFS_STATUS_INVALID_ARG
      else if vtype (vnodes s dir) \<noteq> VFS_NODE_DIR then VFS_STATUS_NOTDIR
      else if \<not> vfs_validate_name name then VFS_STATUS_INVALID_ARG
      else VFS_STATUS_OK)"

section \<open>The fd table and working directory of the current process\<close>

definition proc_get_cwd :: "fs \<Rightarrow> nat" where
  "proc_get_cwd s = (if current_process s then cwd s else 0)"

definition proc_set_cwd :: "ops \<Rightarrow> nat \<Rightarrow> fs \<Rightarrow> fs" where
  "proc_set_cwd T n s =
     (if \<not> current_process s then s
      else (let s = vfs_vnode_borrow n s; s = vfs_vnode_release T (cwd s) s in s\<lparr>cwd := n\<rparr>))"

definition proc_fd_find_null :: "fs \<Rightarrow> nat option" where
  "proc_fd_find_null s = find (\<lambda>i. fds s ! i = 0) [0..<MAX_FDS]"

definition proc_fd_get :: "nat \<Rightarrow> fs \<Rightarrow> nat" where
  "proc_fd_get i s = (if MAX_FDS \<le> i then 0 else fds s ! i)"

definition proc_fd_set :: "nat \<Rightarrow> nat \<Rightarrow> fs \<Rightarrow> fs" where
  "proc_fd_set i f s = (if i < MAX_FDS then s\<lparr>fds := (fds s)[i := f]\<rparr> else s)"

definition clear_process_fd :: "nat \<Rightarrow> fs \<Rightarrow> fs" where
  "clear_process_fd f s =
     (if \<not> current_process s then s
      else
        (case find (\<lambda>i. proc_fd_get i s = f) [0..<MAX_FDS] of
           None \<Rightarrow> s
         | Some i \<Rightarrow> proc_fd_set i 0 s))"

end
