(* ===== verification/Initrd.thy ===== *)
theory Initrd
  imports Vfs_Types
begin

text \<open>
  The in-memory file system of \<^verbatim>\<open>kernel/fs/initrd.c\<close>: inodes in a tree, files as growing
  buffers, hard links as alias inodes, symbolic links, directory streams. Each operation of the
  tables \<open>initrd_vnode_ops\<close> and \<open>initrd_vfile_ops\<close> is one definition. The pointers \<open>first_child\<close> and
  \<open>next_sibling\<close> are read off the list of children; a detached inode has no sibling. A read or write
  outside a buffer is \<open>None\<close>. The content of a freed inode stays readable; \<open>freed\<close> records the
  release.
\<close>

section \<open>Model\<close>

abbreviation INITRD_OPS :: nat where "INITRD_OPS \<equiv> 1"

definition str_bytes :: "string \<Rightarrow> u8 list" where
  "str_bytes cs = map (\<lambda>c. of_nat (of_char c)) cs"

definition bytes_str :: "u8 list \<Rightarrow> string" where
  "bytes_str bs = map (\<lambda>b. char_of (unat b)) bs"

text \<open>Copying into a buffer; \<open>None\<close> when the copy leaves it.\<close>

definition memcpy_at :: "u8 list \<Rightarrow> nat \<Rightarrow> u8 list \<Rightarrow> u8 list option" where
  "memcpy_at b off d =
     (if off + length d \<le> length b then Some (take off b @ d @ drop (off + length d) b) else None)"

fun next_in :: "nat list \<Rightarrow> nat \<Rightarrow> nat" where
  "next_in (x # y # xs) c = (if x = c then y else next_in (y # xs) c)"
| "next_in xs c = 0"

definition first_child :: "fs \<Rightarrow> nat \<Rightarrow> nat" where
  "first_child s n = (case children (inodes s n) of [] \<Rightarrow> 0 | c # _ \<Rightarrow> c)"

definition next_sibling :: "fs \<Rightarrow> nat \<Rightarrow> nat" where
  "next_sibling s c =
     (if iparent (inodes s c) = 0 then 0 else next_in (children (inodes s (iparent (inodes s c)))) c)"

definition find_child :: "fs \<Rightarrow> nat \<Rightarrow> string \<Rightarrow> nat option" where
  "find_child s dir name = find (\<lambda>c. iname (inodes s c) = name) (children (inodes s dir))"

definition sync_vnode_timestamps :: "nat \<Rightarrow> fs \<Rightarrow> fs" where
  "sync_vnode_timestamps n s =
     (if n = 0 then s
      else upd_vnode n (\<lambda>v. v\<lparr>accessed_timestamp := iaccessed (inodes s n),
             modified_timestamp := imodified (inodes s n),
             changed_mdt_timestamp := ichanged (inodes s n)\<rparr>) s)"

definition set_inode_timestamps :: "nat \<Rightarrow> int \<Rightarrow> int \<Rightarrow> int \<Rightarrow> fs \<Rightarrow> fs" where
  "set_inode_timestamps n acc modi chg s =
     (if n = 0 then s
      else upd_inode n (\<lambda>i. i\<lparr>iaccessed := acc, imodified := modi, ichanged := chg\<rparr>) s)"

definition init_vnode :: "nat \<Rightarrow> vfs_node_type \<Rightarrow> fs \<Rightarrow> fs" where
  "init_vnode n ty s =
     sync_vnode_timestamps n
       (upd_vnode n (\<lambda>v. v\<lparr>vops := INITRD_OPS, refcount := 0, link_count := 1, vmount := 0, vtype := ty\<rparr>) s)"

definition add_child :: "nat \<Rightarrow> nat \<Rightarrow> fs \<Rightarrow> fs" where
  "add_child parent c s = upd_inode parent (\<lambda>i. i\<lparr>children := children i @ [c], ilen := ilen i + 1\<rparr>) s"

definition detach_child :: "nat \<Rightarrow> fs \<Rightarrow> nat \<times> fs" where
  "detach_child target s =
     (let parent = iparent (inodes s target)
      in if target = 0 \<or> parent = 0 then (0, s)
         else if target \<in> set (children (inodes s parent))
         then
           (let s = upd_inode parent (\<lambda>i. i\<lparr>children := remove1 target (children i)\<rparr>) s;
                s = upd_inode target (\<lambda>i. i\<lparr>iparent := 0\<rparr>) s;
                s = upd_inode parent (\<lambda>i. if 0 < ilen i then i\<lparr>ilen := ilen i - 1\<rparr> else i) s
            in (target, s))
         else (0, s))"

text \<open>The modification times that a directory's inode takes over from its vnode after a change.\<close>

definition touch_dir :: "nat \<Rightarrow> fs \<Rightarrow> fs" where
  "touch_dir dir s =
     sync_vnode_timestamps dir
       (upd_inode dir (\<lambda>i. i\<lparr>imodified := modified_timestamp (vnodes s dir),
          ichanged := changed_mdt_timestamp (vnodes s dir)\<rparr>) s)"

text \<open>The fields that every new inode gets; \<open>slab_calloc\<close> has cleared the others.\<close>

definition new_inode :: "nat \<Rightarrow> string \<Rightarrow> bool \<Rightarrow> nat \<Rightarrow> vfs_node_type \<Rightarrow> fs \<Rightarrow> fs" where
  "new_inode n name owned parent ty s =
     (let s = s\<lparr>inodes := (inodes s)(n := \<lparr>number = inode_count s, iname = name, name_owned = owned,
            ibuf = None, bufsize = 0, buf_owned = False, ilen = 0, iaccessed = clock s,
            imodified = clock s, ichanged = clock s, iparent = parent, hard_target = 0,
            children = []\<rparr>), inode_count := inode_count s + 1\<rparr>
      in init_vnode n ty s)"

definition create_dir :: "string \<Rightarrow> nat \<Rightarrow> fs \<Rightarrow> nat \<times> fs" where
  "create_dir name parent s =
     (let (dir, s) = try_alloc s; (dir_name, s) = vfs_clone_name name False s
      in case dir_name of
           None \<Rightarrow> (0, s)
         | Some nm \<Rightarrow> if dir = 0 then (0, s) else (dir, new_inode dir nm True parent VFS_NODE_DIR s))"

definition create_root :: "fs \<Rightarrow> nat \<times> fs" where
  "create_root s =
     (let (root, s) = try_alloc s
      in if root = 0 then (0, s) else (root, new_inode root [] False 0 VFS_NODE_DIR s))"

section \<open>Vnode operations\<close>

definition initrd_lookup :: "nat \<Rightarrow> string \<Rightarrow> fs \<Rightarrow> vfs_status \<times> nat \<times> fs" where
  "initrd_lookup dir name s =
     (if dir = 0 \<or> vtype (vnodes s dir) \<noteq> VFS_NODE_DIR then (VFS_STATUS_NOTDIR, 0, s)
      else
        (case find_child s dir name of
           None \<Rightarrow> (VFS_STATUS_NOENT, 0, s)
         | Some child \<Rightarrow>
             (let n = (if hard_target (inodes s child) = 0 then child else hard_target (inodes s child))
              in (VFS_STATUS_OK, n, vfs_vnode_borrow n s))))"

definition initrd_parent :: "nat \<Rightarrow> fs \<Rightarrow> vfs_status \<times> nat \<times> fs" where
  "initrd_parent dir s =
     (if dir = 0 then (VFS_STATUS_INVALID_ARG, 0, s)
      else
        (let parent = (if iparent (inodes s dir) = 0 then dir else iparent (inodes s dir))
         in (VFS_STATUS_OK, parent, vfs_vnode_borrow parent s)))"

definition initrd_name :: "nat \<Rightarrow> fs \<Rightarrow> vfs_status \<times> string" where
  "initrd_name n s =
     (if n = 0 then (VFS_STATUS_INVALID_ARG, [])
      else if 4294967295 < length (iname (inodes s n)) then (VFS_STATUS_NOENT, [])
      else (VFS_STATUS_OK, iname (inodes s n)))"

definition initrd_open :: "nat \<Rightarrow> u32 \<Rightarrow> fs \<Rightarrow> vfs_status \<times> nat \<times> fs" where
  "initrd_open n flags s =
     (if n = 0 then (VFS_STATUS_INVALID_ARG, 0, s)
      else if has_flag flags VFS_OPEN_DIRECTORY \<and> vtype (vnodes s n) \<noteq> VFS_NODE_DIR
      then (VFS_STATUS_NOTDIR, 0, s)
      else if has_flag flags VFS_OPEN_READ \<and> vtype (vnodes s n) \<noteq> VFS_NODE_FILE
      then (VFS_STATUS_ISDIR, 0, s)
      else
        (let (file, s) = try_alloc s; (vfile, s) = try_alloc s
         in if file = 0 \<or> vfile = 0 then (VFS_STATUS_NOMEM, 0, s)
            else
              (let is_file = (vtype (vnodes s n) = VFS_NODE_FILE);
                   dcur = (if vtype (vnodes s n) = VFS_NODE_DIR then first_child s n else 0);
                   s = (if has_flag flags VFS_OPEN_TRUNC \<and> has_flag flags VFS_OPEN_WRITE \<and> is_file
                        then sync_vnode_timestamps n
                               (upd_inode n (\<lambda>i. i\<lparr>ilen := 0, imodified := clock s, ichanged := clock s\<rparr>) s)
                        else s);
                   off = (if has_flag flags VFS_OPEN_APPEND \<and> is_file then ilen (inodes s n) else 0)
               in (VFS_STATUS_OK, vfile,
                   s\<lparr>files := (files s)(vfile := \<lparr>fvnode = n, fops = INITRD_OPS, fflags = flags,
                        frefcount = 1, foffset = off, d_current = dcur\<rparr>)\<rparr>))))"

definition initrd_create_file :: "nat \<Rightarrow> string \<Rightarrow> fs \<Rightarrow> vfs_status \<times> nat \<times> fs" where
  "initrd_create_file dir name s =
     (if dir = 0 \<or> vtype (vnodes s dir) \<noteq> VFS_NODE_DIR \<or> \<not> vfs_validate_name name
      then (VFS_STATUS_INVALID_ARG, 0, s)
      else
        (let (n, s) = try_alloc s
         in if n = 0 then (VFS_STATUS_NOMEM, 0, s)
            else
              (case vfs_clone_name name False s of
                 (None, s) \<Rightarrow> (VFS_STATUS_NOMEM, 0, s)
               | (Some file_name, s) \<Rightarrow>
                   (let s = new_inode n file_name True dir VFS_NODE_FILE s;
                        s = touch_dir dir (add_child dir n s)
                    in (VFS_STATUS_OK, n, vfs_vnode_borrow n s)))))"

definition strip_slashes :: "string \<Rightarrow> string" where
  "strip_slashes name = rev (dropWhile (\<lambda>c. c = CHR ''/'') (rev name))"

definition initrd_create_dir :: "nat \<Rightarrow> string \<Rightarrow> fs \<Rightarrow> vfs_status \<times> nat \<times> fs" where
  "initrd_create_dir dir name s =
     (if dir = 0 \<or> vtype (vnodes s dir) \<noteq> VFS_NODE_DIR then (VFS_STATUS_INVALID_ARG, 0, s)
      else
        (let name = strip_slashes name
         in if \<not> vfs_validate_name name then (VFS_STATUS_INVALID_ARG, 0, s)
            else
              (let (n, s) = create_dir name dir s
               in if n = 0 then (VFS_STATUS_NOMEM, 0, s)
                  else
                    (let s = touch_dir dir (add_child dir n s)
                     in (VFS_STATUS_OK, n, vfs_vnode_borrow n s)))))"

definition initrd_free :: "nat \<Rightarrow> fs \<Rightarrow> fs" where
  "initrd_free n s = (if n = 0 then s else s\<lparr>freed := n # freed s\<rparr>)"

definition initrd_delete_file :: "nat \<Rightarrow> string \<Rightarrow> u32 \<Rightarrow> fs \<Rightarrow> vfs_status \<times> fs" where
  "initrd_delete_file dir name flags s =
     (if dir = 0 \<or> vtype (vnodes s dir) \<noteq> VFS_NODE_DIR \<or> name = [] then (VFS_STATUS_INVALID_ARG, s)
      else
        (case find_child s dir name of
           None \<Rightarrow> (VFS_STATUS_NOENT, s)
         | Some child \<Rightarrow>
             if vtype (vnodes s child) = VFS_NODE_DIR then (VFS_STATUS_ISDIR, s)
             else
               (let (detached, s) = detach_child child s
                in if detached = 0 then (VFS_STATUS_NOENT, s)
                   else if hard_target (inodes s detached) \<noteq> 0
                   then (VFS_STATUS_OK, initrd_free detached s)
                   else (VFS_STATUS_OK, s))))"

definition initrd_delete_dir :: "nat \<Rightarrow> string \<Rightarrow> u32 \<Rightarrow> fs \<Rightarrow> vfs_status \<times> fs" where
  "initrd_delete_dir dir name flags s =
     (if dir = 0 \<or> vtype (vnodes s dir) \<noteq> VFS_NODE_DIR \<or> name = [] then (VFS_STATUS_INVALID_ARG, s)
      else
        (case find_child s dir name of
           None \<Rightarrow> (VFS_STATUS_NOENT, s)
         | Some child \<Rightarrow>
             if vtype (vnodes s child) \<noteq> VFS_NODE_DIR then (VFS_STATUS_NOTDIR, s)
             else if first_child s child \<noteq> 0 then (VFS_STATUS_NOTEMPTY, s)
             else
               (let (detached, s) = detach_child child s
                in (if detached = 0 then VFS_STATUS_NOENT else VFS_STATUS_OK, s))))"

definition initrd_link :: "nat \<Rightarrow> string \<Rightarrow> nat \<Rightarrow> fs \<Rightarrow> vfs_status \<times> fs" where
  "initrd_link dir name target s =
     (if dir = 0 \<or> vtype (vnodes s dir) \<noteq> VFS_NODE_DIR \<or> target = 0 \<or>
         vtype (vnodes s target) \<noteq> VFS_NODE_FILE \<or> \<not> vfs_validate_name name
      then (VFS_STATUS_INVALID_ARG, s)
      else if find_child s dir name \<noteq> None then (VFS_STATUS_EXISTS, s)
      else
        (let (n, s) = try_alloc s
         in if n = 0 then (VFS_STATUS_NOMEM, s)
            else
              (case vfs_clone_name name False s of
                 (None, s) \<Rightarrow> (VFS_STATUS_NOMEM, s)
               | (Some link_name, s) \<Rightarrow>
                   (let s = new_inode n link_name True dir VFS_NODE_FILE s;
                        s = upd_inode n (\<lambda>i. i\<lparr>hard_target := target\<rparr>) s
                    in (VFS_STATUS_OK, touch_dir dir (add_child dir n s))))))"

definition initrd_symlink :: "nat \<Rightarrow> string \<Rightarrow> string \<Rightarrow> fs \<Rightarrow> vfs_status \<times> nat \<times> fs" where
  "initrd_symlink dir name target s =
     (if dir = 0 \<or> vtype (vnodes s dir) \<noteq> VFS_NODE_DIR \<or> \<not> vfs_validate_name name \<or> target = []
      then (VFS_STATUS_INVALID_ARG, 0, s)
      else if find_child s dir name \<noteq> None then (VFS_STATUS_EXISTS, 0, s)
      else
        (let (n, s) = try_alloc s
         in if n = 0 then (VFS_STATUS_NOMEM, 0, s)
            else
              (let (link_name, s) = vfs_clone_name name False s;
                   (link_target, s) = vfs_clone_name target False s
               in case (link_name, link_target) of
                    (Some nm, Some tg) \<Rightarrow>
                      (let s = new_inode n nm True dir VFS_NODE_SYMLINK s;
                           s = upd_inode n (\<lambda>i. i\<lparr>ibuf := Some (str_bytes tg @ [0]),
                                 bufsize := of_nat (length tg + 1), buf_owned := True,
                                 ilen := of_nat (length tg)\<rparr>) s;
                           s = touch_dir dir (add_child dir n s)
                       in (VFS_STATUS_OK, n, vfs_vnode_borrow n s))
                  | _ \<Rightarrow> (VFS_STATUS_NOMEM, 0, s))))"

definition initrd_readlink :: "nat \<Rightarrow> nat \<Rightarrow> fs \<Rightarrow> vfs_status \<times> string" where
  "initrd_readlink n len s =
     (if n = 0 \<or> vtype (vnodes s n) \<noteq> VFS_NODE_SYMLINK then (VFS_STATUS_INVALID_ARG, [])
      else
        (let copy_len = min (unat (ilen (inodes s n))) len
         in (VFS_STATUS_OK,
             bytes_str (take copy_len (case ibuf (inodes s n) of None \<Rightarrow> [] | Some b \<Rightarrow> b)))))"

definition initrd_stat :: "nat \<Rightarrow> fs \<Rightarrow> (vfs_status \<times> vfs_stat option) \<times> fs" where
  "initrd_stat n s =
     (let (ret, s) = try_alloc s
      in if ret = 0 then ((VFS_STATUS_NOMEM, None), s)
         else
           ((VFS_STATUS_OK, Some \<lparr>stype = vtype (vnodes s n), ssize = ilen (inodes s n),
               slink_count = link_count (vnodes s n), saccessed = accessed_timestamp (vnodes s n),
               smodified = modified_timestamp (vnodes s n),
               schanged = changed_mdt_timestamp (vnodes s n)\<rparr>), s))"

section \<open>File operations\<close>

definition initrd_close :: "nat \<Rightarrow> fs \<Rightarrow> vfs_status \<times> fs" where
  "initrd_close f s = (VFS_STATUS_OK, s\<lparr>freed_files := f # freed_files s\<rparr>)"

definition initrd_read :: "nat \<Rightarrow> u64 \<Rightarrow> fs \<Rightarrow> (vfs_status \<times> u8 list \<times> fs) option" where
  "initrd_read f len s =
     (if f = 0 then Some (VFS_STATUS_INVALID_ARG, [], s)
      else
        (let node = fvnode (files s f); off = foffset (files s f);
             touched = (\<lambda>s. sync_vnode_timestamps node
               (upd_inode node (\<lambda>i. i\<lparr>iaccessed := accessed_timestamp (vnodes s node)\<rparr>) s))
         in if len = 0 then Some (VFS_STATUS_OK, [], touched s)
            else if ilen (inodes s node) \<le> off then Some (VFS_STATUS_OK, [], s)
            else
              (let remaining = ilen (inodes s node) - off;
                   size_to_copy = (if remaining < len then remaining else len);
                   b = (case ibuf (inodes s node) of None \<Rightarrow> [] | Some b \<Rightarrow> b)
               in if length b < unat off + unat size_to_copy then None
                  else Some (VFS_STATUS_OK, take (unat size_to_copy) (drop (unat off) b),
                         touched (upd_file f (\<lambda>x. x\<lparr>foffset := off + size_to_copy\<rparr>) s)))))"

text \<open>The bookkeeping after a write of \<open>len\<close> bytes: offset, length and modification times.\<close>

definition written :: "nat \<Rightarrow> u64 \<Rightarrow> fs \<Rightarrow> fs" where
  "written f len s =
     (let node = fvnode (files s f);
          s = upd_file f (\<lambda>x. x\<lparr>foffset := foffset x + len\<rparr>) s;
          off = foffset (files s f);
          s = upd_inode node (\<lambda>i. if ilen i < off then i\<lparr>ilen := off\<rparr> else i) s
      in touch_dir node s)"

definition initrd_write :: "nat \<Rightarrow> u8 list \<Rightarrow> fs \<Rightarrow> (vfs_status \<times> u64 \<times> fs) option" where
  "initrd_write f data s =
     (if f = 0 then Some (VFS_STATUS_INVALID_ARG, 0, s)
      else
        (let node = fvnode (files s f); len = (of_nat (length data) :: u64); off = foffset (files s f)
         in if len = 0 then Some (VFS_STATUS_OK, 0, touch_dir node s)
            else
              (let fsize = ilen (inodes s node);
                   content_size = (if off + len < fsize then fsize else off + len);
                   new_size = content_size + drop_bit 1 content_size;
                   (ok, s) = (if ibuf (inodes s node) = None \<or> bufsize (inodes s node) = 0
                              then
                                (let (new_buf, s) = try_alloc s
                                 in if new_buf = 0 then (False, s)
                                    else (True, upd_inode node (\<lambda>i. i\<lparr>ibuf := Some (replicate (unat new_size) 0),
                                           bufsize := new_size, buf_owned := True\<rparr>) s))
                              else (True, s))
               in if \<not> ok then Some (VFS_STATUS_NOMEM, 0, s)
                  else if off + len \<le> bufsize (inodes s node)
                  then map_option (\<lambda>b. (VFS_STATUS_OK, len,
                           written f len (upd_inode node (\<lambda>i. i\<lparr>ibuf := Some b\<rparr>) s)))
                         (memcpy_at (the (ibuf (inodes s node))) (unat off) data)
                  else
                    (let (new_buf, s) = try_alloc s
                     in if new_buf = 0 then Some (VFS_STATUS_NOMEM, 0, s)
                        else
                          (let b0 = replicate (unat new_size) 0;
                               old = the (ibuf (inodes s node))
                           in if length old < unat fsize \<or> unat new_size < unat fsize then None
                              else map_option (\<lambda>b. (VFS_STATUS_OK, len,
                                     written f len (upd_inode node (\<lambda>i. i\<lparr>ibuf := Some b,
                                       bufsize := new_size, buf_owned := True\<rparr>) s)))
                                   (memcpy_at (take (unat fsize) old @ drop (unat fsize) b0) (unat off) data))))))"

definition initrd_readdir :: "nat \<Rightarrow> fs \<Rightarrow> vfs_status \<times> (string \<times> nat) option \<times> fs" where
  "initrd_readdir f s =
     (if f = 0 then (VFS_STATUS_NOENT, None, s)
      else if vtype (vnodes s (fvnode (files s f))) \<noteq> VFS_NODE_DIR then (VFS_STATUS_NOTDIR, None, s)
      else if d_current (files s f) = 0 then (VFS_STATUS_OK, None, s)
      else
        (let current = d_current (files s f);
             s = upd_file f (\<lambda>x. x\<lparr>d_current := next_sibling s current, foffset := foffset x + 1\<rparr>) s;
             (ret, s) = try_alloc s
         in if ret = 0 then (VFS_STATUS_NOMEM, None, s)
            else
              (case vfs_clone_name (iname (inodes s current))
                      (vtype (vnodes s current) = VFS_NODE_DIR) s of
                 (None, s) \<Rightarrow> (VFS_STATUS_NOMEM, None, s)
               | (Some name, s) \<Rightarrow> (VFS_STATUS_OK, Some (name, number (inodes s current)), s))))"

fun skip_siblings :: "fs \<Rightarrow> nat \<Rightarrow> nat \<Rightarrow> nat" where
  "skip_siblings s 0 c = c"
| "skip_siblings s (Suc i) c = (if c = 0 then 0 else skip_siblings s i (next_sibling s c))"

text \<open>The sum \<open>offset + origin\<close> is computed in signed 64-bit arithmetic, which wraps.\<close>

definition initrd_seek :: "nat \<Rightarrow> u64 \<Rightarrow> vfs_seek_whence \<Rightarrow> fs \<Rightarrow> vfs_status \<times> u64 \<times> fs" where
  "initrd_seek f offset whence s =
     (if f = 0 then (VFS_STATUS_INVALID_ARG, 0, s)
      else
        (let node = fvnode (files s f); len = ilen (inodes s node);
             origin = (case whence of
                         VFS_SEEK_SET \<Rightarrow> 0
                       | VFS_SEEK_CUR \<Rightarrow> foffset (files s f)
                       | VFS_SEEK_END \<Rightarrow> len);
             pos = (if sint (offset + origin) < 0 then 0
                    else if sint len < sint (offset + origin) then len
                    else offset + origin);
             s = (if vtype (vnodes s node) = VFS_NODE_DIR
                  then upd_file f (\<lambda>x. x\<lparr>d_current := skip_siblings s (unat pos) (first_child s node)\<rparr>) s
                  else s)
         in (VFS_STATUS_OK, pos, upd_file f (\<lambda>x. x\<lparr>foffset := pos\<rparr>) s)))"

definition initrd_vnode_ops :: node_ops where
  "initrd_vnode_ops = \<lparr>op_lookup = Some initrd_lookup, op_parent = Some initrd_parent,
     op_name = Some initrd_name, op_open = Some initrd_open, op_create_file = Some initrd_create_file,
     op_create_dir = Some initrd_create_dir, op_unlink = Some initrd_delete_file,
     op_rmdir = Some initrd_delete_dir, op_link = Some initrd_link, op_symlink = Some initrd_symlink,
     op_readlink = Some initrd_readlink, op_free = Some initrd_free, op_stat = Some initrd_stat\<rparr>"

definition initrd_vfile_ops :: file_ops where
  "initrd_vfile_ops = \<lparr>op_read = Some initrd_read, op_write = Some initrd_write,
     op_readdir = Some initrd_readdir, op_seek = Some initrd_seek, op_close = Some initrd_close,
     op_ioctl = None\<rparr>"

definition initrd_tables :: ops where
  "initrd_tables = \<lparr>node_tbl = (\<lambda>_. initrd_vnode_ops), file_tbl = (\<lambda>_. initrd_vfile_ops)\<rparr>"

end
