(* ===== verification/Vfs.thy ===== *)
theory Vfs
  imports Initrd
begin

text \<open>
  The virtual file system of \<^verbatim>\<open>kernel/fs/vfs.c\<close>, over the tables \<open>T\<close> of the operations that the
  mounted file systems provide: mounting, path resolution through mounts and symbolic links,
  opening, reading, writing and the operations on directory entries. A function that returns a
  vnode has borrowed a reference to it for its caller.

  \<open>walk_path\<close> and \<open>resolve_symlink_component\<close> call each other in the source; here the second is
  part of the loop \<open>walk\<close>, whose recursion ends because each link raises the depth, at most
  40, and each component shortens the rest of the path.
\<close>

section \<open>Mounting\<close>

definition validate_root_mount :: "ops \<Rightarrow> nat \<Rightarrow> fs \<Rightarrow> vfs_status" where
  "validate_root_mount T m s =
     (if m = 0 \<or> mroot (mounts s m) = 0 then VFS_STATUS_NOMEM
      else if vtype (vnodes s (mroot (mounts s m))) \<noteq> VFS_NODE_DIR then VFS_STATUS_NOTDIR
      else if vop T op_lookup (mroot (mounts s m)) s = None then VFS_STATUS_NOTDIR
      else VFS_STATUS_OK)"

definition vfs_mount_root :: "ops \<Rightarrow> nat \<Rightarrow> fs \<Rightarrow> vfs_status \<times> fs" where
  "vfs_mount_root T m s =
     (let status = validate_root_mount T m s
      in if status \<noteq> VFS_STATUS_OK then (status, s)
         else if root_mount s \<noteq> 0 then (VFS_STATUS_INVALID_ARG, s)
         else
           (let s = upd_mount m (\<lambda>x. x\<lparr>point := 0, mparent := 0\<rparr>) s;
                s = s\<lparr>root_mount := m\<rparr>;
                root = mroot (mounts s m);
                s = upd_vnode root (\<lambda>v. v\<lparr>vmount := m\<rparr>) s;
                s = vfs_vnode_borrow root s
            in (VFS_STATUS_OK,
                if current_process s \<and> proc_get_cwd s = 0 then proc_set_cwd T root s else s)))"

definition vfs_mount :: "ops \<Rightarrow> nat \<Rightarrow> nat \<Rightarrow> nat \<Rightarrow> fs \<Rightarrow> vfs_status \<times> fs" where
  "vfs_mount T mountpoint m parent s =
     (let status = validate_root_mount T m s
      in if status \<noteq> VFS_STATUS_OK then (status, s)
         else if root_mount s = 0 \<or> mountpoint = 0 then (VFS_STATUS_INVALID_ARG, s)
         else if vtype (vnodes s mountpoint) \<noteq> VFS_NODE_DIR then (VFS_STATUS_NOTDIR, s)
         else if vmount (vnodes s mountpoint) \<noteq> 0 then (VFS_STATUS_INVALID_ARG, s)
         else
           (let s = upd_mount m (\<lambda>x. x\<lparr>point := mountpoint, mparent := parent\<rparr>) s;
                s = upd_vnode mountpoint (\<lambda>v. v\<lparr>vmount := m\<rparr>) s;
                s = upd_vnode (mroot (mounts s m)) (\<lambda>v. v\<lparr>vmount := m\<rparr>) s;
                s = vfs_vnode_borrow mountpoint s
            in (VFS_STATUS_OK, vfs_vnode_borrow (mroot (mounts s m)) s)))"

definition vfs_unmount :: "ops \<Rightarrow> nat \<Rightarrow> fs \<Rightarrow> vfs_status \<times> fs" where
  "vfs_unmount T m s =
     (if m = 0 \<or> m = root_mount s then (VFS_STATUS_INVALID_ARG, s)
      else if point (mounts s m) = 0 \<or> mroot (mounts s m) = 0 then (VFS_STATUS_INVALID_ARG, s)
      else if vmount (vnodes s (point (mounts s m))) \<noteq> m then (VFS_STATUS_INVALID_ARG, s)
      else
        (let s = upd_vnode (point (mounts s m)) (\<lambda>v. v\<lparr>vmount := 0\<rparr>) s;
             s = upd_vnode (mroot (mounts s m)) (\<lambda>v. v\<lparr>vmount := 0\<rparr>) s;
             s = vfs_vnode_release T (mroot (mounts s m)) s;
             s = vfs_vnode_release T (point (mounts s m)) s
         in (VFS_STATUS_OK, upd_mount m (\<lambda>x. x\<lparr>point := 0, mparent := 0\<rparr>) s)))"

text \<open>The root of the root mount, 0 when there is none.\<close>

definition root_node :: "fs \<Rightarrow> nat" where
  "root_node s = mroot (mounts s (root_mount s))"

definition no_root :: "fs \<Rightarrow> bool" where
  "no_root s \<longleftrightarrow> root_mount s = 0 \<or> root_node s = 0"

definition cross_mount :: "ops \<Rightarrow> nat \<Rightarrow> fs \<Rightarrow> nat \<times> fs" where
  "cross_mount T current s =
     (let m = vmount (vnodes s current)
      in if current = 0 \<or> m = 0 \<or> mroot (mounts s m) = 0 \<or> current = mroot (mounts s m) then (current, s)
         else (mroot (mounts s m), vfs_vnode_release T current (vfs_vnode_borrow (mroot (mounts s m)) s)))"

section \<open>Path resolution\<close>

definition component_is_dot :: "string \<Rightarrow> bool" where
  "component_is_dot c \<longleftrightarrow> c = ''.''"

definition component_is_dotdot :: "string \<Rightarrow> bool" where
  "component_is_dotdot c \<longleftrightarrow> c = ''..''"

text \<open>The step through \<open>parent\<close> that both branches of \<open>component_parent\<close> end with: from \<open>via\<close>, which
  is the current node or the point its mount covers.\<close>

definition parent_step :: "ops \<Rightarrow> nat \<Rightarrow> nat \<Rightarrow> fs \<Rightarrow> vfs_status \<times> nat \<times> fs" where
  "parent_step T via current s =
     (case vop T op_parent via s of
        None \<Rightarrow> (VFS_STATUS_NOT_IMPLEMENTED, current, s)
      | Some par \<Rightarrow>
          (case par via s of
             (status, parent, s) \<Rightarrow>
               if status \<noteq> VFS_STATUS_OK then (status, current, s)
               else if parent = 0 then (VFS_STATUS_NOENT, current, s)
               else (VFS_STATUS_OK, parent, vfs_vnode_release T current s)))"

definition component_parent :: "ops \<Rightarrow> nat \<Rightarrow> fs \<Rightarrow> vfs_status \<times> nat \<times> fs" where
  "component_parent T current s =
     (if current = 0 then (VFS_STATUS_INVALID_ARG, current, s)
      else if current = root_node s then (VFS_STATUS_NOENT, current, s)
      else
        (let m = vmount (vnodes s current)
         in if m \<noteq> 0 \<and> m \<noteq> root_mount s \<and> current = mroot (mounts s m)
            then
              (let pm = (if mparent (mounts s m) = 0 then root_mount s else mparent (mounts s m));
                   pt = point (mounts s m)
               in if pt = 0 \<or> pm = 0 then (VFS_STATUS_INVALID_ARG, current, s)
                  else if pt = mroot (mounts s pm)
                  then (VFS_STATUS_OK, mroot (mounts s pm),
                        vfs_vnode_release T current (vfs_vnode_borrow (mroot (mounts s pm)) s))
                  else parent_step T pt current s)
            else parent_step T current current s))"

text \<open>The copies of a link's target and of the joined path live only during the walk: those of a link
  at depth \<open>d\<close> are the allocations \<open>2 * d\<close> and \<open>2 * d + 1\<close> after the last one.\<close>

definition link_alloc_fails :: "nat \<Rightarrow> fs \<Rightarrow> bool" where
  "link_alloc_fails k s = alloc_fails s (alloc_no s + k)"

definition clone_symlink_target :: "ops \<Rightarrow> nat \<Rightarrow> nat \<Rightarrow> fs \<Rightarrow> vfs_status \<times> string" where
  "clone_symlink_target T depth n s =
     (if n = 0 \<or> vtype (vnodes s n) \<noteq> VFS_NODE_SYMLINK then (VFS_STATUS_INVALID_ARG, [])
      else
        (case vop T op_readlink n s of
           None \<Rightarrow> (VFS_STATUS_NOT_IMPLEMENTED, [])
         | Some readlink \<Rightarrow>
             if link_alloc_fails (2 * depth) s then (VFS_STATUS_NOMEM, [])
             else
               (case readlink n VFS_SYMLINK_TARGET_MAX s of
                  (status, target) \<Rightarrow>
                    if status \<noteq> VFS_STATUS_OK then (status, [])
                    else if target = [] \<or> VFS_SYMLINK_TARGET_MAX \<le> length target
                    then (VFS_STATUS_INVALID_ARG, [])
                    else (VFS_STATUS_OK, target))))"

text \<open>The joined path; a target with a NUL inside ends there.\<close>

definition join_symlink_path :: "string \<Rightarrow> string \<Rightarrow> string" where
  "join_symlink_path target remaining =
     takeWhile (\<lambda>c. c \<noteq> CHR 0x00) target @ (if remaining \<noteq> [] then CHR ''/'' # remaining else [])"

text \<open>How a walk begins: the node it starts at, borrowed, and the path after its leading slashes.\<close>

definition walk_start :: "ops \<Rightarrow> nat \<Rightarrow> string \<Rightarrow> fs \<Rightarrow> (nat \<times> string \<times> fs) option" where
  "walk_start T base path s =
     (if no_root s \<or> path = [] then None
      else
        (let base = (if hd path \<noteq> CHR ''/'' \<and> base = 0
                     then (if proc_get_cwd s = 0 then root_node s else proc_get_cwd s) else base);
             current = (if hd path = CHR ''/'' then root_node s else base)
         in if current = 0 then None
            else
              (case cross_mount T current (vfs_vnode_borrow current s) of
                 (current, s) \<Rightarrow> Some (current, dropWhile (\<lambda>c. c = CHR ''/'') path, s))))"

definition component_of :: "string \<Rightarrow> string" where
  "component_of cursor = takeWhile (\<lambda>c. c \<noteq> CHR ''/'') cursor"

definition after_component :: "string \<Rightarrow> string" where
  "after_component cursor = dropWhile (\<lambda>c. c = CHR ''/'') (dropWhile (\<lambda>c. c \<noteq> CHR ''/'') cursor)"

lemma after_component_less: "cursor \<noteq> [] \<Longrightarrow> length (after_component cursor) < length cursor"
proof (cases cursor)
  case (Cons c cs)
  have l: "length (dropWhile P xs) \<le> length xs" for P and xs :: string by (rule length_dropWhile_le)
  show ?thesis
  proof (cases "c = CHR ''/''")
    case True
    then show ?thesis using Cons l [of _ cs] by (simp add: after_component_def le_imp_less_Suc)
  next
    case False
    then have "length (after_component cursor) \<le> length (dropWhile (\<lambda>c. c \<noteq> CHR ''/'') cs)"
      using Cons l by (simp add: after_component_def)
    then show ?thesis using l [of _ cs] Cons by (metis le_imp_less_Suc le_trans length_Cons)
  qed
qed simp

text \<open>One round of the loop ends the walk with a result, goes on from a node with the rest of the path,
  or follows a link: the link node, and where the walk of its target begins.\<close>

datatype walk_next =
    Done "vfs_status \<times> nat \<times> string \<times> fs"
  | Go nat string fs
  | Follow nat nat string fs

text \<open>\<open>resolve_symlink_component\<close> up to its call of \<open>walk_path\<close>.\<close>

definition follow_link :: "ops \<Rightarrow> nat \<Rightarrow> nat \<Rightarrow> nat \<Rightarrow> string \<Rightarrow> fs \<Rightarrow> walk_next" where
  "follow_link T depth base link remaining s =
     (let fail = (\<lambda>status. Done (status, 0, [], vfs_vnode_release T base (vfs_vnode_release T link s)))
      in if VFS_SYMLINK_MAX_DEPTH \<le> depth then fail VFS_STATUS_LOOP
         else
           (case clone_symlink_target T depth link s of
              (status, target) \<Rightarrow>
                if status \<noteq> VFS_STATUS_OK then fail status
                else if link_alloc_fails (2 * depth + 1) s then fail VFS_STATUS_NOMEM
                else
                  (let linked = join_symlink_path target remaining
                   in case walk_start T (if linked \<noteq> [] \<and> hd linked = CHR ''/'' then 0 else base) linked s of
                        None \<Rightarrow> fail VFS_STATUS_NOENT
                      | Some (start, cursor, s) \<Rightarrow> Follow link start cursor s)))"

definition walk_component :: "ops \<Rightarrow> nat \<Rightarrow> bool \<Rightarrow> nat \<Rightarrow> string \<Rightarrow> fs \<Rightarrow> walk_next" where
  "walk_component T depth stop current cursor s =
     (case vop T op_lookup current s of
        None \<Rightarrow> Done (VFS_STATUS_NOTDIR, 0, [], vfs_vnode_release T current s)
      | Some lookup \<Rightarrow>
          if vtype (vnodes s current) \<noteq> VFS_NODE_DIR
          then Done (VFS_STATUS_NOTDIR, 0, [], vfs_vnode_release T current s)
          else
            (let component = component_of cursor; rest = after_component cursor
             in if stop \<and> rest = [] then Done (VFS_STATUS_OK, current, component, s)
                else if component_is_dot component then Go current rest s
                else if component_is_dotdot component
                then
                  (case component_parent T current s of
                     (status, current, s) \<Rightarrow>
                       if status \<noteq> VFS_STATUS_OK
                       then Done (status, 0, [], vfs_vnode_release T current s)
                       else Go current rest s)
                else
                  (case lookup current component s of
                     (status, nx, s) \<Rightarrow>
                       if status \<noteq> VFS_STATUS_OK
                       then Done (status, 0, [], vfs_vnode_release T current s)
                       else
                         (case cross_mount T nx s of
                            (nx, s) \<Rightarrow>
                              if vtype (vnodes s nx) = VFS_NODE_SYMLINK
                              then follow_link T depth current nx rest s
                              else Go nx rest (vfs_vnode_release T current s)))))"

lemma follow_link_depth: "follow_link T depth base link remaining s = Follow l n c s' \<Longrightarrow> depth < 40"
  by (auto simp: follow_link_def Let_def split: if_splits)

lemma follow_link_no_go [simp]: "follow_link T depth base link remaining s \<noteq> Go n c s'"
  by (auto simp: follow_link_def Let_def split: if_splits prod.splits option.splits)

lemma walk_component_go:
  "walk_component T depth stop current cursor s = Go n c s' \<Longrightarrow> c = after_component cursor"
  by (auto simp: walk_component_def Let_def split: if_splits prod.splits option.splits)

lemma walk_component_follow:
  "walk_component T depth stop current cursor s = Follow l n c s' \<Longrightarrow> depth < 40"
  by (auto simp: walk_component_def Let_def split: if_splits prod.splits option.splits dest: follow_link_depth)

text \<open>The loop. The result is the status, the node (borrowed when the status is OK) and, when
  \<open>stop\<close> asks for the parent, the last component.\<close>

function walk :: "ops \<Rightarrow> nat \<Rightarrow> bool \<Rightarrow> nat \<Rightarrow> string \<Rightarrow> fs \<Rightarrow> vfs_status \<times> nat \<times> string \<times> fs" where
  "walk T depth stop current cursor s =
     (if cursor = [] then (VFS_STATUS_OK, current, [], s)
      else
        (case walk_component T depth stop current cursor s of
           Done r \<Rightarrow> r
         | Go n rest s \<Rightarrow> walk T depth stop n rest s
         | Follow link start rest s \<Rightarrow>
             (case walk T (depth + 1) False start rest s of
                (status, n, _, s) \<Rightarrow>
                  (status, if status = VFS_STATUS_OK then n else 0, [],
                   vfs_vnode_release T current (vfs_vnode_release T link s)))))"
  by pat_completeness auto
termination
  by (relation "measures [\<lambda>(T, depth, stop, current, cursor, s). VFS_SYMLINK_MAX_DEPTH - depth,
        \<lambda>(T, depth, stop, current, cursor, s). length cursor]")
     (auto simp: after_component_less dest!: walk_component_go walk_component_follow)

declare walk.simps [simp del]

definition walk_path :: "ops \<Rightarrow> nat \<Rightarrow> string \<Rightarrow> bool \<Rightarrow> nat \<Rightarrow> fs \<Rightarrow> vfs_status \<times> nat \<times> string \<times> fs" where
  "walk_path T base path stop depth s =
     (case walk_start T base path s of
        None \<Rightarrow> (VFS_STATUS_NOENT, 0, [], s)
      | Some (current, cursor, s) \<Rightarrow> walk T depth stop current cursor s)"

definition vfs_lookup_at :: "ops \<Rightarrow> nat \<Rightarrow> string \<Rightarrow> fs \<Rightarrow> vfs_status \<times> nat \<times> fs" where
  "vfs_lookup_at T base path s =
     (case walk_path T base path False 0 s of
        (status, n, _, s) \<Rightarrow> (status, if status = VFS_STATUS_OK then n else 0, s))"

definition vfs_lookup :: "ops \<Rightarrow> string \<Rightarrow> fs \<Rightarrow> vfs_status \<times> nat \<times> fs" where
  "vfs_lookup T path s = vfs_lookup_at T 0 path s"

definition vfs_lookup_parent_at :: "ops \<Rightarrow> nat \<Rightarrow> string \<Rightarrow> fs \<Rightarrow> vfs_status \<times> nat \<times> string \<times> fs" where
  "vfs_lookup_parent_at T base path s =
     (case walk_path T base path True 0 s of
        (status, n, name, s) \<Rightarrow>
          if status = VFS_STATUS_OK then (status, n, name, s) else (status, 0, [], s))"

definition vfs_lookup_parent :: "ops \<Rightarrow> string \<Rightarrow> fs \<Rightarrow> vfs_status \<times> nat \<times> string \<times> fs" where
  "vfs_lookup_parent T path s = vfs_lookup_parent_at T 0 path s"

definition lookup_parent_entry :: "ops \<Rightarrow> string \<Rightarrow> fs \<Rightarrow> vfs_status \<times> nat \<times> string \<times> fs" where
  "lookup_parent_entry T path s =
     (case vfs_lookup_parent T path s of
        (status, parent, name, s) \<Rightarrow>
          if status \<noteq> VFS_STATUS_OK then (status, parent, name, s)
          else if name = [] then (VFS_STATUS_INVALID_ARG, 0, [], vfs_vnode_release T parent s)
          else (VFS_STATUS_OK, parent, name, s))"

definition lookup_child_no_follow :: "ops \<Rightarrow> string \<Rightarrow> fs \<Rightarrow> vfs_status \<times> nat \<times> fs" where
  "lookup_child_no_follow T path s =
     (case lookup_parent_entry T path s of
        (status, parent, name, s) \<Rightarrow>
          if status \<noteq> VFS_STATUS_OK then (status, 0, s)
          else
            (case vop T op_lookup parent s of
               None \<Rightarrow> (VFS_STATUS_NOTDIR, 0, vfs_vnode_release T parent s)
             | Some lookup \<Rightarrow>
                 (case lookup parent name s of
                    (status, n, s) \<Rightarrow> (status, n, vfs_vnode_release T parent s))))"

definition open_create_path_invalid :: "string \<Rightarrow> u32 \<Rightarrow> bool" where
  "open_create_path_invalid path flags \<longleftrightarrow>
     has_flag flags VFS_OPEN_CREATE \<and>
     (has_flag flags VFS_OPEN_DIRECTORY \<or> (1 < length path \<and> last path = CHR ''/''))"

definition path_is_root :: "string \<Rightarrow> bool" where
  "path_is_root path \<longleftrightarrow> dropWhile (\<lambda>c. c = CHR ''/'') path = []"

text \<open>The mount a node belongs to, by at most 1024 steps to the parent.\<close>

fun owning_mount_loop :: "ops \<Rightarrow> nat \<Rightarrow> nat \<Rightarrow> fs \<Rightarrow> vfs_status \<times> nat \<times> fs" where
  "owning_mount_loop T 0 current s = (VFS_STATUS_LOOP, 0, vfs_vnode_release T current s)"
| "owning_mount_loop T (Suc left) current s =
     (if current = root_node s then (VFS_STATUS_OK, root_mount s, vfs_vnode_release T current s)
      else if vmount (vnodes s current) \<noteq> 0 \<and> current = mroot (mounts s (vmount (vnodes s current)))
      then (VFS_STATUS_OK, vmount (vnodes s current), vfs_vnode_release T current s)
      else
        (case vop T op_parent current s of
           None \<Rightarrow> (VFS_STATUS_NOT_IMPLEMENTED, 0, vfs_vnode_release T current s)
         | Some par \<Rightarrow>
             (case par current s of
                (status, parent, s) \<Rightarrow>
                  if status \<noteq> VFS_STATUS_OK then (status, 0, vfs_vnode_release T current s)
                  else if parent = 0 \<or> parent = current
                  then (VFS_STATUS_NOENT, 0, vfs_vnode_release T current (vfs_vnode_release T parent s))
                  else owning_mount_loop T left parent (vfs_vnode_release T current s))))"

definition vnode_owning_mount :: "ops \<Rightarrow> nat \<Rightarrow> fs \<Rightarrow> vfs_status \<times> nat \<times> fs" where
  "vnode_owning_mount T n s =
     (if n = 0 then (VFS_STATUS_INVALID_ARG, 0, s)
      else if no_root s then (VFS_STATUS_NOENT, 0, s)
      else owning_mount_loop T VFS_SYMLINK_TARGET_MAX n (vfs_vnode_borrow n s))"

section \<open>The working directory's path\<close>

definition getcwd_is_mount_root :: "nat \<Rightarrow> fs \<Rightarrow> bool" where
  "getcwd_is_mount_root n s \<longleftrightarrow>
     n \<noteq> 0 \<and> vmount (vnodes s n) \<noteq> 0 \<and> vmount (vnodes s n) \<noteq> root_mount s \<and>
     n = mroot (mounts s (vmount (vnodes s n)))"

text \<open>The buffer is filled from its end; \<open>acc\<close> is what stands from \<open>pos\<close> on.\<close>

definition getcwd_prepend_component :: "string \<Rightarrow> nat \<Rightarrow> string \<Rightarrow> (string \<times> nat) option" where
  "getcwd_prepend_component acc pos name =
     (let name = strip_slashes name
      in if pos < length name + 1 then None
         else Some (CHR ''/'' # name @ acc, pos - length name - 1))"

definition getcwd_step_to_parent ::
  "ops \<Rightarrow> nat \<Rightarrow> string \<Rightarrow> nat \<Rightarrow> fs \<Rightarrow> vfs_status \<times> nat \<times> string \<times> nat \<times> fs" where
  "getcwd_step_to_parent T child acc pos s =
     (if child = 0 then (VFS_STATUS_INVALID_ARG, child, acc, pos, s)
      else
        (let m = (if getcwd_is_mount_root child s then vmount (vnodes s child) else 0);
             pm = (if mparent (mounts s m) = 0 then root_mount s else mparent (mounts s m))
         in if m \<noteq> 0 \<and> (point (mounts s m) = 0 \<or> pm = 0 \<or> mroot (mounts s pm) = 0)
            then (VFS_STATUS_INVALID_ARG, child, acc, pos, s)
            else if m \<noteq> 0 \<and> point (mounts s m) = mroot (mounts s pm)
            then (VFS_STATUS_OK, mroot (mounts s pm), acc, pos,
                  vfs_vnode_release T child (vfs_vnode_borrow (mroot (mounts s pm)) s))
            else
              (let visible = (if m \<noteq> 0 then point (mounts s m) else child)
               in case (vop T op_parent visible s, vop T op_name visible s) of
                    (Some par, Some nm) \<Rightarrow>
                      (case par visible s of
                         (status, parent, s) \<Rightarrow>
                           if status \<noteq> VFS_STATUS_OK then (status, child, acc, pos, s)
                           else if parent = 0 \<or> parent = visible
                           then (VFS_STATUS_NOENT, child, acc, pos, vfs_vnode_release T parent s)
                           else
                             (case nm visible s of
                                (status, name) \<Rightarrow>
                                  if status \<noteq> VFS_STATUS_OK
                                  then (status, child, acc, pos, vfs_vnode_release T parent s)
                                  else
                                    (case getcwd_prepend_component acc pos name of
                                       None \<Rightarrow> (VFS_STATUS_RANGE, child, acc, pos, vfs_vnode_release T parent s)
                                     | Some (acc, pos) \<Rightarrow>
                                         (VFS_STATUS_OK, parent, acc, pos, vfs_vnode_release T child s))))
                  | _ \<Rightarrow> (VFS_STATUS_NOT_IMPLEMENTED, child, acc, pos, s))))"

fun getcwd_loop ::
  "ops \<Rightarrow> nat \<Rightarrow> nat \<Rightarrow> nat \<Rightarrow> string \<Rightarrow> nat \<Rightarrow> fs \<Rightarrow> vfs_status \<times> string \<times> fs" where
  "getcwd_loop T 0 len current acc pos s = (VFS_STATUS_LOOP, [], vfs_vnode_release T current s)"
| "getcwd_loop T (Suc left) len current acc pos s =
     (if current = root_node s
      then
        (let s = vfs_vnode_release T current s
         in if pos = len - 1
            then (case getcwd_prepend_component acc pos [] of
                    None \<Rightarrow> (VFS_STATUS_RANGE, [], s)
                  | Some (acc, pos) \<Rightarrow> (VFS_STATUS_OK, acc, s))
            else (VFS_STATUS_OK, acc, s))
      else
        (case getcwd_step_to_parent T current acc pos s of
           (status, current, acc, pos, s) \<Rightarrow>
             if status \<noteq> VFS_STATUS_OK then (status, [], vfs_vnode_release T current s)
             else getcwd_loop T left len current acc pos s))"

definition vfs_getcwd :: "ops \<Rightarrow> nat \<Rightarrow> nat \<Rightarrow> fs \<Rightarrow> vfs_status \<times> string \<times> fs" where
  "vfs_getcwd T cwd_node len s =
     (if len = 0 then (VFS_STATUS_RANGE, [], s)
      else if no_root s then (VFS_STATUS_NOENT, [], s)
      else
        (let current = (if cwd_node = 0 then root_node s else cwd_node)
         in getcwd_loop T VFS_SYMLINK_TARGET_MAX len current [] (len - 1) (vfs_vnode_borrow current s)))"

section \<open>Directory entries\<close>

definition mark_dir_changed :: "nat \<Rightarrow> fs \<Rightarrow> fs" where
  "mark_dir_changed dir s =
     upd_vnode dir (\<lambda>v. v\<lparr>modified_timestamp := clock s, changed_mdt_timestamp := clock s\<rparr>) s"

text \<open>\<open>return_created_ref\<close>: the caller gets the reference, or it is given back at once.\<close>

definition return_created_ref :: "ops \<Rightarrow> bool \<Rightarrow> nat \<Rightarrow> fs \<Rightarrow> nat \<times> fs" where
  "return_created_ref T wanted created s =
     (if wanted then (created, s) else (0, vfs_vnode_release T created s))"

definition create_entry ::
  "ops \<Rightarrow> (node_ops \<Rightarrow> (nat \<Rightarrow> string \<Rightarrow> fs \<Rightarrow> vfs_status \<times> nat \<times> fs) option) \<Rightarrow> nat \<Rightarrow> string \<Rightarrow> bool \<Rightarrow> fs
     \<Rightarrow> vfs_status \<times> nat \<times> fs" where
  "create_entry T sel dir name wanted s =
     (let status = dir_mutation_allowed dir name s
      in if status \<noteq> VFS_STATUS_OK then (status, 0, s)
         else
           (case vop T sel dir s of
              None \<Rightarrow> (VFS_STATUS_NOT_IMPLEMENTED, 0, s)
            | Some create \<Rightarrow>
                (case create dir name s of
                   (status, created, s) \<Rightarrow>
                     if status \<noteq> VFS_STATUS_OK then (status, 0, s)
                     else (VFS_STATUS_OK, return_created_ref T wanted created (mark_dir_changed dir s)))))"

definition vfs_create :: "ops \<Rightarrow> nat \<Rightarrow> string \<Rightarrow> bool \<Rightarrow> fs \<Rightarrow> vfs_status \<times> nat \<times> fs" where
  "vfs_create T dir name wanted s = create_entry T op_create_file dir name wanted s"

definition vfs_mkdir :: "ops \<Rightarrow> nat \<Rightarrow> string \<Rightarrow> bool \<Rightarrow> fs \<Rightarrow> vfs_status \<times> nat \<times> fs" where
  "vfs_mkdir T dir name wanted s = create_entry T op_create_dir dir (strip_slashes name) wanted s"

definition remove_child :: "ops \<Rightarrow> nat \<Rightarrow> string \<Rightarrow> u32 \<Rightarrow> bool \<Rightarrow> fs \<Rightarrow> vfs_status \<times> fs" where
  "remove_child T dir name flags expect_dir s =
     (case vop T op_lookup dir s of
        None \<Rightarrow> (VFS_STATUS_NOTDIR, s)
      | Some lookup \<Rightarrow>
          if vtype (vnodes s dir) \<noteq> VFS_NODE_DIR then (VFS_STATUS_NOTDIR, s)
          else
            (case (if expect_dir then vop T op_rmdir dir s else vop T op_unlink dir s) of
               None \<Rightarrow> (VFS_STATUS_NOT_IMPLEMENTED, s)
             | Some remove \<Rightarrow>
                 (case lookup dir name s of
                    (status, target, s) \<Rightarrow>
                      if status \<noteq> VFS_STATUS_OK then (status, s)
                      else if expect_dir \<and> vtype (vnodes s target) \<noteq> VFS_NODE_DIR
                      then (VFS_STATUS_NOTDIR, vfs_vnode_release T target s)
                      else if \<not> expect_dir \<and> vtype (vnodes s target) = VFS_NODE_DIR
                      then (VFS_STATUS_ISDIR, vfs_vnode_release T target s)
                      else
                        (case remove dir name flags s of
                           (status, s) \<Rightarrow>
                             if status \<noteq> VFS_STATUS_OK then (status, vfs_vnode_release T target s)
                             else
                               (let s = upd_vnode target (\<lambda>v. v\<lparr>link_count := link_count v - 1\<rparr>) s
                                in (VFS_STATUS_OK, vfs_vnode_release T target (mark_dir_changed dir s)))))))"

definition vfs_unlink :: "ops \<Rightarrow> nat \<Rightarrow> string \<Rightarrow> u32 \<Rightarrow> fs \<Rightarrow> vfs_status \<times> fs" where
  "vfs_unlink T dir name flags s =
     (let status = dir_mutation_allowed dir name s
      in if status \<noteq> VFS_STATUS_OK then (status, s) else remove_child T dir name flags False s)"

definition vfs_rmdir :: "ops \<Rightarrow> nat \<Rightarrow> string \<Rightarrow> u32 \<Rightarrow> fs \<Rightarrow> vfs_status \<times> fs" where
  "vfs_rmdir T dir name flags s =
     (let status = dir_mutation_allowed dir name s
      in if status \<noteq> VFS_STATUS_OK then (status, s) else remove_child T dir name flags True s)"

definition vfs_link :: "ops \<Rightarrow> string \<Rightarrow> string \<Rightarrow> fs \<Rightarrow> vfs_status \<times> fs" where
  "vfs_link T old_path new_path s =
     (case vfs_lookup T old_path s of
        (status, target, s) \<Rightarrow>
          if status \<noteq> VFS_STATUS_OK then (status, s)
          else if vtype (vnodes s target) = VFS_NODE_DIR
          then (VFS_STATUS_ISDIR, vfs_vnode_release T target s)
          else if vtype (vnodes s target) \<noteq> VFS_NODE_FILE
          then (VFS_STATUS_INVALID_ARG, vfs_vnode_release T target s)
          else
            (case lookup_parent_entry T new_path s of
               (status, parent, name, s) \<Rightarrow>
                 (let cleanup = (\<lambda>(status, s). (status, vfs_vnode_release T target (vfs_vnode_release T parent s)));
                      allowed = dir_mutation_allowed parent name s
                  in if status \<noteq> VFS_STATUS_OK then cleanup (status, s)
                     else if allowed \<noteq> VFS_STATUS_OK then cleanup (allowed, s)
                     else
                       (case vnode_owning_mount T target s of
                          (status, target_mount, s) \<Rightarrow>
                            if status \<noteq> VFS_STATUS_OK then cleanup (status, s)
                            else
                              (case vnode_owning_mount T parent s of
                                 (status, parent_mount, s) \<Rightarrow>
                                   if status \<noteq> VFS_STATUS_OK then cleanup (status, s)
                                   else if target_mount \<noteq> parent_mount then cleanup (VFS_STATUS_XDEV, s)
                                   else
                                     (case vop T op_link parent s of
                                        None \<Rightarrow> cleanup (VFS_STATUS_NOT_IMPLEMENTED, s)
                                      | Some link \<Rightarrow>
                                          (case link parent name target s of
                                             (status, s) \<Rightarrow>
                                               if status = VFS_STATUS_OK
                                               then cleanup (status,
                                                      upd_vnode target (\<lambda>v. v\<lparr>link_count := link_count v + 1\<rparr>)
                                                        (mark_dir_changed parent s))
                                               else cleanup (status, s))))))))"

text \<open>On the two paths to the cleanup that skip the initialisation of \<open>created\<close> the source releases
  an uninitialised pointer; they are \<open>None\<close>.\<close>

definition vfs_symlink :: "ops \<Rightarrow> string \<Rightarrow> string \<Rightarrow> fs \<Rightarrow> (vfs_status \<times> fs) option" where
  "vfs_symlink T target link_path s =
     (if target = [] then Some (VFS_STATUS_INVALID_ARG, s)
      else
        (case lookup_parent_entry T link_path s of
           (status, parent, name, s) \<Rightarrow>
             if status \<noteq> VFS_STATUS_OK then Some (status, s)
             else if dir_mutation_allowed parent name s \<noteq> VFS_STATUS_OK then None
             else
               (case vop T op_symlink parent s of
                  None \<Rightarrow> None
                | Some symlink \<Rightarrow>
                    (case symlink parent name target s of
                       (status, created, s) \<Rightarrow>
                         (let s = (if status = VFS_STATUS_OK then mark_dir_changed parent s else s)
                          in Some (status, vfs_vnode_release T parent (vfs_vnode_release T created s)))))))"

definition vfs_readlink :: "ops \<Rightarrow> string \<Rightarrow> nat \<Rightarrow> fs \<Rightarrow> vfs_status \<times> string \<times> fs" where
  "vfs_readlink T path len s =
     (case lookup_child_no_follow T path s of
        (status, link, s) \<Rightarrow>
          if status \<noteq> VFS_STATUS_OK then (status, [], s)
          else if vtype (vnodes s link) \<noteq> VFS_NODE_SYMLINK
          then (VFS_STATUS_INVALID_ARG, [], vfs_vnode_release T link s)
          else
            (case vop T op_readlink link s of
               None \<Rightarrow> (VFS_STATUS_NOT_IMPLEMENTED, [], vfs_vnode_release T link s)
             | Some readlink \<Rightarrow>
                 (case readlink link len s of
                    (status, target) \<Rightarrow> (status, target, vfs_vnode_release T link s))))"

section \<open>Open files\<close>

definition vfs_get_file_handle :: "ops \<Rightarrow> string \<Rightarrow> u32 \<Rightarrow> fs \<Rightarrow> vfs_status \<times> nat \<times> fs" where
  "vfs_get_file_handle T path flags s =
     (if open_create_path_invalid path flags then (VFS_STATUS_INVALID_ARG, 0, s)
      else
        (case vfs_lookup T path s of
           (lookup_res, target, s) \<Rightarrow>
             if lookup_res \<noteq> VFS_STATUS_OK \<and>
                \<not> (lookup_res = VFS_STATUS_NOENT \<and> has_flag flags VFS_OPEN_CREATE \<and>
                   \<not> has_flag flags VFS_OPEN_DIRECTORY)
             then (lookup_res, 0, s)
             else
               (case (if lookup_res = VFS_STATUS_NOENT
                      then
                        (case lookup_parent_entry T path s of
                           (status, dir, name, s) \<Rightarrow>
                             if status \<noteq> VFS_STATUS_OK then (status, dir, target, s)
                             else (case vfs_create T dir name True s of
                                     (status, created, s) \<Rightarrow> (status, dir, created, s)))
                      else (lookup_res, 0, target, s)) of
                  (status, dir, target, s) \<Rightarrow>
                    (case (if status \<noteq> VFS_STATUS_OK then (status, 0, s)
                           else
                             (case vop T op_open target s of
                                None \<Rightarrow> (VFS_STATUS_NOT_IMPLEMENTED, 0, s)
                              | Some opn \<Rightarrow>
                                  if can_open target flags s \<noteq> VFS_STATUS_OK
                                  then (can_open target flags s, 0, s)
                                  else opn target (flags AND NOT VFS_OPEN_CREATE) s)) of
                       (status, f, s) \<Rightarrow>
                         (let s = vfs_vnode_release T dir s
                          in (status, f,
                              if status \<noteq> VFS_STATUS_OK then vfs_vnode_release T target s else s))))))"

definition vfs_open :: "ops \<Rightarrow> string \<Rightarrow> u32 \<Rightarrow> fs \<Rightarrow> vfs_status \<times> nat \<times> nat \<times> fs" where
  "vfs_open T path flags s =
     (if open_create_path_invalid path flags then (VFS_STATUS_INVALID_ARG, 0, 0, s)
      else
        (case proc_fd_find_null s of
           None \<Rightarrow> (VFS_STATUS_TOO_MANY_OPEN, 0, 0, s)
         | Some fd_idx \<Rightarrow>
             (case vfs_get_file_handle T path flags s of
                (status, f, s) \<Rightarrow>
                  if status = VFS_STATUS_OK then (status, f, fd_idx, proc_fd_set fd_idx f s)
                  else (status, f, 0, s))))"

definition vfs_read :: "ops \<Rightarrow> nat \<Rightarrow> u64 \<Rightarrow> fs \<Rightarrow> (vfs_status \<times> u8 list \<times> fs) option" where
  "vfs_read T f len s =
     (if f = 0 then Some (VFS_STATUS_INVALID_ARG, [], s)
      else
        (case fop T op_read f s of
           None \<Rightarrow> Some (VFS_STATUS_NOT_IMPLEMENTED, [], s)
         | Some rd \<Rightarrow>
             if can_read f s \<noteq> VFS_STATUS_OK then Some (can_read f s, [], s)
             else
               map_option
                 (\<lambda>(status, bytes, s). (status, bytes,
                    if status = VFS_STATUS_OK \<and> bytes \<noteq> []
                    then upd_vnode (fvnode (files s f)) (\<lambda>v. v\<lparr>accessed_timestamp := clock s\<rparr>) s else s))
                 (rd f len s)))"

definition vfs_seek :: "ops \<Rightarrow> nat \<Rightarrow> u64 \<Rightarrow> int \<Rightarrow> fs \<Rightarrow> vfs_status \<times> u64 \<times> fs" where
  "vfs_seek T f offset whence s =
     (if f = 0 then (VFS_STATUS_INVALID_ARG, 0, s)
      else
        (case fop T op_seek f s of
           None \<Rightarrow> (VFS_STATUS_NOT_IMPLEMENTED, 0, s)
         | Some sk \<Rightarrow>
             (case can_seek f whence of
                None \<Rightarrow> (VFS_STATUS_INVALID_ARG, 0, s)
              | Some w \<Rightarrow> sk f offset w s)))"

definition vfs_write :: "ops \<Rightarrow> nat \<Rightarrow> u8 list \<Rightarrow> fs \<Rightarrow> (vfs_status \<times> u64 \<times> fs) option" where
  "vfs_write T f data s =
     (if f = 0 then Some (VFS_STATUS_INVALID_ARG, 0, s)
      else
        (case fop T op_write f s of
           None \<Rightarrow> Some (VFS_STATUS_NOT_IMPLEMENTED, 0, s)
         | Some wr \<Rightarrow>
             if can_write f s \<noteq> VFS_STATUS_OK then Some (can_write f s, 0, s)
             else
               (case (if has_flag (fflags (files s f)) VFS_OPEN_APPEND \<and>
                         vtype (vnodes s (fvnode (files s f))) = VFS_NODE_FILE
                      then vfs_seek T f 0 2 s else (VFS_STATUS_OK, 0, s)) of
                  (status, _, s) \<Rightarrow>
                    if status \<noteq> VFS_STATUS_OK then Some (status, 0, s)
                    else
                      map_option
                        (\<lambda>(status, n, s). (status, n,
                           if status = VFS_STATUS_OK \<and> 0 < n
                           then upd_vnode (fvnode (files s f)) (\<lambda>v. v\<lparr>modified_timestamp := clock s,
                                  changed_mdt_timestamp := clock s\<rparr>) s
                           else s))
                        (wr f data s))))"

definition vfs_readdir :: "ops \<Rightarrow> nat \<Rightarrow> fs \<Rightarrow> vfs_status \<times> (string \<times> nat) option \<times> fs" where
  "vfs_readdir T dir s =
     (if dir = 0 then (VFS_STATUS_NOENT, None, s)
      else if can_readdir dir s \<noteq> VFS_STATUS_OK then (can_readdir dir s, None, s)
      else
        (case fop T op_readdir dir s of
           None \<Rightarrow> (VFS_STATUS_NOT_IMPLEMENTED, None, s)
         | Some rd \<Rightarrow> rd dir s))"

definition cache_vnode_stat_timestamps :: "nat \<Rightarrow> fs \<Rightarrow> vfs_stat option \<Rightarrow> vfs_stat option" where
  "cache_vnode_stat_timestamps n s out =
     (if n = 0 then out
      else map_option (\<lambda>st. st\<lparr>saccessed := accessed_timestamp (vnodes s n),
             smodified := modified_timestamp (vnodes s n), schanged := changed_mdt_timestamp (vnodes s n),
             slink_count := link_count (vnodes s n)\<rparr>) out)"

definition stat_vnode :: "ops \<Rightarrow> nat \<Rightarrow> fs \<Rightarrow> (vfs_status \<times> vfs_stat option) \<times> fs" where
  "stat_vnode T n s =
     (case vop T op_stat n s of
        None \<Rightarrow> ((VFS_STATUS_NOT_IMPLEMENTED, None), s)
      | Some st \<Rightarrow>
          (case st n s of
             ((status, out), s) \<Rightarrow>
               ((status, if status = VFS_STATUS_OK then cache_vnode_stat_timestamps n s out else out), s)))"

definition vfs_stat_path :: "ops \<Rightarrow> string \<Rightarrow> fs \<Rightarrow> (vfs_status \<times> vfs_stat option) \<times> fs" where
  "vfs_stat_path T path s =
     (case vfs_lookup T path s of
        (status, n, s) \<Rightarrow>
          if status \<noteq> VFS_STATUS_OK then ((status, None), s)
          else (case stat_vnode T n s of (r, s) \<Rightarrow> (r, vfs_vnode_release T n s)))"

definition vfs_lstat :: "ops \<Rightarrow> string \<Rightarrow> fs \<Rightarrow> (vfs_status \<times> vfs_stat option) \<times> fs" where
  "vfs_lstat T path s =
     (case (if path_is_root path then vfs_lookup T path s else lookup_child_no_follow T path s) of
        (status, n, s) \<Rightarrow>
          if status \<noteq> VFS_STATUS_OK then ((status, None), s)
          else (case stat_vnode T n s of (r, s) \<Rightarrow> (r, vfs_vnode_release T n s)))"

definition vfs_fstat :: "ops \<Rightarrow> nat \<Rightarrow> fs \<Rightarrow> (vfs_status \<times> vfs_stat option) \<times> fs" where
  "vfs_fstat T f s =
     (if f = 0 then ((VFS_STATUS_NOENT, None), s) else stat_vnode T (fvnode (files s f)) s)"

definition vfs_close :: "ops \<Rightarrow> nat \<Rightarrow> fs \<Rightarrow> vfs_status \<times> fs" where
  "vfs_close T f s =
     (if f = 0 then (VFS_STATUS_OK, s)
      else if frefcount (files s f) = 0 then (VFS_STATUS_INVALID_ARG, s)
      else if frefcount (files s f) = 1 \<and> fop T op_close f s = None then (VFS_STATUS_NOT_IMPLEMENTED, s)
      else
        (let n = fvnode (files s f); s = clear_process_fd f s
         in if 1 < frefcount (files s f) then (VFS_STATUS_OK, vfs_file_release f s)
            else
              (case the (fop T op_close f s) f s of
                 (status, s) \<Rightarrow> (status, vfs_vnode_release T n s))))"

definition vfs_ioctl :: "ops \<Rightarrow> nat \<Rightarrow> u64 \<Rightarrow> u64 \<Rightarrow> fs \<Rightarrow> vfs_status \<times> fs" where
  "vfs_ioctl T f request args s =
     (if f = 0 then (VFS_STATUS_BAD_FD, s)
      else if can_ioctl f s \<noteq> VFS_STATUS_OK then (can_ioctl f s, s)
      else
        (case fop T op_ioctl f s of
           None \<Rightarrow> (VFS_STATUS_NOT_IMPLEMENTED, s)
         | Some io \<Rightarrow> io f request args s))"

definition vfs_resolve_fd :: "nat \<Rightarrow> fs \<Rightarrow> vfs_status \<times> nat" where
  "vfs_resolve_fd fd s =
     (if proc_fd_get fd s = 0 then (VFS_STATUS_BAD_FD, 0) else (VFS_STATUS_OK, proc_fd_get fd s))"

end
