(* ===== verification/Vfs_Lookup.thy ===== *)
theory Vfs_Lookup
  imports Vfs
begin

text \<open>
  Path resolution is free of leaks: whatever the path, the only change to the state is that the
  node returned has one reference more. This is proved once, in the locale \<open>vnode_tables\<close>, from
  what the VFS expects of a file system's \<open>lookup\<close> and \<open>parent\<close>, and is then used for every
  operation that begins with a path.
\<close>

section \<open>References\<close>

definition stable :: "fs \<Rightarrow> nat \<Rightarrow> bool" where
  "stable s n \<longleftrightarrow> 0 < refcount (vnodes s n) \<or> 0 < link_count (vnodes s n)"

lemma borrow_simps [simp]:
  "vtype (vnodes (vfs_vnode_borrow n s) m) = vtype (vnodes s m)"
  "vops (vnodes (vfs_vnode_borrow n s) m) = vops (vnodes s m)"
  "vmount (vnodes (vfs_vnode_borrow n s) m) = vmount (vnodes s m)"
  "link_count (vnodes (vfs_vnode_borrow n s) m) = link_count (vnodes s m)"
  "modified_timestamp (vnodes (vfs_vnode_borrow n s) m) = modified_timestamp (vnodes s m)"
  "refcount (vnodes (vfs_vnode_borrow n s) m) = refcount (vnodes s m) + (if m = n \<and> n \<noteq> 0 then 1 else 0)"
  "inodes (vfs_vnode_borrow n s) = inodes s" "mounts (vfs_vnode_borrow n s) = mounts s"
  "files (vfs_vnode_borrow n s) = files s" "root_mount (vfs_vnode_borrow n s) = root_mount s"
  "current_process (vfs_vnode_borrow n s) = current_process s" "cwd (vfs_vnode_borrow n s) = cwd s"
  "fds (vfs_vnode_borrow n s) = fds s" "inode_count (vfs_vnode_borrow n s) = inode_count s"
  "clock (vfs_vnode_borrow n s) = clock s" "alloc_no (vfs_vnode_borrow n s) = alloc_no s"
  "alloc_fails (vfs_vnode_borrow n s) = alloc_fails s" "freed (vfs_vnode_borrow n s) = freed s"
  "freed_files (vfs_vnode_borrow n s) = freed_files s"
  by (auto simp: vfs_vnode_borrow_def upd_vnode_def)

lemma borrow_derived [simp]:
  "root_node (vfs_vnode_borrow n s) = root_node s" "no_root (vfs_vnode_borrow n s) = no_root s"
  "proc_get_cwd (vfs_vnode_borrow n s) = proc_get_cwd s"
  "vop T sel m (vfs_vnode_borrow n s) = vop T sel m s"
  "link_alloc_fails k (vfs_vnode_borrow n s) = link_alloc_fails k s"
  by (simp_all add: root_node_def no_root_def proc_get_cwd_def vop_def link_alloc_fails_def)

lemma borrow_commute: "vfs_vnode_borrow m (vfs_vnode_borrow n s) = vfs_vnode_borrow n (vfs_vnode_borrow m s)"
  by (cases s) (auto simp: vfs_vnode_borrow_def upd_vnode_def fun_eq_iff)

lemma borrow_stable: "stable s n \<Longrightarrow> stable (vfs_vnode_borrow m s) n"
  by (auto simp: stable_def)

lemma release_borrow:
  assumes "stable s n"
  shows "vfs_vnode_release T n (vfs_vnode_borrow n s) = s"
proof (cases "n = 0")
  case False
  have "upd_vnode n (\<lambda>v. v\<lparr>refcount := refcount v - 1\<rparr>) (vfs_vnode_borrow n s) = s"
    using False by (cases s) (simp add: upd_vnode_def vfs_vnode_borrow_def fun_upd_idem)
  then show ?thesis using False assms
    by (auto simp: vfs_vnode_release_def Let_def stable_def)
qed (simp add: vfs_vnode_release_def vfs_vnode_borrow_def)

lemma release_under:
  assumes "stable s n"
  shows "vfs_vnode_release T n (vfs_vnode_borrow m (vfs_vnode_borrow n s)) = vfs_vnode_borrow m s"
  using release_borrow [OF borrow_stable [OF assms], of T m] by (simp add: borrow_commute)

section \<open>What path resolution relies on\<close>

text \<open>\<open>wf\<close> is an invariant of the state and \<open>ok s n\<close> says that \<open>n\<close> is a node in use. A \<open>lookup\<close> or
  \<open>parent\<close> that succeeds has borrowed the node it returns and done nothing else; one that fails has
  changed nothing.\<close>

locale vnode_tables =
  fixes T :: ops and wf :: "fs \<Rightarrow> bool" and ok :: "fs \<Rightarrow> nat \<Rightarrow> bool"
  assumes ok_stable: "wf s \<Longrightarrow> ok s n \<Longrightarrow> n \<noteq> 0 \<and> stable s n"
    and borrow_wf: "wf s \<Longrightarrow> ok s n \<Longrightarrow> wf (vfs_vnode_borrow n s)"
    and borrow_ok: "ok (vfs_vnode_borrow n s) m = ok s m"
    and root_ok: "wf s \<Longrightarrow> \<not> no_root s \<Longrightarrow> ok s (root_node s)"
    and cwd_ok: "wf s \<Longrightarrow> proc_get_cwd s \<noteq> 0 \<Longrightarrow> ok s (proc_get_cwd s)"
    and mount_ok: "wf s \<Longrightarrow> ok s n \<Longrightarrow> vmount (vnodes s n) \<noteq> 0 \<Longrightarrow>
      mroot (mounts s (vmount (vnodes s n))) \<noteq> 0 \<Longrightarrow> ok s (mroot (mounts s (vmount (vnodes s n))))"
    and point_ok: "wf s \<Longrightarrow> ok s n \<Longrightarrow> vmount (vnodes s n) \<noteq> 0 \<Longrightarrow>
      point (mounts s (vmount (vnodes s n))) \<noteq> 0 \<Longrightarrow> ok s (point (mounts s (vmount (vnodes s n))))"
    and lookup_law: "wf s \<Longrightarrow> ok s d \<Longrightarrow> vop T op_lookup d s = Some f \<Longrightarrow> f d name s = (st, n, s') \<Longrightarrow>
      (if st = VFS_STATUS_OK then ok s n \<and> s' = vfs_vnode_borrow n s else s' = s)"
    and parent_law: "wf s \<Longrightarrow> ok s d \<Longrightarrow> vop T op_parent d s = Some g \<Longrightarrow> g d s = (st, n, s') \<Longrightarrow>
      (if st = VFS_STATUS_OK then ok s n \<and> s' = vfs_vnode_borrow n s else s' = s)"
begin

lemma release_ok: "wf s \<Longrightarrow> ok s n \<Longrightarrow> vfs_vnode_release T n (vfs_vnode_borrow n s) = s"
  using ok_stable release_borrow by blast

lemma release_under_ok:
  "wf s \<Longrightarrow> ok s n \<Longrightarrow> vfs_vnode_release T n (vfs_vnode_borrow m (vfs_vnode_borrow n s)) = vfs_vnode_borrow m s"
  using ok_stable release_under by blast

lemma cross_mount_refs:
  assumes "wf s" "ok s n" "cross_mount T n (vfs_vnode_borrow n s) = (m, s')"
  shows "ok s m \<and> s' = vfs_vnode_borrow m s"
  using assms mount_ok [OF assms(1,2)] release_under_ok [OF assms(1,2)]
  by (auto simp: cross_mount_def Let_def split: if_splits)

lemma parent_step_refs:
  assumes "wf s" "ok s via" "ok s c" "parent_step T via c (vfs_vnode_borrow c s) = (st, n, s')"
  shows "if st = VFS_STATUS_OK then ok s n \<and> s' = vfs_vnode_borrow n s
    else n = c \<and> s' = vfs_vnode_borrow c s"
proof (cases "vop T op_parent via s")
  case None
  then show ?thesis using assms(4) by (auto simp: parent_step_def)
next
  case (Some g)
  obtain st1 p s1 where g: "g via (vfs_vnode_borrow c s) = (st1, p, s1)" by (metis surj_pair)
  have wf1: "wf (vfs_vnode_borrow c s)" using borrow_wf assms(1,3) by blast
  have law: "if st1 = VFS_STATUS_OK then ok s p \<and> s1 = vfs_vnode_borrow p (vfs_vnode_borrow c s)
      else s1 = vfs_vnode_borrow c s"
    using parent_law [of "vfs_vnode_borrow c s" via g st1 p s1] wf1 g assms(2) Some by (simp add: borrow_ok split: if_splits)
  show ?thesis
  proof (cases "st1 = VFS_STATUS_OK")
    case True
    then have "p \<noteq> 0" using law ok_stable assms(1) by simp
    then show ?thesis using True law assms(4) Some g release_under_ok [OF assms(1,3)]
      by (auto simp: parent_step_def)
  next
    case False
    then show ?thesis using law assms(4) Some g by (auto simp: parent_step_def)
  qed
qed

lemma component_parent_refs:
  assumes "wf s" "ok s c" "component_parent T c (vfs_vnode_borrow c s) = (st, n, s')"
  shows "if st = VFS_STATUS_OK then ok s n \<and> s' = vfs_vnode_borrow n s else n = c \<and> s' = vfs_vnode_borrow c s"
proof -
  let ?m = "vmount (vnodes s c)"
  let ?pm = "if mparent (mounts s ?m) = 0 then root_mount s else mparent (mounts s ?m)"
  let ?pt = "point (mounts s ?m)"
  have "c \<noteq> 0" using ok_stable assms(1,2) by blast
  consider "c = root_node s" | "c \<noteq> root_node s" "?m \<noteq> 0 \<and> ?m \<noteq> root_mount s \<and> c = mroot (mounts s ?m)"
    | "c \<noteq> root_node s" "\<not> (?m \<noteq> 0 \<and> ?m \<noteq> root_mount s \<and> c = mroot (mounts s ?m))" by blast
  then show ?thesis
  proof cases
    case 1
    then show ?thesis using assms(3) \<open>c \<noteq> 0\<close> by (auto simp: component_parent_def)
  next
    case 2
    show ?thesis
    proof (cases "?pt = 0 \<or> ?pm = 0 \<or> ?pt = mroot (mounts s ?pm)")
      case True
      have ok: "?pt \<noteq> 0 \<Longrightarrow> ok s ?pt" using point_ok [OF assms(1,2)] 2(2) by blast
      show ?thesis
        using True 2 assms(3) \<open>c \<noteq> 0\<close> ok release_under_ok [OF assms(1,2), of ?pt]
        by (auto simp: component_parent_def Let_def split: if_splits)
    next
      case False
      then have "ok s ?pt" using point_ok [OF assms(1,2)] 2(2) by blast
      moreover have "parent_step T ?pt c (vfs_vnode_borrow c s) = (st, n, s')"
        using False 2 assms(3) \<open>c \<noteq> 0\<close> by (auto simp: component_parent_def Let_def split: if_splits)
      ultimately show ?thesis using parent_step_refs [OF assms(1) _ assms(2)] by blast
    qed
  next
    case 3
    then have "parent_step T c c (vfs_vnode_borrow c s) = (st, n, s')"
      using assms(3) \<open>c \<noteq> 0\<close> by (auto simp: component_parent_def Let_def split: if_splits)
    then show ?thesis using parent_step_refs [OF assms(1,2,2)] by blast
  qed
qed

lemma walk_start_refs:
  assumes "wf s" "base = 0 \<or> ok s base" "walk_start T base path s = Some (c, cursor, s')"
  shows "ok s c \<and> s' = vfs_vnode_borrow c s"
proof -
  let ?b = "if hd path \<noteq> CHR ''/'' \<and> base = 0 then (if proc_get_cwd s = 0 then root_node s else proc_get_cwd s) else base"
  let ?c = "if hd path = CHR ''/'' then root_node s else ?b"
  have nr: "\<not> no_root s" and cm: "cross_mount T ?c (vfs_vnode_borrow ?c s) = (c, s')" and c0: "?c \<noteq> 0"
    using assms(3) by (auto simp: walk_start_def Let_def split: if_splits prod.splits)
  have "ok s ?c" using root_ok [OF assms(1) nr] cwd_ok [OF assms(1)] assms(2) c0 by auto
  from cross_mount_refs [OF assms(1) this cm] show ?thesis .
qed

lemma follow_link_refs:
  assumes "wf s" "ok s base" "ok s link"
    and "follow_link T depth base link rest (vfs_vnode_borrow link (vfs_vnode_borrow base s)) = w"
  shows "case w of
      Done (st, n, name, s') \<Rightarrow> st \<noteq> VFS_STATUS_OK \<and> s' = s
    | Go _ _ _ \<Rightarrow> False
    | Follow l start cursor s' \<Rightarrow> l = link \<and> ok s start \<and>
        s' = vfs_vnode_borrow start (vfs_vnode_borrow link (vfs_vnode_borrow base s))"
proof -
  let ?s = "vfs_vnode_borrow link (vfs_vnode_borrow base s)"
  have wf1: "wf ?s" using assms(1-3) borrow_wf borrow_ok by blast
  have rel: "vfs_vnode_release T base (vfs_vnode_release T link ?s) = s"
  proof -
    have "vfs_vnode_release T link ?s = vfs_vnode_borrow base s"
      using release_ok [of "vfs_vnode_borrow base s" link] assms(1-3) borrow_wf borrow_ok by blast
    then show ?thesis using release_ok [OF assms(1,2)] by simp
  qed
  obtain st target where t: "clone_symlink_target T depth link ?s = (st, target)" by (metis surj_pair)
  let ?l = "join_symlink_path target rest"
  let ?b = "if ?l \<noteq> [] \<and> hd ?l = CHR ''/'' then 0 else base"
  show ?thesis
  proof (cases "walk_start T ?b ?l ?s")
    case None
    then show ?thesis using assms(4) t rel by (auto simp: follow_link_def Let_def split: if_splits)
  next
    case (Some r)
    obtain start cursor s' where r: "r = (start, cursor, s')" by (metis surj_pair)
    have "ok s start \<and> s' = vfs_vnode_borrow start ?s"
      using walk_start_refs [OF wf1 _ Some [unfolded r]] assms(2) by (simp add: borrow_ok)
    then show ?thesis using assms(4) t rel Some r by (auto simp: follow_link_def Let_def split: if_splits)
  qed
qed

lemma walk_component_refs:
  assumes "wf s" "ok s c" and w: "walk_component T depth stop c cursor (vfs_vnode_borrow c s) = w"
  shows "case w of
      Done (st, n, name, s') \<Rightarrow> if st = VFS_STATUS_OK then ok s n \<and> s' = vfs_vnode_borrow n s else s' = s
    | Go n _ s' \<Rightarrow> ok s n \<and> s' = vfs_vnode_borrow n s
    | Follow l start _ s' \<Rightarrow> ok s l \<and> ok s start \<and>
        s' = vfs_vnode_borrow start (vfs_vnode_borrow l (vfs_vnode_borrow c s))"
proof -
  let ?s = "vfs_vnode_borrow c s" and ?comp = "component_of cursor" and ?rest = "after_component cursor"
  note rel = release_ok [OF assms(1,2)]
  have wf1: "wf ?s" using borrow_wf assms(1,2) by blast
  have okc: "ok ?s c" using assms(2) by (simp add: borrow_ok)
  obtain pst pn ps where p: "component_parent T c ?s = (pst, pn, ps)" by (metis surj_pair)
  note pr = component_parent_refs [OF assms(1,2) p]
  show ?thesis
  proof (cases "vop T op_lookup c s")
    case None
    then show ?thesis using w rel by (auto simp: walk_component_def)
  next
    case (Some f)
    obtain lst nx ls where f: "f c ?comp ?s = (lst, nx, ls)" by (metis surj_pair)
    have law: "if lst = VFS_STATUS_OK then ok s nx \<and> ls = vfs_vnode_borrow nx ?s else ls = ?s"
      using lookup_law [of ?s c f ?comp lst nx ls] wf1 okc Some f by (simp add: borrow_ok split: if_splits)
    consider "vtype (vnodes s c) \<noteq> VFS_NODE_DIR \<or> (stop \<and> ?rest = []) \<or> component_is_dot ?comp \<or> component_is_dotdot ?comp"
      | "lst \<noteq> VFS_STATUS_OK" "vtype (vnodes s c) = VFS_NODE_DIR" "\<not> (stop \<and> ?rest = [])" "\<not> component_is_dot ?comp"
        "\<not> component_is_dotdot ?comp"
      | "lst = VFS_STATUS_OK" "vtype (vnodes s c) = VFS_NODE_DIR" "\<not> (stop \<and> ?rest = [])" "\<not> component_is_dot ?comp"
        "\<not> component_is_dotdot ?comp" by blast
    then show ?thesis
    proof cases
      case 1
      then show ?thesis using w rel pr p Some assms(2)
        by (auto simp: walk_component_def Let_def split: if_splits)
    next
      case 2
      then show ?thesis using w rel law Some f by (auto simp: walk_component_def Let_def)
    next
      case 3
      then have ls: "ok s nx" "ls = vfs_vnode_borrow nx ?s" using law by auto
      obtain m ms where m: "cross_mount T nx ls = (m, ms)" by (metis surj_pair)
      have "ok ?s m \<and> ms = vfs_vnode_borrow m ?s"
        using cross_mount_refs [OF wf1, of nx m ms] ls m by (simp add: borrow_ok)
      then have ms: "ok s m" "ms = vfs_vnode_borrow m ?s" by (simp_all add: borrow_ok)
      show ?thesis
      proof (cases "vtype (vnodes s m) = VFS_NODE_SYMLINK")
        case True
        then have "follow_link T depth c m ?rest (vfs_vnode_borrow m ?s) = w"
          using w 3 Some f m ms by (simp add: walk_component_def Let_def)
        from follow_link_refs [OF assms(1,2) ms(1) this] ms(1) show ?thesis
          by (auto split: walk_next.splits)
      next
        case False
        then have "w = Go m ?rest (vfs_vnode_release T c (vfs_vnode_borrow m ?s))"
          using w 3 Some f m ms by (simp add: walk_component_def Let_def)
        then show ?thesis using ms release_under_ok [OF assms(1,2)] by simp
      qed
    qed
  qed
qed

lemma walk_refs_gen:
  assumes "T' = T" "s1 = vfs_vnode_borrow c s" "wf s" "ok s c" "walk T' depth stop c cursor s1 = (st, n, name, s')"
  shows "if st = VFS_STATUS_OK then ok s n \<and> s' = vfs_vnode_borrow n s else s' = s"
  using assms
proof (induction T' depth stop c cursor s1 arbitrary: s st n name s' rule: walk.induct)
  case (1 T' depth stop c cursor s1)
  note prems = "1.prems"
  note T = prems(1) and s1 = prems(2) and ok = prems(3,4)
  show ?case
  proof (cases "cursor = []")
    case True
    then show ?thesis using prems by (auto simp: walk.simps)
  next
    case False
    obtain w where w: "walk_component T depth stop c cursor (vfs_vnode_borrow c s) = w" by blast
    note refs = walk_component_refs [OF ok w]
    show ?thesis
    proof (cases w)
      case (Done r)
      then have "r = (st, n, name, s')" using prems(5) w False T s1 by (simp add: walk.simps [of T])
      then show ?thesis using refs Done by simp
    next
      case (Go m rest s2)
      have comp: "walk_component T' depth stop c cursor s1 = Go m rest s2" using w Go T s1 by simp
      have "walk T' depth stop m rest s2 = (st, n, name, s')"
        using prems(5) comp False by (simp add: walk.simps [of T' depth stop c])
      moreover have "ok s m" "s2 = vfs_vnode_borrow m s" using refs Go by auto
      ultimately show ?thesis using "1.IH"(1) [OF False comp T _ ok(1)] by blast
    next
      case (Follow l start rest s2)
      have comp: "walk_component T' depth stop c cursor s1 = Follow l start rest s2" using w Follow T s1 by simp
      obtain st1 m nm s3 where r: "walk T' (depth + 1) False start rest s2 = (st1, m, nm, s3)" by (metis surj_pair)
      let ?b = "vfs_vnode_borrow l (vfs_vnode_borrow c s)"
      have l: "ok s l" "ok s start" "s2 = vfs_vnode_borrow start ?b" using refs Follow by auto
      have wfb: "wf (vfs_vnode_borrow c s)" "wf ?b" using ok l(1) borrow_wf borrow_ok by blast+
      have "if st1 = VFS_STATUS_OK then ok ?b m \<and> s3 = vfs_vnode_borrow m ?b else s3 = ?b"
        using "1.IH"(2) [OF False comp T l(3) wfb(2) _ r] l(2) by (simp add: borrow_ok)
      moreover have "vfs_vnode_release T c (vfs_vnode_release T l ?b) = s"
        using release_ok [of "vfs_vnode_borrow c s" l] release_ok [OF ok] wfb l(1) by (simp add: borrow_ok)
      moreover have "vfs_vnode_release T c (vfs_vnode_release T l (vfs_vnode_borrow m ?b)) = vfs_vnode_borrow m s"
        using release_under_ok [of "vfs_vnode_borrow c s" l m] release_under_ok [OF ok, of m] wfb l(1)
        by (simp add: borrow_ok)
      moreover have "walk T' depth stop c cursor s1 = (st1, if st1 = VFS_STATUS_OK then m else 0, [],
          vfs_vnode_release T' c (vfs_vnode_release T' l s3))"
        using comp False r by (simp add: walk.simps [of T' depth stop c])
      moreover from this have "st = st1" "n = (if st1 = VFS_STATUS_OK then m else 0)"
        "s' = vfs_vnode_release T c (vfs_vnode_release T l s3)" using prems(5) T by auto
      ultimately show ?thesis by (auto simp: borrow_ok split: if_splits)
    qed
  qed
qed

lemma walk_path_refs:
  assumes "wf s" "base = 0 \<or> ok s base" "walk_path T base path stop depth s = (st, n, name, s')"
  shows "if st = VFS_STATUS_OK then ok s n \<and> s' = vfs_vnode_borrow n s else s' = s"
proof (cases "walk_start T base path s")
  case None
  then show ?thesis using assms(3) by (auto simp: walk_path_def)
next
  case (Some r)
  obtain c cursor s1 where r: "r = (c, cursor, s1)" by (metis surj_pair)
  note start = walk_start_refs [OF assms(1,2) Some [unfolded r]]
  have "walk T depth stop c cursor s1 = (st, n, name, s')" using assms(3) Some r by (simp add: walk_path_def)
  then show ?thesis using walk_refs_gen [OF refl, of s1 c s] start assms(1) by blast
qed

lemma lookup_refs:
  assumes "wf s" "vfs_lookup T path s = (st, n, s')"
  shows "if st = VFS_STATUS_OK then ok s n \<and> s' = vfs_vnode_borrow n s else n = 0 \<and> s' = s"
  using assms walk_path_refs [of s 0 path False 0]
  by (auto simp: vfs_lookup_def vfs_lookup_at_def split: prod.splits if_splits)

lemma lookup_parent_refs:
  assumes "wf s" "vfs_lookup_parent T path s = (st, n, name, s')"
  shows "if st = VFS_STATUS_OK then ok s n \<and> s' = vfs_vnode_borrow n s else n = 0 \<and> name = [] \<and> s' = s"
  using assms walk_path_refs [of s 0 path True 0]
  by (auto simp: vfs_lookup_parent_def vfs_lookup_parent_at_def split: prod.splits if_splits)

lemma parent_entry_refs:
  assumes "wf s" "lookup_parent_entry T path s = (st, n, name, s')"
  shows "if st = VFS_STATUS_OK then ok s n \<and> name \<noteq> [] \<and> s' = vfs_vnode_borrow n s else n = 0 \<and> name = [] \<and> s' = s"
proof -
  obtain st1 m nm s1 where p: "vfs_lookup_parent T path s = (st1, m, nm, s1)" by (metis surj_pair)
  note r = lookup_parent_refs [OF assms(1) p]
  show ?thesis using assms(2) r p release_ok [OF assms(1), of m]
    by (auto simp: lookup_parent_entry_def split: if_splits)
qed

lemma child_no_follow_refs:
  assumes "wf s" "lookup_child_no_follow T path s = (st, n, s')"
  shows "if st = VFS_STATUS_OK then ok s n \<and> s' = vfs_vnode_borrow n s else s' = s"
proof -
  obtain st1 m nm s1 where p: "lookup_parent_entry T path s = (st1, m, nm, s1)" by (metis surj_pair)
  note r = parent_entry_refs [OF assms(1) p]
  show ?thesis
  proof (cases "st1 = VFS_STATUS_OK")
    case True
    then have m: "ok s m" "s1 = vfs_vnode_borrow m s" using r by auto
    show ?thesis
    proof (cases "vop T op_lookup m s")
      case None
      then show ?thesis using assms(2) True p m release_ok [OF assms(1) m(1)] by (auto simp: lookup_child_no_follow_def)
    next
      case (Some f)
      obtain st2 n2 s2 where f: "f m nm s1 = (st2, n2, s2)" by (metis surj_pair)
      have "if st2 = VFS_STATUS_OK then ok s n2 \<and> s2 = vfs_vnode_borrow n2 s1 else s2 = s1"
        using lookup_law [of s1 m f nm st2 n2 s2] m assms(1) borrow_wf Some f by (simp add: borrow_ok split: if_splits)
      then show ?thesis
        using assms(2) True p m Some f release_ok [OF assms(1) m(1)] release_under_ok [OF assms(1) m(1)]
        by (auto simp: lookup_child_no_follow_def split: if_splits)
    qed
  qed (use assms(2) r p in \<open>auto simp: lookup_child_no_follow_def\<close>)
qed

lemma owning_mount_refs:
  assumes "wf s" "ok s c" "owning_mount_loop T k c (vfs_vnode_borrow c s) = (st, m, s')"
  shows "s' = s"
  using assms
proof (induction k arbitrary: c s)
  case 0
  then show ?case using release_ok by simp
next
  case (Suc k)
  note rel = release_ok [OF Suc.prems(1,2)]
  show ?case
  proof (cases "vop T op_parent c s")
    case None
    then show ?thesis using Suc.prems(3) rel by (auto split: if_splits)
  next
    case (Some g)
    let ?s = "vfs_vnode_borrow c s"
    obtain st1 p s1 where g: "g c ?s = (st1, p, s1)" by (metis surj_pair)
    have wf1: "wf ?s" using borrow_wf Suc.prems(1,2) by blast
    have law: "if st1 = VFS_STATUS_OK then ok s p \<and> s1 = vfs_vnode_borrow p ?s else s1 = ?s"
      using parent_law [of ?s c g st1 p s1] wf1 Suc.prems(2) Some g by (simp add: borrow_ok split: if_splits)
    have relp: "ok s p \<Longrightarrow> vfs_vnode_release T p (vfs_vnode_borrow p ?s) = ?s"
      using release_ok [OF wf1] by (simp add: borrow_ok)
    show ?thesis
    proof (cases "st1 = VFS_STATUS_OK \<and> p \<noteq> 0 \<and> p \<noteq> c \<and> c \<noteq> root_node s \<and>
        \<not> (vmount (vnodes s c) \<noteq> 0 \<and> c = mroot (mounts s (vmount (vnodes s c))))")
      case True
      then have "owning_mount_loop T k p (vfs_vnode_borrow p s) = (st, m, s')"
        using Suc.prems(3) Some g law release_under_ok [OF Suc.prems(1,2)] by (auto split: if_splits)
      then show ?thesis using Suc.IH [OF Suc.prems(1), of p] True law by simp
    next
      case False
      then show ?thesis using Suc.prems(3) Some g law rel relp by (auto split: if_splits)
    qed
  qed
qed

lemma getcwd_step_refs:
  assumes "wf s" "ok s c" "getcwd_step_to_parent T c acc pos (vfs_vnode_borrow c s) = (st, n, acc', pos', s')"
  shows "if st = VFS_STATUS_OK then ok s n \<and> s' = vfs_vnode_borrow n s else n = c \<and> s' = vfs_vnode_borrow c s"
proof -
  let ?s = "vfs_vnode_borrow c s"
  define m where "m = (if getcwd_is_mount_root c s then vmount (vnodes s c) else 0)"
  define pm where "pm = (if mparent (mounts s m) = 0 then root_mount s else mparent (mounts s m))"
  define vis where "vis = (if m \<noteq> 0 then point (mounts s m) else c)"
  have c0: "c \<noteq> 0" using ok_stable assms(1,2) by blast
  have gm: "getcwd_is_mount_root c ?s = getcwd_is_mount_root c s" by (simp add: getcwd_is_mount_root_def)
  have pt: "m \<noteq> 0 \<Longrightarrow> point (mounts s m) \<noteq> 0 \<Longrightarrow> ok s (point (mounts s m))"
    using point_ok [OF assms(1,2)] by (auto simp: m_def split: if_splits)
  note unf = assms(3) [unfolded getcwd_step_to_parent_def Let_def gm borrow_simps borrow_derived, folded m_def, folded pm_def, folded vis_def]
  show ?thesis
  proof (cases "m \<noteq> 0 \<and> (point (mounts s m) = 0 \<or> pm = 0 \<or> mroot (mounts s pm) = 0 \<or> point (mounts s m) = mroot (mounts s pm))")
    case True
    then show ?thesis using unf c0 pt release_under_ok [OF assms(1,2), of "mroot (mounts s pm)"]
      by (auto split: if_splits)
  next
    case False
    have okv: "ok s vis" using False pt assms(2) by (auto simp: vis_def)
    have wf1: "wf ?s" using borrow_wf assms(1,2) by blast
    show ?thesis
    proof (cases "vop T op_parent vis s")
      case None
      then show ?thesis using unf c0 False by auto
    next
      case (Some g)
      obtain st1 p s1 where g: "g vis ?s = (st1, p, s1)" by (metis surj_pair)
      have law: "if st1 = VFS_STATUS_OK then ok s p \<and> s1 = vfs_vnode_borrow p ?s else s1 = ?s"
        using parent_law [of ?s vis g st1 p s1] wf1 okv Some g by (simp add: borrow_ok split: if_splits)
      have relp: "ok s p \<Longrightarrow> vfs_vnode_release T p (vfs_vnode_borrow p ?s) = ?s"
        using release_ok [OF wf1] by (simp add: borrow_ok)
      show ?thesis
        using unf c0 False Some g law relp release_under_ok [OF assms(1,2), of p]
        by (auto split: if_splits option.splits prod.splits)
    qed
  qed
qed

lemma getcwd_refs:
  assumes "wf s" "ok s c" "getcwd_loop T k len c acc pos (vfs_vnode_borrow c s) = (st, path, s')"
  shows "s' = s"
  using assms
proof (induction k arbitrary: c acc pos s)
  case 0
  then show ?case using release_ok by simp
next
  case (Suc k)
  obtain st1 n acc1 pos1 s1 where r:
    "getcwd_step_to_parent T c acc pos (vfs_vnode_borrow c s) = (st1, n, acc1, pos1, s1)"
    by (metis prod.exhaust)
  note refs = getcwd_step_refs [OF Suc.prems(1,2) r]
  show ?case
  proof (cases "c = root_node s")
    case True
    then show ?thesis using Suc.prems(3) release_ok [OF Suc.prems(1,2)]
      by (auto simp: Let_def split: if_splits option.splits)
  next
    case False
    show ?thesis
    proof (cases "st1 = VFS_STATUS_OK")
      case True
      then have "getcwd_loop T k len n acc1 pos1 (vfs_vnode_borrow n s) = (st, path, s')"
        using Suc.prems(3) False r refs by simp
      then show ?thesis using Suc.IH [OF Suc.prems(1), of n] True refs by simp
    next
      case bad: False
      then show ?thesis using Suc.prems(3) False r refs release_ok [OF Suc.prems(1,2)] by simp
    qed
  qed
qed

end

end
