(* ===== verification/Initrd_Tree.thy ===== *)
theory Initrd_Tree
  imports Vfs_Lookup
begin

text \<open>
  The invariant of the initrd's tree, and what the VFS operations do when the initrd is the file
  system behind them. \<open>live s n\<close> says that \<open>n\<close> is an inode in use; \<open>fs_wf\<close> that the tree is
  consistent: parents and children agree, a hard link's target is in use, link counts cover the
  names, and what the process and the mounts refer to is in use.
\<close>

section \<open>Invariant\<close>

definition live :: "fs \<Rightarrow> nat \<Rightarrow> bool" where
  "live s n \<longleftrightarrow> n \<noteq> 0 \<and> vops (vnodes s n) = INITRD_OPS \<and> n \<notin> set (freed s)"

definition aliases :: "fs \<Rightarrow> nat \<Rightarrow> nat set" where
  "aliases s n = {a. live s a \<and> hard_target (inodes s a) = n}"

text \<open>A directory that no name leads to any more is empty.\<close>

definition node_wf :: "fs \<Rightarrow> nat \<Rightarrow> bool" where
  "node_wf s n \<longleftrightarrow>
     n \<le> alloc_no s \<and> stable s n \<and> distinct (children (inodes s n)) \<and>
     (\<forall>c\<in>set (children (inodes s n)). live s c \<and> iparent (inodes s c) = n) \<and>
     (children (inodes s n) \<noteq> [] \<longrightarrow>
        vtype (vnodes s n) = VFS_NODE_DIR \<and> 0 < link_count (vnodes s n) \<and> hard_target (inodes s n) = 0) \<and>
     (iparent (inodes s n) \<noteq> 0 \<longrightarrow>
        live s (iparent (inodes s n)) \<and> n \<in> set (children (inodes s (iparent (inodes s n))))) \<and>
     (hard_target (inodes s n) \<noteq> 0 \<longrightarrow>
        live s (hard_target (inodes s n)) \<and> hard_target (inodes s (hard_target (inodes s n))) = 0 \<and>
        vtype (vnodes s n) = VFS_NODE_FILE \<and> vtype (vnodes s (hard_target (inodes s n))) = VFS_NODE_FILE) \<and>
     (hard_target (inodes s n) = 0 \<longrightarrow>
        (if iparent (inodes s n) \<noteq> 0 then 1 else 0) + card (aliases s n) \<le> link_count (vnodes s n))"

lemma node_wfD:
  assumes "node_wf s n"
  shows "n \<le> alloc_no s" "stable s n" "distinct (children (inodes s n))"
    "\<forall>c\<in>set (children (inodes s n)). live s c \<and> iparent (inodes s c) = n"
    "children (inodes s n) \<noteq> [] \<longrightarrow>
        vtype (vnodes s n) = VFS_NODE_DIR \<and> 0 < link_count (vnodes s n) \<and> hard_target (inodes s n) = 0"
    "iparent (inodes s n) \<noteq> 0 \<longrightarrow>
        live s (iparent (inodes s n)) \<and> n \<in> set (children (inodes s (iparent (inodes s n))))"
    "hard_target (inodes s n) \<noteq> 0 \<longrightarrow>
        live s (hard_target (inodes s n)) \<and> hard_target (inodes s (hard_target (inodes s n))) = 0 \<and>
        vtype (vnodes s n) = VFS_NODE_FILE \<and> vtype (vnodes s (hard_target (inodes s n))) = VFS_NODE_FILE"
    "hard_target (inodes s n) = 0 \<longrightarrow>
        (if iparent (inodes s n) \<noteq> 0 then 1 else 0) + card (aliases s n) \<le> link_count (vnodes s n)"
  using assms unfolding node_wf_def by blast+

text \<open>What refers to a node from outside the tree: the working directory, the root, mounts, open files.\<close>

definition mounted :: "fs \<Rightarrow> nat set" where
  "mounted s = {vmount (vnodes s k) | k. live s k \<and> vmount (vnodes s k) \<noteq> 0}"

definition held :: "fs \<Rightarrow> nat \<Rightarrow> bool" where
  "held s n \<longleftrightarrow> n \<noteq> 0 \<and>
     (n = cwd s \<or> (\<not> no_root s \<and> n = root_node s) \<or>
      (\<exists>m\<in>mounted s. n = mroot (mounts s m) \<or> n = point (mounts s m)) \<or>
      (\<exists>f. 0 < frefcount (files s f) \<and> f \<notin> set (freed_files s) \<and> n = fvnode (files s f)))"

definition fs_wf :: "fs \<Rightarrow> bool" where
  "fs_wf s \<longleftrightarrow>
     (\<forall>n. live s n \<longrightarrow> node_wf s n) \<and> (\<forall>n. held s n \<longrightarrow> live s n \<and> 0 < refcount (vnodes s n) \<and> hard_target (inodes s n) = 0) \<and>
     (\<forall>n\<in>set (freed s). n \<le> alloc_no s)"

lemma borrow_live [simp]: "live (vfs_vnode_borrow n s) m = live s m"
  by (simp add: live_def)

lemma borrow_aliases [simp]: "aliases (vfs_vnode_borrow n s) m = aliases s m"
  by (simp add: aliases_def)

lemma borrow_held [simp]: "held (vfs_vnode_borrow n s) m = held s m"
  by (simp add: held_def mounted_def)

lemma borrow_node_wf: "node_wf s m \<Longrightarrow> node_wf (vfs_vnode_borrow n s) m"
  by (simp add: node_wf_def borrow_stable)

lemma borrow_fs_wf: "fs_wf s \<Longrightarrow> fs_wf (vfs_vnode_borrow n s)"
  by (auto simp: fs_wf_def intro: borrow_node_wf)

lemma initrd_vop [simp]:
  "live s n \<Longrightarrow> vop initrd_tables sel n s = sel initrd_vnode_ops"
  by (simp add: vop_def live_def initrd_tables_def)

lemma initrd_ops_simps [simp]:
  "op_lookup initrd_vnode_ops = Some initrd_lookup" "op_parent initrd_vnode_ops = Some initrd_parent"
  "op_name initrd_vnode_ops = Some initrd_name" "op_open initrd_vnode_ops = Some initrd_open"
  "op_create_file initrd_vnode_ops = Some initrd_create_file"
  "op_create_dir initrd_vnode_ops = Some initrd_create_dir"
  "op_unlink initrd_vnode_ops = Some initrd_delete_file" "op_rmdir initrd_vnode_ops = Some initrd_delete_dir"
  "op_link initrd_vnode_ops = Some initrd_link" "op_symlink initrd_vnode_ops = Some initrd_symlink"
  "op_readlink initrd_vnode_ops = Some initrd_readlink" "op_free initrd_vnode_ops = Some initrd_free"
  "op_stat initrd_vnode_ops = Some initrd_stat"
  by (simp_all add: initrd_vnode_ops_def)

lemma wf_held: "fs_wf s \<Longrightarrow> held s n \<Longrightarrow> live s n \<and> 0 < refcount (vnodes s n) \<and> hard_target (inodes s n) = 0"
  by (simp add: fs_wf_def)

lemma live_nonzero: "live s n \<Longrightarrow> n \<noteq> 0"
  by (simp add: live_def)

lemma wf_node: "fs_wf s \<Longrightarrow> live s n \<Longrightarrow> node_wf s n"
  by (simp add: fs_wf_def)

lemma find_child_mem: "find_child s d name = Some c \<Longrightarrow> c \<in> set (children (inodes s d)) \<and> iname (inodes s c) = name"
  by (auto simp: find_child_def find_Some_iff)

lemma initrd_lookup_law:
  assumes "fs_wf s" "live s d" "initrd_lookup d name s = (st, n, s')"
  shows "if st = VFS_STATUS_OK then live s n \<and> s' = vfs_vnode_borrow n s else s' = s"
proof (cases "find_child s d name")
  case None
  then show ?thesis using assms(3) by (auto simp: initrd_lookup_def split: if_splits)
next
  case (Some c)
  have "live s c" using find_child_mem [OF Some] wf_node [OF assms(1,2)] by (auto simp: node_wf_def)
  moreover have "hard_target (inodes s c) \<noteq> 0 \<Longrightarrow> live s (hard_target (inodes s c))"
    using wf_node [OF assms(1) calculation] by (simp add: node_wf_def)
  ultimately show ?thesis using assms(3) Some by (auto simp: initrd_lookup_def Let_def split: if_splits)
qed

lemma initrd_parent_law:
  assumes "fs_wf s" "live s d" "initrd_parent d s = (st, n, s')"
  shows "if st = VFS_STATUS_OK then live s n \<and> s' = vfs_vnode_borrow n s else s' = s"
  using assms(2,3) wf_node [OF assms(1,2)] by (auto simp: initrd_parent_def Let_def node_wf_def split: if_splits)

text \<open>The initrd provides what path resolution relies on.\<close>

interpretation rd: vnode_tables initrd_tables fs_wf live
proof
  fix s n m d f g name st s'
  show "n \<noteq> 0 \<and> stable s n" if "fs_wf s" "live s n"
    using wf_node [OF that] that(2) by (simp add: node_wf_def live_def)
  show "fs_wf (vfs_vnode_borrow n s)" if "fs_wf s" "live s n" using that borrow_fs_wf by blast
  show "live (vfs_vnode_borrow n s) m = live s m" by simp
  show "live s (root_node s)" if "fs_wf s" "\<not> no_root s" using wf_held [OF that(1), of "root_node s"] that(2)
    by (simp add: held_def no_root_def)
  show "live s (proc_get_cwd s)" if "fs_wf s" "proc_get_cwd s \<noteq> 0"
    using wf_held [OF that(1), of "cwd s"] that(2) by (simp add: held_def proc_get_cwd_def split: if_splits)
  show "live s (mroot (mounts s (vmount (vnodes s n))))"
    if "fs_wf s" "live s n" "vmount (vnodes s n) \<noteq> 0" "mroot (mounts s (vmount (vnodes s n))) \<noteq> 0"
    using wf_held [OF that(1), of "mroot (mounts s (vmount (vnodes s n)))"] that(2-4)
    unfolding held_def mounted_def by blast
  show "live s (point (mounts s (vmount (vnodes s n))))"
    if "fs_wf s" "live s n" "vmount (vnodes s n) \<noteq> 0" "point (mounts s (vmount (vnodes s n))) \<noteq> 0"
    using wf_held [OF that(1), of "point (mounts s (vmount (vnodes s n)))"] that(2-4)
    unfolding held_def mounted_def by blast
  show "if st = VFS_STATUS_OK then live s n \<and> s' = vfs_vnode_borrow n s else s' = s"
    if "fs_wf s" "live s d" "vop initrd_tables op_lookup d s = Some f" "f d name s = (st, n, s')"
    using that initrd_lookup_law [of s d name st n s'] by simp
  show "if st = VFS_STATUS_OK then live s n \<and> s' = vfs_vnode_borrow n s else s' = s"
    if "fs_wf s" "live s d" "vop initrd_tables op_parent d s = Some g" "g d s = (st, n, s')"
    using that initrd_parent_law [of s d st n s'] by simp
qed

text \<open>C6. Path resolution neither leaks nor drops a reference: whatever the path (through \<open>..\<close>,
  mounts and symbolic links, and on every error), the state after \<open>vfs_lookup\<close> is the state before
  it with one reference more to the node returned, which is in use, and exactly the state before it
  when the lookup fails.\<close>

theorem vfs_lookup_balanced:
  assumes "fs_wf s" "vfs_lookup initrd_tables path s = (st, n, s')"
  shows "if st = VFS_STATUS_OK then live s n \<and> s' = vfs_vnode_borrow n s else n = 0 \<and> s' = s"
  by (rule rd.lookup_refs [OF assms])

text \<open>C26. \<open>vfs_getcwd\<close> leaves every reference count as it was, on success and on every error.\<close>

theorem vfs_getcwd_balanced:
  assumes "fs_wf s" "c = 0 \<or> live s c" "vfs_getcwd initrd_tables c len s = (st, path, s')"
  shows "s' = s"
proof (cases "len = 0 \<or> no_root s")
  case False
  let ?c = "if c = 0 then root_node s else c"
  have "live s ?c" using assms(1,2) False rd.root_ok by auto
  moreover have "getcwd_loop initrd_tables 1024 len ?c [] (len - 1) (vfs_vnode_borrow ?c s) = (st, path, s')"
    using assms(3) False by (simp add: vfs_getcwd_def Let_def split: if_splits)
  ultimately show ?thesis using rd.getcwd_refs [OF assms(1)] by blast
qed (use assms(3) in \<open>auto simp: vfs_getcwd_def split: if_splits\<close>)

section \<open>Changing the tree\<close>

lemma live_le: "fs_wf s \<Longrightarrow> live s n \<Longrightarrow> n \<le> alloc_no s"
  using wf_node by (auto simp: node_wf_def)

lemma aliases_finite: "fs_wf s \<Longrightarrow> finite (aliases s n)"
  by (rule finite_subset [of _ "{..alloc_no s}"]) (auto simp: aliases_def dest: live_le)

lemma aliases_live: "fs_wf s \<Longrightarrow> a \<in> aliases s n \<Longrightarrow> n \<noteq> 0 \<Longrightarrow> live s n"
  using wf_node [of s a] by (auto simp: aliases_def node_wf_def)

text \<open>The state outside the tree is the same.\<close>

definition same_outside :: "fs \<Rightarrow> fs \<Rightarrow> bool" where
  "same_outside s s' \<longleftrightarrow>
     mounts s' = mounts s \<and> files s' = files s \<and> root_mount s' = root_mount s \<and> cwd s' = cwd s \<and>
     freed_files s' = freed_files s \<and> alloc_no s \<le> alloc_no s'"

definition same_vnode :: "vnode \<Rightarrow> vnode \<Rightarrow> bool" where
  "same_vnode v v' \<longleftrightarrow>
     vops v' = vops v \<and> vtype v' = vtype v \<and> refcount v' = refcount v \<and> vmount v' = vmount v"

lemma attach_wf:
  assumes wf: "fs_wf s" and d: "live s d" "vtype (vnodes s d) = VFS_NODE_DIR" "0 < link_count (vnodes s d)"
      "hard_target (inodes s d) = 0"
    and n: "alloc_no s < n" "n \<le> alloc_no s'" and out: "same_outside s s'" "freed s' = freed s"
    and V: "\<And>m. m \<noteq> n \<Longrightarrow> same_vnode (vnodes s m) (vnodes s' m) \<and>
      link_count (vnodes s' m) = link_count (vnodes s m) + (if m = h \<and> h \<noteq> 0 then 1 else 0)"
    and I: "\<And>m. m \<noteq> n \<Longrightarrow> iparent (inodes s' m) = iparent (inodes s m) \<and>
      hard_target (inodes s' m) = hard_target (inodes s m) \<and>
      children (inodes s' m) = children (inodes s m) @ (if m = d then [n] else [])"
    and Vn: "vops (vnodes s' n) = INITRD_OPS" "link_count (vnodes s' n) = 1" "vmount (vnodes s' n) = 0"
    and In: "children (inodes s' n) = []" "iparent (inodes s' n) = d" "hard_target (inodes s' n) = h"
    and h: "h \<noteq> 0 \<Longrightarrow> live s h \<and> hard_target (inodes s h) = 0 \<and> vtype (vnodes s h) = VFS_NODE_FILE \<and>
      vtype (vnodes s' n) = VFS_NODE_FILE"
  shows "fs_wf s'"
proof -
  have n0: "n \<notin> set (freed s)" "\<not> live s n" "n \<noteq> d" "n \<noteq> h"
    using wf n(1) live_le [OF wf] d(1) h by (fastforce simp: fs_wf_def)+
  have live: "live s' m \<longleftrightarrow> live s m \<or> m = n" for m
    using V [of m] Vn(1) n n0 out(2) by (cases "m = n") (auto simp: live_def same_vnode_def)
  have al: "aliases s' m = aliases s m \<union> (if m = h then {n} else {})" for m
    using I In(3) live n0(2) by (auto simp: aliases_def) metis+
  have held: "held s' m \<longleftrightarrow> held s m" for m
  proof -
    have "x = vmount (vnodes s' k) \<and> live s' k \<and> vmount (vnodes s' k) \<noteq> 0 \<longleftrightarrow>
        x = vmount (vnodes s k) \<and> live s k \<and> vmount (vnodes s k) \<noteq> 0" for x k
      using V [of k] live [of k] Vn(3) n0(2) by (cases "k = n") (auto simp: same_vnode_def)
    then have "mounted s' = mounted s" unfolding mounted_def by simp
    then show ?thesis using out(1) by (simp add: held_def same_outside_def no_root_def root_node_def)
  qed
  have "node_wf s' m" if "live s m" for m
  proof -
    have w: "node_wf s m" using wf_node [OF wf that] .
    have mn: "m \<noteq> n" using that n0 by blast
    have sub: "c \<in> set (children (inodes s m)) \<Longrightarrow> c \<noteq> n" for c using w n0(2) by (auto simp: node_wf_def)
    have par: "iparent (inodes s m) \<noteq> n" "hard_target (inodes s m) \<noteq> n"
      using w n0(2) n(1) unfolding node_wf_def by (metis not_less0)+
    have "m \<noteq> 0" using live_nonzero [OF that] .
    then have card: "card (aliases s' m) \<le> card (aliases s m) + (if m = h \<and> h \<noteq> 0 then 1 else 0)"
      by (simp add: al card_insert_le_m1 aliases_finite [OF wf] card_insert_if)
    show ?thesis
      unfolding node_wf_def
    proof (intro conjI)
      show "m \<le> alloc_no s'" using w out(1) by (simp add: node_wf_def same_outside_def)
      show "stable s' m" using w V [OF mn] by (auto simp: node_wf_def stable_def same_vnode_def)
      show "distinct (children (inodes s' m))" using w I [OF mn] sub by (auto simp: node_wf_def)
      show "\<forall>c\<in>set (children (inodes s' m)). live s' c \<and> iparent (inodes s' c) = m"
        using node_wfD(4) [OF w] I [OF mn] I [OF sub] In(2) live by (auto split: if_splits)
      show "children (inodes s' m) \<noteq> [] \<longrightarrow> vtype (vnodes s' m) = VFS_NODE_DIR \<and>
          0 < link_count (vnodes s' m) \<and> hard_target (inodes s' m) = 0"
        using node_wfD(5) [OF w] I [OF mn] V [OF mn] d by (auto simp: same_vnode_def split: if_splits)
      show "iparent (inodes s' m) \<noteq> 0 \<longrightarrow> live s' (iparent (inodes s' m)) \<and>
          m \<in> set (children (inodes s' (iparent (inodes s' m))))"
        using node_wfD(6) [OF w] I [OF mn] I [OF par(1)] live by auto
      show "hard_target (inodes s' m) \<noteq> 0 \<longrightarrow> live s' (hard_target (inodes s' m)) \<and>
          hard_target (inodes s' (hard_target (inodes s' m))) = 0 \<and> vtype (vnodes s' m) = VFS_NODE_FILE \<and>
          vtype (vnodes s' (hard_target (inodes s' m))) = VFS_NODE_FILE"
        using node_wfD(7) [OF w] I [OF mn] V [OF mn] I [OF par(2)] V [OF par(2)] live by (auto simp: same_vnode_def)
      show "hard_target (inodes s' m) = 0 \<longrightarrow>
          (if iparent (inodes s' m) \<noteq> 0 then 1 else 0) + card (aliases s' m) \<le> link_count (vnodes s' m)"
        using node_wfD(8) [OF w] I [OF mn] V [OF mn] card by auto
    qed
  qed
  moreover have "node_wf s' n"
  proof -
    have "aliases s' n = {}" using al [of n] n0 n(1) aliases_live [OF wf] by auto
    then show ?thesis using Vn In n h d I [of d] I [of h] V [of h] n0 live out(1)
      by (auto simp: node_wf_def stable_def same_vnode_def)
  qed
  moreover have "live s' m \<and> 0 < refcount (vnodes s' m) \<and> hard_target (inodes s' m) = 0" if "held s m" for m
    using wf_held [OF wf that] V [of m] I [of m] n0 live by (cases "m = n") (auto simp: same_vnode_def)
  ultimately show ?thesis using live held out wf by (auto simp: fs_wf_def same_outside_def)
qed

lemma detach_wf:
  assumes wf: "fs_wf s" and d: "live s d" and c: "c \<in> set (children (inodes s d))" "children (inodes s c) = []"
    and t: "t = (if hard_target (inodes s c) = 0 then c else hard_target (inodes s c))" "0 < refcount (vnodes s t)"
    and out: "same_outside s s'" "freed s' = (if hard_target (inodes s c) = 0 then freed s else c # freed s)"
    and V: "\<And>m. same_vnode (vnodes s m) (vnodes s' m) \<and>
      link_count (vnodes s' m) = link_count (vnodes s m) - (if m = t then 1 else 0)"
    and I: "\<And>m. iparent (inodes s' m) = (if m = c then 0 else iparent (inodes s m)) \<and>
      hard_target (inodes s' m) = hard_target (inodes s m) \<and>
      children (inodes s' m) = (if m = d then remove1 c (children (inodes s d)) else children (inodes s m))"
  shows "fs_wf s'"
proof -
  let ?al = "hard_target (inodes s c) \<noteq> 0"
  have wd: "node_wf s d" using wf_node [OF wf d] .
  then have lc: "live s c" "iparent (inodes s c) = d" using c(1) by (auto simp: node_wf_def)
  have wc: "node_wf s c" using wf_node [OF wf lc(1)] .
  have d0: "d \<noteq> 0" "c \<noteq> d" using d c by (auto simp: live_def)
  have live: "live s' m \<longleftrightarrow> live s m \<and> \<not> (m = c \<and> ?al)" for m
    using V [of m] out(2) by (auto simp: live_def same_vnode_def)
  have al: "aliases s' m = aliases s m - (if ?al then {c} else {})" for m
    using I live by (auto simp: aliases_def)
  have lt: "live s t" "hard_target (inodes s t) = 0" "children (inodes s t) = []"
  proof (atomize (full), cases ?al)
    case True
    then have "live s t" "hard_target (inodes s t) = 0" "vtype (vnodes s t) = VFS_NODE_FILE"
      using wc t(1) by (simp_all add: node_wf_def)
    moreover from this(1) have "node_wf s t" using wf_node [OF wf] by blast
    ultimately show "live s t \<and> hard_target (inodes s t) = 0 \<and> children (inodes s t) = []"
      by (auto simp: node_wf_def)
  qed (use lc t(1) c(2) in simp)
  have heldD: "held s m" if "held s' m" for m
  proof -
    have "mounted s' \<subseteq> mounted s" using V live by (auto simp: mounted_def same_vnode_def)
    then show ?thesis using that out(1) unfolding held_def same_outside_def no_root_def root_node_def by auto
  qed
  have "node_wf s' m" if "live s' m" for m
  proof -
    have lm: "live s m" using that live by blast
    have w: "node_wf s m" using wf_node [OF wf lm] .
    have mt: "m = t \<Longrightarrow> 0 < link_count (vnodes s m)"
      using node_wfD(8) [OF wf_node [OF wf lt(1)]] lt(2) lc t(1) d0 card_gt_0_iff [of "aliases s t"]
        aliases_finite [OF wf, of t]
      by (auto simp: aliases_def split: if_splits)
    have card: "card (aliases s' m) + (if m = t \<and> ?al then 1 else 0) \<le> card (aliases s m)"
    proof (cases "m = t \<and> ?al")
      case True
      then have "c \<in> aliases s m" using t(1) lc(1) by (simp add: aliases_def)
      then have "Suc (card (aliases s m - {c})) = card (aliases s m)"
        using aliases_finite [OF wf, of m] by (simp only: card_Suc_Diff1)
      then show ?thesis using True by (simp add: al)
    next
      case False
      then show ?thesis using al [of m] aliases_finite [OF wf, of m] by (simp add: card_mono)
    qed
    show ?thesis
      unfolding node_wf_def
    proof (intro conjI)
      show "m \<le> alloc_no s'" using w out(1) by (simp add: node_wf_def same_outside_def)
      show "stable s' m" using w V [of m] t(2) by (auto simp: node_wf_def stable_def same_vnode_def)
      show "distinct (children (inodes s' m))" using w wd I [of m] by (auto simp: node_wf_def)
      show "\<forall>x\<in>set (children (inodes s' m)). live s' x \<and> iparent (inodes s' x) = m"
        using node_wfD(4) [OF w] node_wfD(3,4) [OF wd] lc(2) I live by (auto split: if_splits)
      show "children (inodes s' m) \<noteq> [] \<longrightarrow> vtype (vnodes s' m) = VFS_NODE_DIR \<and>
          0 < link_count (vnodes s' m) \<and> hard_target (inodes s' m) = 0"
        using node_wfD(5) [OF w] node_wfD(5) [OF wd] I [of m] V [of m] lt(3) c by (auto simp: same_vnode_def split: if_splits)
      show "iparent (inodes s' m) \<noteq> 0 \<longrightarrow> live s' (iparent (inodes s' m)) \<and>
          m \<in> set (children (inodes s' (iparent (inodes s' m))))"
      proof (cases "m = c \<or> iparent (inodes s m) = 0")
        case False
        define p where "p = iparent (inodes s m)"
        have ip: "iparent (inodes s' m) = p" using False I by (simp add: p_def)
        have p: "live s p" "m \<in> set (children (inodes s p))" using node_wfD(6) [OF w] False by (auto simp: p_def)
        then have "p \<noteq> c" using c(2) by auto
        then have "live s' p" "m \<in> set (children (inodes s' p))" using p live I [of p] False by auto
        then show ?thesis by (simp add: ip)
      qed (use I [of m] in auto)
      show "hard_target (inodes s' m) \<noteq> 0 \<longrightarrow> live s' (hard_target (inodes s' m)) \<and>
          hard_target (inodes s' (hard_target (inodes s' m))) = 0 \<and> vtype (vnodes s' m) = VFS_NODE_FILE \<and>
          vtype (vnodes s' (hard_target (inodes s' m))) = VFS_NODE_FILE"
        using node_wfD(7) [OF w] I [of m] I [of "hard_target (inodes s m)"] V [of m] V [of "hard_target (inodes s m)"] live
        by (auto simp: same_vnode_def)
      show "hard_target (inodes s' m) = 0 \<longrightarrow>
          (if iparent (inodes s' m) \<noteq> 0 then 1 else 0) + card (aliases s' m) \<le> link_count (vnodes s' m)"
      proof
        assume h0: "hard_target (inodes s' m) = 0"
        have old: "(if iparent (inodes s m) \<noteq> 0 then 1 else 0) + card (aliases s m) \<le> link_count (vnodes s m)"
          using w h0 I [of m] by (simp add: node_wf_def)
        have lk: "link_count (vnodes s' m) = link_count (vnodes s m) - (if m = t then 1 else 0)" using V by blast
        have ip: "iparent (inodes s' m) = (if m = c then 0 else iparent (inodes s m))" using I by blast
        show "(if iparent (inodes s' m) \<noteq> 0 then 1 else 0) + card (aliases s' m) \<le> link_count (vnodes s' m)"
        proof (cases "m = t")
          case True
          have "m = c \<longleftrightarrow> \<not> ?al" using True t(1) lt(2) by auto
          then show ?thesis using True old lk ip card lc(2) d0(1) by (cases ?al) simp_all
        next
          case False
          then have "m \<noteq> c" using t(1) h0 I [of m] by (auto split: if_splits)
          then show ?thesis using False old lk ip card by simp
        qed
      qed
    qed
  qed
  moreover have "live s' m \<and> 0 < refcount (vnodes s' m) \<and> hard_target (inodes s' m) = 0" if "held s' m" for m
    using wf_held [OF wf heldD [OF that]] V [of m] I [of m] live by (auto simp: same_vnode_def)
  moreover have "\<forall>m\<in>set (freed s'). m \<le> alloc_no s'"
    using wf out live_le [OF wf lc(1)] by (auto simp: fs_wf_def same_outside_def split: if_splits)
  ultimately show ?thesis by (auto simp: fs_wf_def)
qed

lemma release_fields:
  assumes "live s n" "0 < refcount (vnodes s n)"
  defines "s' \<equiv> vfs_vnode_release initrd_tables n s"
  shows "inodes s' = inodes s" "same_outside s s'" "alloc_no s' = alloc_no s"
    "freed s' = (if refcount (vnodes s n) = 1 \<and> link_count (vnodes s n) = 0 then n # freed s else freed s)"
    "vnodes s' = (vnodes s)(n := (vnodes s n)\<lparr>refcount := refcount (vnodes s n) - 1\<rparr>)"
  using assms by (auto simp: vfs_vnode_release_def Let_def upd_vnode_def vop_def live_def initrd_tables_def
      initrd_free_def same_outside_def)

lemma release_wf:
  assumes wf: "fs_wf s" and n: "live s n" "0 < refcount (vnodes s n)" "hard_target (inodes s n) = 0"
    and h: "held s n \<Longrightarrow> 2 \<le> refcount (vnodes s n)"
  shows "fs_wf (vfs_vnode_release initrd_tables n s)"
proof -
  let ?s = "vfs_vnode_release initrd_tables n s" and ?free = "refcount (vnodes s n) = 1 \<and> link_count (vnodes s n) = 0"
  note f = release_fields [OF n(1,2)]
  have wn: "node_wf s n" using wf_node [OF wf n(1)] .
  have none: "iparent (inodes s n) = 0" "aliases s n = {}" "children (inodes s n) = []" if ?free
    using wn n(3) that aliases_finite [OF wf, of n] by (auto simp: node_wf_def split: if_splits)
  have live: "live ?s m \<longleftrightarrow> live s m \<and> \<not> (m = n \<and> ?free)" for m
    by (auto simp: live_def f)
  have heldD: "held s m" if "held ?s m" for m
  proof -
    have "mounted ?s \<subseteq> mounted s" using live by (auto simp: mounted_def f)
    then show ?thesis using that f(2) unfolding held_def same_outside_def no_root_def root_node_def by auto
  qed
  have "node_wf ?s m" if "live ?s m" for m
  proof -
    have w: "node_wf s m" using wf_node [OF wf] that live by blast
    have al: "card (aliases ?s m) \<le> card (aliases s m)"
      using live aliases_finite [OF wf, of m] by (intro card_mono) (auto simp: aliases_def f)
    have lm: "live s m" "m \<noteq> 0" using that live live_nonzero by blast+
    have away: "?free \<longrightarrow> iparent (inodes s m) \<noteq> n \<and> hard_target (inodes s m) \<noteq> n \<and> n \<notin> set (children (inodes s m))"
    proof (intro impI conjI)
      assume free: ?free
      show "iparent (inodes s m) \<noteq> n" using none(3) [OF free] w live_nonzero [OF n(1)] by (auto simp: node_wf_def)
      show "hard_target (inodes s m) \<noteq> n" using none(2) [OF free] lm(1) by (auto simp: aliases_def)
      show "n \<notin> set (children (inodes s m))" using none(1) [OF free] w lm(2) by (auto simp: node_wf_def)
    qed
    show ?thesis
      unfolding node_wf_def f
    proof (intro conjI)
      show "stable ?s m" using w that live by (auto simp: node_wf_def stable_def f)
      show "\<forall>x\<in>set (children (inodes s m)). live ?s x \<and> iparent (inodes s x) = m"
        using node_wfD(4) [OF w] away live by auto
      show "iparent (inodes s m) \<noteq> 0 \<longrightarrow> live ?s (iparent (inodes s m)) \<and>
          m \<in> set (children (inodes s (iparent (inodes s m))))"
        using node_wfD(6) [OF w] away live by auto
      show "hard_target (inodes s m) \<noteq> 0 \<longrightarrow> live ?s (hard_target (inodes s m)) \<and>
          hard_target (inodes s (hard_target (inodes s m))) = 0 \<and>
          vtype (((vnodes s)(n := (vnodes s n)\<lparr>refcount := refcount (vnodes s n) - 1\<rparr>)) m) = VFS_NODE_FILE \<and>
          vtype (((vnodes s)(n := (vnodes s n)\<lparr>refcount := refcount (vnodes s n) - 1\<rparr>)) (hard_target (inodes s m))) = VFS_NODE_FILE"
        using node_wfD(7) [OF w] away live by auto
    qed (use node_wfD [OF w] al in auto)
  qed
  moreover have "live ?s m \<and> 0 < refcount (vnodes ?s m) \<and> hard_target (inodes ?s m) = 0" if "held ?s m" for m
  proof -
    have hm: "held s m" using heldD [OF that] .
    note wm = wf_held [OF wf hm]
    have "m = n \<Longrightarrow> 2 \<le> refcount (vnodes s n)" using h hm by blast
    then show ?thesis using wm live [of m] by (cases "m = n") (simp_all add: f)
  qed
  moreover have "\<forall>m\<in>set (freed ?s). m \<le> alloc_no ?s"
    using wf live_le [OF wf n(1)] by (auto simp: fs_wf_def f)
  ultimately show ?thesis by (auto simp: fs_wf_def)
qed

end
