(* ===== verification/Initrd_Ops.thy ===== *)
theory Initrd_Ops
  imports Initrd_Tree
begin

text \<open>
  What the VFS operations on directory entries do to the initrd's tree: each keeps \<open>fs_wf\<close>, a created
  entry is found by the next lookup, a removed one is not, and everything else is as before.
\<close>

section \<open>Adding an entry\<close>

text \<open>The state after the new inode \<open>n\<close> with hard link target \<open>h\<close> has been appended to \<open>d\<close>.\<close>

lemma upd_simps [simp]:
  "vnodes (upd_vnode n f s) = (vnodes s)(n := f (vnodes s n))" "inodes (upd_vnode n f s) = inodes s"
  "mounts (upd_vnode n f s) = mounts s" "files (upd_vnode n f s) = files s"
  "root_mount (upd_vnode n f s) = root_mount s" "cwd (upd_vnode n f s) = cwd s"
  "freed (upd_vnode n f s) = freed s" "freed_files (upd_vnode n f s) = freed_files s"
  "alloc_no (upd_vnode n f s) = alloc_no s" "clock (upd_vnode n f s) = clock s"
  "alloc_fails (upd_vnode n f s) = alloc_fails s"
  "inodes (upd_inode n g s) = (inodes s)(n := g (inodes s n))" "vnodes (upd_inode n g s) = vnodes s"
  "mounts (upd_inode n g s) = mounts s" "files (upd_inode n g s) = files s"
  "root_mount (upd_inode n g s) = root_mount s" "cwd (upd_inode n g s) = cwd s"
  "freed (upd_inode n g s) = freed s" "freed_files (upd_inode n g s) = freed_files s"
  "alloc_no (upd_inode n g s) = alloc_no s" "clock (upd_inode n g s) = clock s"
  "alloc_fails (upd_inode n g s) = alloc_fails s"
  by (simp_all add: upd_vnode_def upd_inode_def)

lemma sync_simps [simp]:
  "inodes (sync_vnode_timestamps n s) = inodes s" "mounts (sync_vnode_timestamps n s) = mounts s"
  "files (sync_vnode_timestamps n s) = files s" "root_mount (sync_vnode_timestamps n s) = root_mount s"
  "cwd (sync_vnode_timestamps n s) = cwd s" "freed (sync_vnode_timestamps n s) = freed s"
  "freed_files (sync_vnode_timestamps n s) = freed_files s" "alloc_no (sync_vnode_timestamps n s) = alloc_no s"
  "same_vnode (vnodes s m) (vnodes (sync_vnode_timestamps n s) m)"
  "link_count (vnodes (sync_vnode_timestamps n s) m) = link_count (vnodes s m)"
  "vtype (vnodes (sync_vnode_timestamps n s) m) = vtype (vnodes s m)"
  "vops (vnodes (sync_vnode_timestamps n s) m) = vops (vnodes s m)"
  "refcount (vnodes (sync_vnode_timestamps n s) m) = refcount (vnodes s m)"
  "vmount (vnodes (sync_vnode_timestamps n s) m) = vmount (vnodes s m)"
  by (auto simp: sync_vnode_timestamps_def same_vnode_def)

lemma same_outside_simps [simp]:
  "same_outside s (sync_vnode_timestamps n s') = same_outside s s'"
  "same_outside s (upd_vnode n f s') = same_outside s s'" "same_outside s (upd_inode n g s') = same_outside s s'"
  by (simp_all add: same_outside_def)

lemma same_outside_trans: "same_outside s s' \<Longrightarrow> same_outside s' s'' \<Longrightarrow> same_outside s s''"
  by (auto simp: same_outside_def)

definition added :: "nat \<Rightarrow> nat \<Rightarrow> string \<Rightarrow> vfs_node_type \<Rightarrow> nat \<Rightarrow> fs \<Rightarrow> fs \<Rightarrow> bool" where
  "added d n name ty h s s' \<longleftrightarrow>
     same_outside s s' \<and> freed s' = freed s \<and> n \<le> alloc_no s' \<and>
     (\<forall>m. m \<noteq> n \<longrightarrow> same_vnode (vnodes s m) (vnodes s' m) \<and>
        link_count (vnodes s' m) = link_count (vnodes s m) + (if m = h \<and> h \<noteq> 0 then 1 else 0)) \<and>
     (\<forall>m. m \<noteq> n \<longrightarrow> iparent (inodes s' m) = iparent (inodes s m) \<and>
        hard_target (inodes s' m) = hard_target (inodes s m) \<and> iname (inodes s' m) = iname (inodes s m) \<and>
        children (inodes s' m) = children (inodes s m) @ (if m = d then [n] else [])) \<and>
     vops (vnodes s' n) = INITRD_OPS \<and> link_count (vnodes s' n) = 1 \<and> vmount (vnodes s' n) = 0 \<and>
     vtype (vnodes s' n) = ty \<and> children (inodes s' n) = [] \<and> iparent (inodes s' n) = d \<and>
     hard_target (inodes s' n) = h \<and> iname (inodes s' n) = name"

lemma added_wf:
  assumes "fs_wf s" "live s d" "vtype (vnodes s d) = VFS_NODE_DIR" "0 < link_count (vnodes s d)"
    "alloc_no s < n" "added d n name ty h s s'"
    "h \<noteq> 0 \<Longrightarrow> live s h \<and> hard_target (inodes s h) = 0 \<and> vtype (vnodes s h) = VFS_NODE_FILE \<and> ty = VFS_NODE_FILE"
  shows "fs_wf s'"
proof (rule attach_wf [OF assms(1-4)])
  show "hard_target (inodes s d) = 0" using node_wfD(7) [OF wf_node [OF assms(1,2)]] assms(3) by auto
qed (use assms(5-7) in \<open>auto simp: added_def\<close>)

lemma new_inode_fields:
  fixes s :: fs and n d :: nat and name :: string and own :: bool and ty :: vfs_node_type
  defines "s' \<equiv> new_inode n name own d ty s"
  shows "same_outside s s'" "freed s' = freed s" "alloc_no s' = alloc_no s" "clock s' = clock s"
    "m \<noteq> n \<Longrightarrow> vnodes s' m = vnodes s m" "m \<noteq> n \<Longrightarrow> inodes s' m = inodes s m"
    "vops (vnodes s' n) = INITRD_OPS" "link_count (vnodes s' n) = 1" "vmount (vnodes s' n) = 0"
    "vtype (vnodes s' n) = ty" "refcount (vnodes s' n) = 0" "children (inodes s' n) = []"
    "iparent (inodes s' n) = d" "hard_target (inodes s' n) = 0" "iname (inodes s' n) = name"
  by (auto simp: s'_def new_inode_def Let_def init_vnode_def same_outside_def sync_vnode_timestamps_def)

lemma append_added:
  assumes "n \<noteq> d" "n \<le> alloc_no s1" "same_outside s s1" "freed s1 = freed s" "vnodes s1 = vnodes s" "inodes s1 = inodes s"
    "\<And>i. children (f i) = children i \<and> iparent (f i) = iparent i \<and> iname (f i) = iname i \<and> hard_target (f i) = hard_target i"
  shows "added d n name ty 0 s (touch_dir d (add_child d n (upd_inode n f (new_inode n name own d ty s1))))"
  using assms new_inode_fields [where s = s1 and n = n and name = name and own = own and d = d and ty = ty]
  by (auto simp: added_def touch_dir_def add_child_def same_vnode_def dest: same_outside_trans)

lemma append_link_added:
  assumes "n \<noteq> d" "n \<noteq> h" "h \<noteq> 0" "n \<le> alloc_no s1" "same_outside s s1" "freed s1 = freed s" "vnodes s1 = vnodes s" "inodes s1 = inodes s"
  shows "added d n name ty h s
    (upd_vnode h (\<lambda>v. v\<lparr>link_count := link_count v + 1\<rparr>)
      (touch_dir d (add_child d n (upd_inode n (\<lambda>i. i\<lparr>hard_target := h\<rparr>) (new_inode n name own d ty s1)))))"
  using assms new_inode_fields [where s = s1 and n = n and name = name and own = own and d = d and ty = ty]
  by (auto simp: added_def touch_dir_def add_child_def same_vnode_def dest: same_outside_trans)

lemma added_cong:
  assumes "added d n name ty h s s'" "same_outside s' s''" "freed s'' = freed s'" "inodes s'' = inodes s'"
    "\<And>m. vops (vnodes s'' m) = vops (vnodes s' m) \<and> vtype (vnodes s'' m) = vtype (vnodes s' m) \<and>
      vmount (vnodes s'' m) = vmount (vnodes s' m) \<and> link_count (vnodes s'' m) = link_count (vnodes s' m)"
    "\<And>m. m \<noteq> n \<Longrightarrow> refcount (vnodes s'' m) = refcount (vnodes s' m)"
  shows "added d n name ty h s s''"
  using assms by (simp add: added_def same_vnode_def same_outside_def)

lemma added_mark: "added d n name ty h s s' \<Longrightarrow> added d n name ty h s (mark_dir_changed x s')"
  by (erule added_cong) (auto simp: mark_dir_changed_def same_outside_def)

lemma added_borrow: "added d n name ty h s s' \<Longrightarrow> added d n name ty h s (vfs_vnode_borrow n s')"
  by (erule added_cong) (auto simp: same_outside_def)


text \<open>A failed operation has at most used up allocations.\<close>

definition only_alloc :: "fs \<Rightarrow> fs \<Rightarrow> bool" where
  "only_alloc s s' \<longleftrightarrow> (\<exists>k\<ge>alloc_no s. s' = s\<lparr>alloc_no := k\<rparr>)"

lemma only_allocE: "only_alloc s s' \<Longrightarrow> (\<And>k. alloc_no s \<le> k \<Longrightarrow> s' = s\<lparr>alloc_no := k\<rparr> \<Longrightarrow> P) \<Longrightarrow> P"
  by (auto simp: only_alloc_def)

lemma only_alloc_refl [simp]: "only_alloc s s" "alloc_no s \<le> k \<Longrightarrow> only_alloc s (s\<lparr>alloc_no := k\<rparr>)"
  by (auto simp: only_alloc_def intro: exI [of _ "alloc_no s"])

lemma only_alloc_wf:
  assumes "only_alloc s s'" "fs_wf s"
  shows "fs_wf s'"
proof -
  obtain k where k: "alloc_no s \<le> k" "s' = s\<lparr>alloc_no := k\<rparr>" using assms(1) by (rule only_allocE)
  have live: "live s' = live s" by (simp add: k fun_eq_iff live_def)
  have al: "aliases s' = aliases s" by (simp add: k fun_eq_iff aliases_def live [unfolded k])
  have held: "held s' = held s"
    by (simp add: k fun_eq_iff held_def mounted_def no_root_def root_node_def live [unfolded k])
  have "node_wf s' n" if "node_wf s n" for n
    using that k(1) unfolding node_wf_def live al by (auto simp: k(2) stable_def)
  then show ?thesis using assms(2) k(1) unfolding fs_wf_def live held by (auto simp: k(2))
qed

lemma try_alloc_cases:
  assumes "try_alloc s = (a, s')"
  shows "s' = s\<lparr>alloc_no := Suc (alloc_no s)\<rparr>" "a = 0 \<or> a = Suc (alloc_no s)"
  using assms by (auto simp: try_alloc_def Let_def split: if_splits)

lemma clone_cases:
  assumes "vfs_clone_name name slash s = (r, s')"
  shows "s' = s\<lparr>alloc_no := Suc (alloc_no s)\<rparr>" "r = None \<or> r = Some (name @ (if slash then [CHR ''/''] else []))"
  using assms try_alloc_cases by (auto simp: vfs_clone_name_def Let_def split: prod.splits if_splits)

lemma upd_inode_id: "upd_inode n (\<lambda>i. i) s = s"
  by (simp add: upd_inode_def)

lemma new_entry:
  fixes name :: string and own :: bool and ty :: vfs_node_type
  assumes "fs_wf s" "live s d" "s2 = s\<lparr>alloc_no := k\<rparr>" "Suc (alloc_no s) \<le> k"
    "\<And>i. children (f i) = children i \<and> iparent (f i) = iparent i \<and> iname (f i) = iname i \<and> hard_target (f i) = hard_target i"
  defines "n \<equiv> Suc (alloc_no s)"
  defines "s' \<equiv> vfs_vnode_borrow n (touch_dir d (add_child d n (upd_inode n f (new_inode n name own d ty s2))))"
  shows "added d n name ty 0 s s' \<and> refcount (vnodes s' n) = 1"
proof -
  have nd: "n \<noteq> d" using live_le [OF assms(1,2)] by (simp add: n_def)
  have "added d n name ty 0 s (touch_dir d (add_child d n (upd_inode n f (new_inode n name own d ty s2))))"
    using append_added [of n d s2 s f name ty own] assms(3-5) nd by (simp add: n_def same_outside_def)
  moreover have "refcount (vnodes (touch_dir d (add_child d n (upd_inode n f (new_inode n name own d ty s2)))) n) = 0"
    using new_inode_fields(11) by (simp add: touch_dir_def add_child_def)
  ultimately show ?thesis by (simp add: s'_def added_borrow) (simp add: n_def)
qed

text \<open>What an operation that adds an entry does, with its new inode \<open>Suc (alloc_no s)\<close>.\<close>

definition adds :: "nat \<Rightarrow> string \<Rightarrow> vfs_node_type \<Rightarrow> fs \<Rightarrow> vfs_status \<Rightarrow> nat \<Rightarrow> fs \<Rightarrow> bool" where
  "adds d name ty s st n s' \<longleftrightarrow>
     (if st = VFS_STATUS_OK
      then n = Suc (alloc_no s) \<and> added d n name ty 0 s s' \<and> refcount (vnodes s' n) = 1 \<and>
        vfs_validate_name name \<and> vtype (vnodes s d) = VFS_NODE_DIR
      else n = 0 \<and> only_alloc s s')"

lemma create_file_adds:
  assumes "fs_wf s" "live s d" "initrd_create_file d name s = (st, n, s')"
  shows "adds d name VFS_NODE_FILE s st n s'"
proof (cases "d = 0 \<or> vtype (vnodes s d) \<noteq> VFS_NODE_DIR \<or> \<not> vfs_validate_name name")
  case True
  then show ?thesis using assms(3) by (auto simp: initrd_create_file_def adds_def)
next
  case False
  obtain a s1 where a: "try_alloc s = (a, s1)" by (metis surj_pair)
  obtain r s2 where r: "vfs_clone_name name False s1 = (r, s2)" by (metis surj_pair)
  note ac = try_alloc_cases [OF a] and rc = clone_cases [OF r]
  have s2: "s2 = s\<lparr>alloc_no := Suc (Suc (alloc_no s))\<rparr>" using ac rc by simp
  show ?thesis
  proof (cases "a = 0 \<or> r = None")
    case True
    then show ?thesis using assms(3) False a r ac rc by (auto simp: initrd_create_file_def adds_def)
  next
    case ok: False
    then have "st = VFS_STATUS_OK \<and> n = Suc (alloc_no s) \<and> s' = vfs_vnode_borrow n
        (touch_dir d (add_child d n (upd_inode n (\<lambda>i. i) (new_inode n name True d VFS_NODE_FILE s2))))"
      using assms(3) False a r ac rc by (auto simp: initrd_create_file_def Let_def upd_inode_id)
    then show ?thesis using new_entry [OF assms(1,2) s2, of "\<lambda>i. i" name VFS_NODE_FILE True] False by (auto simp: adds_def)
  qed
qed

lemma create_dir_adds:
  assumes "fs_wf s" "live s d" "initrd_create_dir d name s = (st, n, s')"
  shows "adds d (strip_slashes name) VFS_NODE_DIR s st n s'"
proof (cases "d = 0 \<or> vtype (vnodes s d) \<noteq> VFS_NODE_DIR \<or> \<not> vfs_validate_name (strip_slashes name)")
  case True
  then show ?thesis using assms(3) by (auto simp: initrd_create_dir_def adds_def Let_def split: if_splits)
next
  case False
  let ?nm = "strip_slashes name"
  obtain a s1 where a: "try_alloc s = (a, s1)" by (metis surj_pair)
  obtain r s2 where r: "vfs_clone_name ?nm False s1 = (r, s2)" by (metis surj_pair)
  note ac = try_alloc_cases [OF a] and rc = clone_cases [OF r]
  have s2: "s2 = s\<lparr>alloc_no := Suc (Suc (alloc_no s))\<rparr>" using ac rc by simp
  show ?thesis
  proof (cases "a = 0 \<or> r = None")
    case True
    then show ?thesis using assms(3) False a r ac rc
      by (auto simp: initrd_create_dir_def adds_def create_dir_def Let_def split: option.splits)
  next
    case ok: False
    then have "st = VFS_STATUS_OK \<and> n = Suc (alloc_no s) \<and> s' = vfs_vnode_borrow n
        (touch_dir d (add_child d n (upd_inode n (\<lambda>i. i) (new_inode n ?nm True d VFS_NODE_DIR s2))))"
      using assms(3) False a r ac rc by (auto simp: initrd_create_dir_def create_dir_def Let_def upd_inode_id)
    then show ?thesis using new_entry [OF assms(1,2) s2, of "\<lambda>i. i" ?nm VFS_NODE_DIR True] False by (auto simp: adds_def)
  qed
qed

lemma symlink_adds:
  assumes "fs_wf s" "live s d" "initrd_symlink d name target s = (st, n, s')"
  shows "adds d name VFS_NODE_SYMLINK s st n s' \<and> (st = VFS_STATUS_OK \<longrightarrow> find_child s d name = None)"
proof (cases "d = 0 \<or> vtype (vnodes s d) \<noteq> VFS_NODE_DIR \<or> \<not> vfs_validate_name name \<or> target = [] \<or>
    find_child s d name \<noteq> None")
  case True
  then show ?thesis using assms(3) by (auto simp: initrd_symlink_def adds_def split: if_splits)
next
  case False
  obtain a s1 where a: "try_alloc s = (a, s1)" by (metis surj_pair)
  obtain r s2 where r: "vfs_clone_name name False s1 = (r, s2)" by (metis surj_pair)
  obtain q s3 where q: "vfs_clone_name target False s2 = (q, s3)" by (metis surj_pair)
  note ac = try_alloc_cases [OF a] and rc = clone_cases [OF r] and qc = clone_cases [OF q]
  have s3: "s3 = s\<lparr>alloc_no := Suc (Suc (Suc (alloc_no s)))\<rparr>" using ac rc qc by simp
  let ?f = "\<lambda>i. i\<lparr>ibuf := Some (str_bytes target @ [0]), bufsize := of_nat (length target + 1), buf_owned := True,
    ilen := of_nat (length target)\<rparr>"
  show ?thesis
  proof (cases "a = 0 \<or> r = None \<or> q = None")
    case True
    then show ?thesis using assms(3) False a r q ac rc qc
      by (auto simp: initrd_symlink_def adds_def split: option.splits)
  next
    case ok: False
    then have "st = VFS_STATUS_OK \<and> n = Suc (alloc_no s) \<and> s' = vfs_vnode_borrow n
        (touch_dir d (add_child d n (upd_inode n ?f (new_inode n name True d VFS_NODE_SYMLINK s3))))"
      using assms(3) False a r q ac rc qc by (auto simp: initrd_symlink_def Let_def)
    then show ?thesis using new_entry [OF assms(1,2) s3, of ?f name VFS_NODE_SYMLINK True] False by (auto simp: adds_def)
  qed
qed

section \<open>vfs_create and vfs_mkdir\<close>

lemma find_append: "find P (xs @ ys) = (case find P xs of None \<Rightarrow> find P ys | Some x \<Rightarrow> Some x)"
  by (induction xs) auto

lemma find_cong_set: "(\<And>x. x \<in> set xs \<Longrightarrow> P x = Q x) \<Longrightarrow> find P xs = find Q xs"
  by (induction xs) auto

lemma added_find:
  assumes "fs_wf s" "live s d'" "alloc_no s < n" "added d n name ty h s s'"
  shows "find_child s' d' nm =
    (if d' = d \<and> nm = name \<and> find_child s d' nm = None then Some n else find_child s d' nm)"
proof -
  have "c \<noteq> n" if "c \<in> set (children (inodes s d'))" for c
    using node_wfD(4) [OF wf_node [OF assms(1,2)]] that live_le [OF assms(1)] assms(3) by fastforce
  then have "find (\<lambda>c. iname (inodes s' c) = nm) (children (inodes s d')) = find_child s d' nm"
    unfolding find_child_def using assms(4) by (intro find_cong_set) (auto simp: added_def)
  moreover have "d' \<noteq> n" using live_le [OF assms(1,2)] assms(3) by auto
  ultimately show ?thesis using assms(4)
    by (auto simp: find_child_def find_append added_def split: option.splits)
qed

lemma finish_create:
  assumes "fs_wf s" "live s d" "0 < link_count (vnodes s d)" "adds d name ty s VFS_STATUS_OK n s1"
    "return_created_ref initrd_tables w n (mark_dir_changed x s1) = (r, s')"
  shows "fs_wf s' \<and> added d (Suc (alloc_no s)) name ty 0 s s' \<and> r = (if w then Suc (alloc_no s) else 0) \<and>
    refcount (vnodes s' (Suc (alloc_no s))) = (if w then 1 else 0)"
proof -
  let ?s2 = "mark_dir_changed x s1"
  have n: "n = Suc (alloc_no s)" and a1: "added d n name ty 0 s s1" and rc: "refcount (vnodes s1 n) = 1"
    and dd: "vtype (vnodes s d) = VFS_NODE_DIR"
    using assms(4) by (auto simp: adds_def)
  have a: "added d n name ty 0 s ?s2" by (rule added_mark [OF a1])
  have rc2: "refcount (vnodes ?s2 n) = 1" using rc by (auto simp: mark_dir_changed_def)
  have nf: "n \<notin> set (freed s)" using assms(1) n by (auto simp: fs_wf_def)
  have l: "live ?s2 n" using a nf n by (simp add: live_def added_def)
  have lc: "link_count (vnodes ?s2 n) = 1" using a by (simp add: added_def)
  have a3: "added d n name ty 0 s (vfs_vnode_release initrd_tables n ?s2)"
    using release_fields [OF l] rc2 lc by (intro added_cong [OF a]) auto
  have r3: "refcount (vnodes (vfs_vnode_release initrd_tables n ?s2) n) = 0"
    using release_fields(5) [OF l] rc2 by simp
  have "added d n name ty 0 s s'" "refcount (vnodes s' n) = (if w then 1 else 0)" "r = (if w then n else 0)"
    using assms(5) a a3 r3 rc2 by (auto simp: return_created_ref_def split: if_splits)
  then show ?thesis using added_wf [OF assms(1,2) dd assms(3) _ \<open>added d n name ty 0 s s'\<close>] n by simp
qed

definition created :: "nat \<Rightarrow> string \<Rightarrow> vfs_node_type \<Rightarrow> bool \<Rightarrow> fs \<Rightarrow> vfs_status \<Rightarrow> nat \<Rightarrow> fs \<Rightarrow> bool" where
  "created d name ty w s st r s' \<longleftrightarrow>
     (if st = VFS_STATUS_OK
      then fs_wf s' \<and> added d (Suc (alloc_no s)) name ty 0 s s' \<and> r = (if w then Suc (alloc_no s) else 0) \<and>
        refcount (vnodes s' (Suc (alloc_no s))) = (if w then 1 else 0)
      else r = 0 \<and> only_alloc s s')"

lemma create_entry_created:
  assumes "fs_wf s" "live s d" "0 < link_count (vnodes s d)" "sel initrd_vnode_ops = Some create"
    "\<And>st n s'. create d nm s = (st, n, s') \<Longrightarrow> adds d name ty s st n s'"
    "create_entry initrd_tables sel d nm w s = (st, r, s')"
  shows "created d name ty w s st r s'"
proof (cases "dir_mutation_allowed d nm s = VFS_STATUS_OK")
  case False
  then show ?thesis using assms(6) by (auto simp: create_entry_def created_def Let_def)
next
  case True
  obtain st1 n s1 where c: "create d nm s = (st1, n, s1)" by (cases "create d nm s") auto
  note ad = assms(5) [OF c]
  show ?thesis
  proof (cases "st1 = VFS_STATUS_OK")
    case ok: True
    then have "st = VFS_STATUS_OK" "return_created_ref initrd_tables w n (mark_dir_changed d s1) = (r, s')"
      using assms(2,4,6) True c by (auto simp: create_entry_def Let_def)
    then show ?thesis using finish_create [OF assms(1-3), of name ty n s1 w d] ad ok by (simp add: created_def)
  next
    case False
    then show ?thesis using assms(2,4,6) True c ad by (auto simp: create_entry_def Let_def created_def adds_def)
  qed
qed

lemma strip_idem: "strip_slashes (strip_slashes name) = strip_slashes name"
  by (simp add: strip_slashes_def dropWhile_idem)

lemma vfs_create_created:
  assumes "fs_wf s" "live s d" "0 < link_count (vnodes s d)" "vfs_create initrd_tables d name w s = (st, r, s')"
  shows "created d name VFS_NODE_FILE w s st r s'"
  using create_entry_created [OF assms(1-3), of op_create_file initrd_create_file name name VFS_NODE_FILE w]
    create_file_adds [OF assms(1,2)] assms(4) by (simp add: vfs_create_def)

lemma vfs_mkdir_created:
  assumes "fs_wf s" "live s d" "0 < link_count (vnodes s d)" "vfs_mkdir initrd_tables d name w s = (st, r, s')"
  shows "created d (strip_slashes name) VFS_NODE_DIR w s st r s'"
proof (rule create_entry_created [OF assms(1-3)])
  show "op_create_dir initrd_vnode_ops = Some initrd_create_dir" by simp
  show "create_entry initrd_tables op_create_dir d (strip_slashes name) w s = (st, r, s')"
    using assms(4) by (simp add: vfs_mkdir_def)
  fix st n s'
  assume "initrd_create_dir d (strip_slashes name) s = (st, n, s')"
  then show "adds d (strip_slashes name) VFS_NODE_DIR s st n s'"
    using create_dir_adds [OF assms(1,2)] by (metis strip_idem)
qed

lemma created_wf: "fs_wf s \<Longrightarrow> created d name ty w s st r s' \<Longrightarrow> fs_wf s'"
  by (auto simp: created_def dest: only_alloc_wf split: if_splits)

lemma vfs_create_status:
  assumes "live s d"
  shows "fst (vfs_create initrd_tables d name w s) =
    (if dir_mutation_allowed d name s \<noteq> VFS_STATUS_OK then dir_mutation_allowed d name s
     else if alloc_fails s (alloc_no s) \<or> alloc_fails s (Suc (alloc_no s)) then VFS_STATUS_NOMEM
     else VFS_STATUS_OK)"
  using assms
  by (auto simp: vfs_create_def create_entry_def initrd_create_file_def try_alloc_def vfs_clone_name_def Let_def
      dir_mutation_allowed_def return_created_ref_def)

text \<open>C13. Creating a file in a directory that is still linked: it fails only for a bad directory or name
  or for want of memory, and then nothing but the allocation counter changes. On success the tree's
  invariant is kept, the new entry is a file with one link, a lookup of its name finds it unless the
  directory had an entry of that name before (nothing checks for one, and the older entry then hides
  the new one), and every other lookup, in this and in every other directory, answers as before.\<close>

theorem vfs_create_entry:
  assumes "fs_wf s" "live s d" "0 < link_count (vnodes s d)"
    "vfs_create initrd_tables d name w s = (st, r, s')"
  defines "n \<equiv> Suc (alloc_no s)"
  shows "st = (if dir_mutation_allowed d name s \<noteq> VFS_STATUS_OK then dir_mutation_allowed d name s
      else if alloc_fails s (alloc_no s) \<or> alloc_fails s (Suc (alloc_no s)) then VFS_STATUS_NOMEM else VFS_STATUS_OK) \<and>
    fs_wf s' \<and>
    (if st = VFS_STATUS_OK
     then live s' n \<and> vtype (vnodes s' n) = VFS_NODE_FILE \<and> link_count (vnodes s' n) = 1 \<and>
       find_child s' d name = Some (case find_child s d name of None \<Rightarrow> n | Some old \<Rightarrow> old) \<and>
       (\<forall>d' nm. live s d' \<longrightarrow> (d', nm) \<noteq> (d, name) \<longrightarrow> find_child s' d' nm = find_child s d' nm) \<and>
       r = (if w then n else 0)
     else r = 0 \<and> s' = s\<lparr>alloc_no := alloc_no s'\<rparr>)"
proof -
  have c: "created d name VFS_NODE_FILE w s st r s'" using vfs_create_created assms by blast
  note wf = created_wf [OF assms(1) c]
  have st: "st = (if dir_mutation_allowed d name s \<noteq> VFS_STATUS_OK then dir_mutation_allowed d name s
      else if alloc_fails s (alloc_no s) \<or> alloc_fails s (Suc (alloc_no s)) then VFS_STATUS_NOMEM else VFS_STATUS_OK)"
    using vfs_create_status [OF assms(2), of name w] assms(4) by (simp add: n_def)
  show ?thesis
  proof (cases "st = VFS_STATUS_OK")
    case True
    then have a: "added d n name VFS_NODE_FILE 0 s s'" using c by (simp add: created_def n_def)
    have "live s' n" using a assms(1) by (auto simp: live_def added_def fs_wf_def n_def)
    then show ?thesis using True c wf a added_find [OF assms(1) _ _ a] assms(2) st
      by (auto simp: created_def added_def n_def split: option.splits)
  next
    case False
    then show ?thesis using c wf st by (auto simp: created_def elim!: only_allocE)
  qed
qed

section \<open>vfs_unlink and vfs_rmdir\<close>

text \<open>The state after the entry \<open>c\<close> of \<open>d\<close> has been taken out of the tree.\<close>

definition detached :: "nat \<Rightarrow> nat \<Rightarrow> fs \<Rightarrow> fs \<Rightarrow> bool" where
  "detached d c s s' \<longleftrightarrow>
     same_outside s s' \<and> vnodes s' = vnodes s \<and>
     freed s' = (if hard_target (inodes s c) = 0 then freed s else c # freed s) \<and>
     (\<forall>m. iparent (inodes s' m) = (if m = c then 0 else iparent (inodes s m)) \<and>
        hard_target (inodes s' m) = hard_target (inodes s m) \<and> iname (inodes s' m) = iname (inodes s m) \<and>
        children (inodes s' m) = (if m = d then remove1 c (children (inodes s d)) else children (inodes s m)))"

lemma first_child_0: "fs_wf s \<Longrightarrow> live s c \<Longrightarrow> first_child s c = 0 \<longleftrightarrow> children (inodes s c) = []"
  using node_wfD(4) [of s c] wf_node by (cases "children (inodes s c)") (auto simp: first_child_def live_def)

lemma child_facts:
  assumes "fs_wf s" "live s d" "find_child s d name = Some c"
  shows "c \<in> set (children (inodes s d))" "live s c" "iparent (inodes s c) = d" "d \<noteq> 0"
    "vtype (vnodes s d) = VFS_NODE_DIR"
proof -
  note w = node_wfD [OF wf_node [OF assms(1,2)]]
  show c: "c \<in> set (children (inodes s d))" using find_child_mem [OF assms(3)] by simp
  show "live s c" "iparent (inodes s c) = d" using w(4) c by auto
  show "d \<noteq> 0" using assms(2) by (rule live_nonzero)
  show "vtype (vnodes s d) = VFS_NODE_DIR" using w(5) c by auto
qed

lemma detach_detached:
  assumes "fs_wf s" "live s d" "find_child s d name = Some c" "children (inodes s c) = []"
  shows "\<exists>s1. detach_child c s = (c, s1) \<and>
    detached d c s (if hard_target (inodes s c) = 0 then s1 else initrd_free c s1) \<and> hard_target (inodes s1 c) = hard_target (inodes s c)"
proof -
  note f = child_facts [OF assms(1-3)]
  have "c \<noteq> d" using f(1) assms(4) by auto
  moreover have "c \<noteq> 0" using f(2) by (rule live_nonzero)
  ultimately show ?thesis using f
    by (simp add: detach_child_def detached_def Let_def same_outside_def initrd_free_def)
qed

lemma file_no_children: "fs_wf s \<Longrightarrow> live s c \<Longrightarrow> vtype (vnodes s c) \<noteq> VFS_NODE_DIR \<Longrightarrow> children (inodes s c) = []"
  using node_wfD(5) [of s c] wf_node by blast

lemma delete_file_detaches:
  assumes "fs_wf s" "live s d" "initrd_delete_file d name fl s = (st, s')"
  shows "if st = VFS_STATUS_OK
    then \<exists>c. find_child s d name = Some c \<and> vtype (vnodes s c) \<noteq> VFS_NODE_DIR \<and> children (inodes s c) = [] \<and> detached d c s s'
    else s' = s"
proof (cases "find_child s d name")
  case None
  then show ?thesis using assms(3) by (auto simp: initrd_delete_file_def split: if_splits)
next
  case (Some c)
  show ?thesis
  proof (cases "vtype (vnodes s c) = VFS_NODE_DIR \<or> d = 0 \<or> vtype (vnodes s d) \<noteq> VFS_NODE_DIR \<or> name = []")
    case True
    then show ?thesis using assms(3) Some by (auto simp: initrd_delete_file_def split: if_splits)
  next
    case False
    have e: "children (inodes s c) = []" using file_no_children assms(1) child_facts [OF assms(1,2) Some] False by blast
    obtain s1 where s1: "detach_child c s = (c, s1)"
      "detached d c s (if hard_target (inodes s c) = 0 then s1 else initrd_free c s1)"
      "hard_target (inodes s1 c) = hard_target (inodes s c)"
      using detach_detached [OF assms(1,2) Some e] by blast
    have "c \<noteq> 0" using child_facts(2) [OF assms(1,2) Some] by (rule live_nonzero)
    then show ?thesis using assms(3) Some False s1 e by (auto simp: initrd_delete_file_def split: if_splits)
  qed
qed

lemma delete_dir_detaches:
  assumes "fs_wf s" "live s d" "initrd_delete_dir d name fl s = (st, s')"
  shows "if st = VFS_STATUS_OK
    then \<exists>c. find_child s d name = Some c \<and> vtype (vnodes s c) = VFS_NODE_DIR \<and> children (inodes s c) = [] \<and> detached d c s s'
    else s' = s"
proof (cases "find_child s d name")
  case None
  then show ?thesis using assms(3) by (auto simp: initrd_delete_dir_def split: if_splits)
next
  case (Some c)
  note f = child_facts [OF assms(1,2) Some]
  show ?thesis
  proof (cases "vtype (vnodes s c) \<noteq> VFS_NODE_DIR \<or> first_child s c \<noteq> 0 \<or> d = 0 \<or> vtype (vnodes s d) \<noteq> VFS_NODE_DIR \<or> name = []")
    case True
    then show ?thesis using assms(3) Some by (auto simp: initrd_delete_dir_def split: if_splits)
  next
    case False
    have e: "children (inodes s c) = []" using first_child_0 assms(1) f False by blast
    have h: "hard_target (inodes s c) = 0" using node_wfD(7) [OF wf_node [OF assms(1) f(2)]] False by auto
    obtain s1 where s1: "detach_child c s = (c, s1)" "detached d c s s1"
      using detach_detached [OF assms(1,2) Some e] h by auto
    have "c \<noteq> 0" using f(2) by (rule live_nonzero)
    then show ?thesis using assms(3) Some False s1 e by (auto simp: initrd_delete_dir_def)
  qed
qed

abbreviation resolved :: "fs \<Rightarrow> nat \<Rightarrow> nat" where
  "resolved s c \<equiv> (if hard_target (inodes s c) = 0 then c else hard_target (inodes s c))"

lemma resolved_facts:
  assumes "fs_wf s" "live s c"
  shows "live s (resolved s c)" "hard_target (inodes s (resolved s c)) = 0" "resolved s c \<noteq> 0"
    "stable s (resolved s c)" "vtype (vnodes s (resolved s c)) = vtype (vnodes s c)"
proof -
  note w = node_wfD(7) [OF wf_node [OF assms]]
  show l: "live s (resolved s c)" "hard_target (inodes s (resolved s c)) = 0"
    "vtype (vnodes s (resolved s c)) = vtype (vnodes s c)" using w assms(2) by auto
  show "resolved s c \<noteq> 0" by (rule live_nonzero [OF l(1)])
  show "stable s (resolved s c)" by (rule node_wfD(2) [OF wf_node [OF assms(1) l(1)]])
qed

lemma resolved_linked:
  assumes "fs_wf s" "live s c" "iparent (inodes s c) \<noteq> 0"
  shows "0 < link_count (vnodes s (resolved s c))"
proof -
  note r = resolved_facts [OF assms(1,2)]
  have le: "(if iparent (inodes s (resolved s c)) \<noteq> 0 then 1 else 0) + card (aliases s (resolved s c))
      \<le> link_count (vnodes s (resolved s c))"
    using node_wfD(8) [OF wf_node [OF assms(1) r(1)]] r(2) by blast
  show ?thesis
  proof (cases "hard_target (inodes s c) = 0")
    case True
    then show ?thesis using le assms(3) by simp
  next
    case False
    then have "c \<in> aliases s (resolved s c)" using assms(2) by (simp add: aliases_def)
    then have "0 < card (aliases s (resolved s c))" using aliases_finite [OF assms(1)] card_gt_0_iff by blast
    then show ?thesis using le by linarith
  qed
qed

lemma held_cong:
  assumes "same_outside s s'" "\<And>m. same_vnode (vnodes s m) (vnodes s' m)" "set (freed s) \<subseteq> set (freed s')" "held s' n"
  shows "held s n"
proof -
  have "mounted s' \<subseteq> mounted s"
    using assms(2,3) by (auto simp: mounted_def live_def same_vnode_def)
  then show ?thesis using assms(1,4) by (auto simp: held_def same_outside_def no_root_def root_node_def)
qed

text \<open>The state after the last steps of \<open>remove_child\<close>: the entry's target has one link less, and is
  freed when that was its last and nobody holds it.\<close>

definition dropped :: "nat \<Rightarrow> nat \<Rightarrow> fs \<Rightarrow> fs \<Rightarrow> bool" where
  "dropped d c s s' \<longleftrightarrow>
     (let t = resolved s c
      in same_outside s s' \<and>
         (\<forall>m. same_vnode (vnodes s m) (vnodes s' m) \<and>
            link_count (vnodes s' m) = link_count (vnodes s m) - (if m = t then 1 else 0)) \<and>
         (\<forall>m. iname (inodes s' m) = iname (inodes s m) \<and>
            children (inodes s' m) = (if m = d then remove1 c (children (inodes s d)) else children (inodes s m))) \<and>
         set (freed s') = set (freed s) \<union> (if c = t then {} else {c}) \<union>
           (if refcount (vnodes s t) = 0 \<and> link_count (vnodes s t) = 1 then {t} else {}))"

lemma drop_entry:
  assumes wf: "fs_wf s" and d: "live s d" and c: "find_child s d name = Some c" "children (inodes s c) = []"
    and det: "detached d c (vfs_vnode_borrow (resolved s c) s) s2"
  defines "t \<equiv> resolved s c"
  defines "s3 \<equiv> mark_dir_changed d (upd_vnode t (\<lambda>v. v\<lparr>link_count := link_count v - 1\<rparr>) s2)"
  shows "fs_wf (vfs_vnode_release initrd_tables t s3) \<and> dropped d c s (vfs_vnode_release initrd_tables t s3)"
proof -
  let ?s1 = "vfs_vnode_borrow t s"
  note f = child_facts [OF wf d c(1)] and r = resolved_facts [OF wf child_facts(2) [OF wf d c(1)], folded t_def]
  have det1: "detached d c ?s1 s2" using det by (simp add: t_def)
  have V: "same_vnode (vnodes ?s1 m) (vnodes s3 m) \<and>
      link_count (vnodes s3 m) = link_count (vnodes ?s1 m) - (if m = t then 1 else 0)" for m
    using det1 by (auto simp: s3_def mark_dir_changed_def detached_def same_vnode_def)
  have I: "inodes s3 = inodes s2" "freed s3 = freed s2" "same_outside ?s1 s3"
    using det1 by (auto simp: s3_def mark_dir_changed_def detached_def same_outside_def)
  have rc: "refcount (vnodes s3 t) = Suc (refcount (vnodes s t))"
    using V [of t] r(3) by (simp add: same_vnode_def)
  have wf3: "fs_wf s3"
    by (rule detach_wf [OF borrow_fs_wf [OF wf, of t], of d c t])
      (use d f c(2) V I det1 r(3) in \<open>auto simp: detached_def t_def\<close>)
  have tc: "t = c \<longleftrightarrow> hard_target (inodes s c) = 0" using live_nonzero [OF f(2)] r(2) by (auto simp: t_def)
  have l3: "live s3 t" using r(1) V [of t] I(2) det1 tc by (auto simp: live_def same_vnode_def detached_def)
  have hl: "2 \<le> refcount (vnodes s3 t)" if "held s3 t"
  proof -
    have "held ?s1 t"
      by (rule held_cong [OF I(3) _ _ that]) (use V I(2) det1 in \<open>auto simp: detached_def\<close>)
    then show ?thesis using wf_held [OF wf] rc by fastforce
  qed
  have h3: "hard_target (inodes s3 t) = 0" using r(2) I(1) det1 by (simp add: detached_def)
  note rf = release_fields [OF l3, unfolded rc, simplified]
  have "fs_wf (vfs_vnode_release initrd_tables t s3)"
    using release_wf [OF wf3 l3 _ h3 hl] rc by simp
  moreover have "dropped d c s (vfs_vnode_release initrd_tables t s3)"
    unfolding dropped_def Let_def t_def [symmetric]
  proof (intro conjI allI)
    show "same_outside s (vfs_vnode_release initrd_tables t s3)"
      using rf(2) I(3) by (auto simp: same_outside_def)
  next
    fix m
    show "same_vnode (vnodes s m) (vnodes (vfs_vnode_release initrd_tables t s3) m)"
      "link_count (vnodes (vfs_vnode_release initrd_tables t s3) m) = link_count (vnodes s m) - (if m = t then 1 else 0)"
      using V [of m] rc r(3) by (auto simp: rf(5) same_vnode_def)
    show "iname (inodes (vfs_vnode_release initrd_tables t s3) m) = iname (inodes s m)"
      "children (inodes (vfs_vnode_release initrd_tables t s3) m) =
        (if m = d then remove1 c (children (inodes s d)) else children (inodes s m))"
      using det1 by (simp_all add: rf(1) I(1) detached_def)
  next
    have "0 < link_count (vnodes s t)"
      using resolved_linked [OF wf f(2)] f(3,4) by (simp add: t_def)
    then show "set (freed (vfs_vnode_release initrd_tables t s3)) = set (freed s) \<union> (if c = t then {} else {c}) \<union>
        (if refcount (vnodes s t) = 0 \<and> link_count (vnodes s t) = 1 then {t} else {})"
      using V [of t] det1 tc by (auto simp: rf(4) I(2) detached_def)
  qed
  ultimately show ?thesis ..
qed

lemma remove_child_dropped:
  assumes wf: "fs_wf s" and d: "live s d" and rm: "remove_child initrd_tables d name fl is_dir s = (st, s')"
  shows "if st = VFS_STATUS_OK
    then \<exists>c. find_child s d name = Some c \<and> (vtype (vnodes s c) = VFS_NODE_DIR \<longleftrightarrow> is_dir) \<and> children (inodes s c) = [] \<and>
      fs_wf s' \<and> dropped d c s s'
    else s' = s"
proof -
  define op where "op = (if is_dir then initrd_delete_dir else initrd_delete_file)"
  have del: "if st = VFS_STATUS_OK
    then \<exists>c. find_child s d name = Some c \<and> (vtype (vnodes s c) = VFS_NODE_DIR \<longleftrightarrow> is_dir) \<and> children (inodes s c) = [] \<and> detached d c s s'
    else s' = s" if "fs_wf s" "live s d" "op d name fl s = (st, s')" for s st s'
    using that delete_file_detaches [of s d name fl st s'] delete_dir_detaches [of s d name fl st s']
    by (auto simp: op_def split: if_splits)
  have rm': "remove_child initrd_tables d name fl is_dir s =
    (if vtype (vnodes s d) \<noteq> VFS_NODE_DIR then (VFS_STATUS_NOTDIR, s)
     else case initrd_lookup d name s of (st, t, s) \<Rightarrow>
       if st \<noteq> VFS_STATUS_OK then (st, s)
       else if is_dir \<and> vtype (vnodes s t) \<noteq> VFS_NODE_DIR then (VFS_STATUS_NOTDIR, vfs_vnode_release initrd_tables t s)
       else if \<not> is_dir \<and> vtype (vnodes s t) = VFS_NODE_DIR then (VFS_STATUS_ISDIR, vfs_vnode_release initrd_tables t s)
       else case op d name fl s of (st, s) \<Rightarrow>
         if st \<noteq> VFS_STATUS_OK then (st, vfs_vnode_release initrd_tables t s)
         else (VFS_STATUS_OK, vfs_vnode_release initrd_tables t
           (mark_dir_changed d (upd_vnode t (\<lambda>v. v\<lparr>link_count := link_count v - 1\<rparr>) s))))"
    using d unfolding remove_child_def op_def Let_def by (cases is_dir) simp_all
  show ?thesis
  proof (cases "find_child s d name")
    case None
    then show ?thesis using rm unfolding rm' by (auto simp: initrd_lookup_def split: if_splits)
  next
    case (Some c)
    define t where "t = resolved s c"
    let ?s1 = "vfs_vnode_borrow t s"
    note f = child_facts [OF wf d Some]
    have lk: "initrd_lookup d name s = (VFS_STATUS_OK, t, ?s1)"
      using f Some by (simp add: initrd_lookup_def t_def Let_def)
    have rel: "vfs_vnode_release initrd_tables t ?s1 = s"
      using resolved_facts(4) [OF wf f(2)] release_borrow by (simp add: t_def)
    obtain st2 s2 where o: "op d name fl ?s1 = (st2, s2)" by (metis surj_pair)
    note dl = del [OF borrow_fs_wf [OF wf, of t] _ o]
    show ?thesis
    proof (cases "st2 = VFS_STATUS_OK")
      case False
      then have "s2 = ?s1" using dl d by simp
      then show ?thesis using rm False rel unfolding rm' lk by (auto simp: o split: if_splits)
    next
      case True
      have dt: "detached d c ?s1 s2" "children (inodes s c) = []" "vtype (vnodes s c) = VFS_NODE_DIR \<longleftrightarrow> is_dir"
        using dl True d Some by (auto simp: find_child_def)
      then show ?thesis using rm rel True Some drop_entry [OF wf d Some dt(2), folded t_def, OF dt(1)] unfolding rm' lk
        by (auto simp: o split: if_splits)
    qed
  qed
qed

lemma find_remove1: "\<not> P c \<Longrightarrow> find P (remove1 c xs) = find P xs"
  by (induction xs) auto

lemma find_remove1_None:
  assumes "distinct (map f xs)" "c \<in> set xs" "f c = k"
  shows "find (\<lambda>x. f x = k) (remove1 c xs) = None"
proof -
  have "x = c" if "x \<in> set xs" "f x = f c" for x
    using assms(1,2) that by (metis distinct_map inj_on_eq_iff)
  moreover have "distinct xs" using assms(1) by (simp add: distinct_map)
  ultimately show ?thesis using assms(3) by (auto simp: find_None_iff set_remove1_eq)
qed

lemma dropped_find:
  assumes "find_child s d name = Some c" "dropped d c s s'"
  shows "(d', nm) \<noteq> (d, name) \<Longrightarrow> find_child s' d' nm = find_child s d' nm"
    "distinct (map (\<lambda>c. iname (inodes s c)) (children (inodes s d))) \<Longrightarrow> find_child s' d name = None"
proof -
  note c = find_child_mem [OF assms(1)]
  have i: "iname (inodes s' m) = iname (inodes s m)"
    "children (inodes s' m) = (if m = d then remove1 c (children (inodes s d)) else children (inodes s m))" for m
    using assms(2) by (auto simp: dropped_def Let_def)
  show "find_child s' d' nm = find_child s d' nm" if "(d', nm) \<noteq> (d, name)"
    using that c by (auto simp: find_child_def i find_remove1)
  show "find_child s' d name = None" if "distinct (map (\<lambda>c. iname (inodes s c)) (children (inodes s d)))"
    using find_remove1_None [OF that, of c name] c by (simp add: find_child_def i)
qed

lemma dropped_freed:
  assumes "fs_wf s" "live s c" "dropped d c s s'"
  shows "resolved s c \<in> set (freed s') \<longleftrightarrow>
    refcount (vnodes s (resolved s c)) = 0 \<and> link_count (vnodes s (resolved s c)) = 1"
  using resolved_facts(1) [OF assms(1,2)] assms(3) unfolding dropped_def Let_def
  by (auto simp: live_def split: if_splits)

text \<open>C14. \<open>vfs_unlink\<close> in any directory in use: a failure leaves the state exactly as it was; a success
  removes one entry that was not a directory, keeps the tree's invariant and every other lookup, and,
  when the directory's names are distinct, the name is gone. The file behind the entry (for a hard
  link, the file it names) is freed exactly when this was its last name and nobody holds it: an open
  file outlives its last name.\<close>

theorem vfs_unlink_entry:
  assumes "fs_wf s" "live s d" "vfs_unlink initrd_tables d name fl s = (st, s')"
  shows "if st = VFS_STATUS_OK
    then \<exists>c. find_child s d name = Some c \<and> vtype (vnodes s c) \<noteq> VFS_NODE_DIR \<and> fs_wf s' \<and>
      (\<forall>d' nm. (d', nm) \<noteq> (d, name) \<longrightarrow> find_child s' d' nm = find_child s d' nm) \<and>
      (distinct (map (\<lambda>c. iname (inodes s c)) (children (inodes s d))) \<longrightarrow> find_child s' d name = None) \<and>
      (resolved s c \<in> set (freed s') \<longleftrightarrow>
         refcount (vnodes s (resolved s c)) = 0 \<and> link_count (vnodes s (resolved s c)) = 1)
    else s' = s"
proof (cases "dir_mutation_allowed d name s = VFS_STATUS_OK \<and> st = VFS_STATUS_OK")
  case True
  then have "remove_child initrd_tables d name fl False s = (VFS_STATUS_OK, s')"
    using assms(3) by (simp add: vfs_unlink_def)
  then obtain c where c: "find_child s d name = Some c" "vtype (vnodes s c) \<noteq> VFS_NODE_DIR" "fs_wf s'" "dropped d c s s'"
    using remove_child_dropped [OF assms(1,2)] by force
  then show ?thesis
    using True dropped_find [OF c(1,4)] dropped_freed [OF assms(1) child_facts(2) [OF assms(1,2) c(1)] c(4)] by auto
next
  case False
  then show ?thesis using assms(3) remove_child_dropped [OF assms(1,2), of name fl False st s']
    by (auto simp: vfs_unlink_def Let_def split: if_splits)
qed

lemma rmdir_status:
  assumes wf: "fs_wf s" and d: "live s d" and rm: "vfs_rmdir initrd_tables d name fl s = (st, s')"
  shows "st = (if dir_mutation_allowed d name s \<noteq> VFS_STATUS_OK then dir_mutation_allowed d name s
    else case find_child s d name of
      None \<Rightarrow> VFS_STATUS_NOENT
    | Some c \<Rightarrow> if vtype (vnodes s c) \<noteq> VFS_NODE_DIR then VFS_STATUS_NOTDIR
        else if children (inodes s c) \<noteq> [] then VFS_STATUS_NOTEMPTY else VFS_STATUS_OK)"
proof (cases "dir_mutation_allowed d name s = VFS_STATUS_OK")
  case False
  then show ?thesis using rm by (auto simp: vfs_rmdir_def Let_def)
next
  case True
  then have D: "vtype (vnodes s d) = VFS_NODE_DIR" "name \<noteq> []" "d \<noteq> 0"
    by (auto simp: dir_mutation_allowed_def vfs_validate_name_def split: if_splits)
  have rm': "remove_child initrd_tables d name fl True s = (st, s')" using rm True by (simp add: vfs_rmdir_def)
  show ?thesis
  proof (cases "find_child s d name")
    case None
    then show ?thesis using rm' True d D by (auto simp: remove_child_def initrd_lookup_def)
  next
    case (Some c)
    note f = child_facts [OF wf d Some]
    define t where "t = resolved s c"
    have lk: "initrd_lookup d name s = (VFS_STATUS_OK, t, vfs_vnode_borrow t s)"
      using f Some by (simp add: initrd_lookup_def t_def Let_def)
    have ty: "vtype (vnodes s t) = vtype (vnodes s c)" using resolved_facts(5) [OF wf f(2)] by (simp add: t_def)
    have fc: "find_child (vfs_vnode_borrow t s) d name = Some c" "first_child (vfs_vnode_borrow t s) c = first_child s c"
      using Some by (simp_all add: find_child_def first_child_def)
    have dt: "fst (detach_child c (vfs_vnode_borrow t s)) \<noteq> 0" if "children (inodes s c) = []"
      using f live_nonzero [OF f(2)] by (simp add: detach_child_def Let_def)
    have "fst (initrd_delete_dir d name fl (vfs_vnode_borrow t s)) =
        (if children (inodes s c) \<noteq> [] then VFS_STATUS_NOTEMPTY else VFS_STATUS_OK)" if "vtype (vnodes s c) = VFS_NODE_DIR"
      using that D fc first_child_0 [OF wf f(2)] dt by (force simp: initrd_delete_dir_def split: prod.splits)
    moreover obtain st2 s2 where "initrd_delete_dir d name fl (vfs_vnode_borrow t s) = (st2, s2)" by (metis surj_pair)
    ultimately show ?thesis using rm' True d D Some lk ty
      by (cases "vtype (vnodes s c) = VFS_NODE_DIR"; cases "children (inodes s c) = []") (auto simp: remove_child_def)
  qed
qed

text \<open>C25. \<open>vfs_rmdir\<close> answers exactly as it should: the errors of a bad directory or name first, NOENT
  for a name that is not there, NOTDIR for what is not a directory, NOTEMPTY for a directory with
  entries, and otherwise it removes the directory. Every failure leaves the state exactly as it was;
  a success keeps the tree's invariant and every other lookup.\<close>

theorem vfs_rmdir_entry:
  assumes "fs_wf s" "live s d" "vfs_rmdir initrd_tables d name fl s = (st, s')"
  shows "st = (if dir_mutation_allowed d name s \<noteq> VFS_STATUS_OK then dir_mutation_allowed d name s
      else case find_child s d name of
        None \<Rightarrow> VFS_STATUS_NOENT
      | Some c \<Rightarrow> if vtype (vnodes s c) \<noteq> VFS_NODE_DIR then VFS_STATUS_NOTDIR
          else if children (inodes s c) \<noteq> [] then VFS_STATUS_NOTEMPTY else VFS_STATUS_OK) \<and>
    (if st = VFS_STATUS_OK
     then fs_wf s' \<and> (\<forall>d' nm. (d', nm) \<noteq> (d, name) \<longrightarrow> find_child s' d' nm = find_child s d' nm)
     else s' = s)"
proof (rule conjI [OF rmdir_status [OF assms]])
  show "if st = VFS_STATUS_OK
     then fs_wf s' \<and> (\<forall>d' nm. (d', nm) \<noteq> (d, name) \<longrightarrow> find_child s' d' nm = find_child s d' nm)
     else s' = s"
  proof (cases "dir_mutation_allowed d name s = VFS_STATUS_OK")
    case True
    then have "remove_child initrd_tables d name fl True s = (st, s')" using assms(3) by (simp add: vfs_rmdir_def)
    from remove_child_dropped [OF assms(1,2) this] show ?thesis
      using dropped_find(1) [of s d name _ s'] by (cases "st = VFS_STATUS_OK") force+
  next
    case False
    then show ?thesis using assms(3) by (auto simp: vfs_rmdir_def Let_def)
  qed
qed

end
