(* ===== verification/Vfs_Boot.thy ===== *)
theory Vfs_Boot
  imports Initrd_Ops
begin

text \<open>
  Mounting and the first file system: mounting a root and mounting on a directory keep the tree's
  invariant, the boot sequence of the kernel (an initrd root, mounted as the root) establishes it,
  and a small file system built from it by the VFS operations is where the properties of the file
  system are evaluated.
\<close>

section \<open>Mounting\<close>

text \<open>A change that only adds references, and holds nothing that is not referenced.\<close>

lemma grow_wf:
  assumes wf: "fs_wf s" and same: "inodes s' = inodes s" "freed s' = freed s" "alloc_no s' = alloc_no s"
    and V: "\<And>m. vops (vnodes s' m) = vops (vnodes s m) \<and> vtype (vnodes s' m) = vtype (vnodes s m) \<and>
      link_count (vnodes s' m) = link_count (vnodes s m) \<and> refcount (vnodes s m) \<le> refcount (vnodes s' m)"
    and H: "\<And>n. held s' n \<Longrightarrow> held s n \<or> live s n \<and> 0 < refcount (vnodes s' n) \<and> hard_target (inodes s n) = 0"
  shows "fs_wf s'"
proof -
  have live: "live s' = live s" using V same by (simp add: fun_eq_iff live_def)
  have al: "aliases s' = aliases s" using same by (simp add: fun_eq_iff aliases_def live)
  have st: "stable s n \<Longrightarrow> stable s' n" for n using V [of n] by (auto simp: stable_def)
  have nw: "node_wf s' n" if "node_wf s n" for n
    using node_wfD [OF that] st V unfolding node_wf_def live al same by simp
  have "live s' n \<and> 0 < refcount (vnodes s' n) \<and> hard_target (inodes s' n) = 0" if "held s' n" for n
    using H [OF that] wf_held [OF wf, of n] V [of n] unfolding live same by auto
  then show ?thesis using wf nw unfolding fs_wf_def live same by blast
qed

lemma dir_not_alias: "fs_wf s \<Longrightarrow> live s n \<Longrightarrow> vtype (vnodes s n) = VFS_NODE_DIR \<Longrightarrow> hard_target (inodes s n) = 0"
  using node_wfD(7) [of s n] wf_node by auto

lemma validate_root_mount_OK:
  "validate_root_mount T m s = VFS_STATUS_OK \<Longrightarrow>
    m \<noteq> 0 \<and> mroot (mounts s m) \<noteq> 0 \<and> vtype (vnodes s (mroot (mounts s m))) = VFS_NODE_DIR"
  by (auto simp: validate_root_mount_def split: if_splits)

lemma mount_root_wf:
  assumes wf: "fs_wf s" and r: "live s (mroot (mounts s m))" and "vfs_mount_root initrd_tables m s = (st, s')"
  shows "fs_wf s'"
proof (cases "validate_root_mount initrd_tables m s = VFS_STATUS_OK \<and> root_mount s = 0")
  case False
  then show ?thesis using assms by (auto simp: vfs_mount_root_def Let_def split: if_splits)
next
  case True
  define r where "r = mroot (mounts s m)"
  note v = validate_root_mount_OK [of initrd_tables m s, folded r_def]
  define s1 where "s1 = vfs_vnode_borrow r (upd_vnode r (\<lambda>v. v\<lparr>vmount := m\<rparr>)
    ((upd_mount m (\<lambda>x. x\<lparr>point := 0, mparent := 0\<rparr>) s)\<lparr>root_mount := m\<rparr>))"
  have h: "hard_target (inodes s r) = 0" using dir_not_alias [OF wf] assms(2) v True by (simp add: r_def)
  have mt: "mounts s1 k = (if k = m then (mounts s m)\<lparr>point := 0, mparent := 0\<rparr> else mounts s k)"
      "cwd s1 = cwd s" "files s1 = files s" "freed_files s1 = freed_files s" "root_mount s1 = m" "root_node s1 = r" for k
    by (simp_all add: s1_def upd_mount_def r_def root_node_def)
  have i1: "inodes s1 = inodes s" by (simp add: s1_def upd_mount_def)
  have lv: "live s1 n = live s n" for n by (simp add: s1_def live_def upd_mount_def)
  have vm: "vmount (vnodes s1 n) = (if n = r then m else vmount (vnodes s n))" for n
    by (simp add: s1_def upd_mount_def)
  have rc: "0 < refcount (vnodes s1 r)" using v True by (simp add: s1_def)
  have H: "held s n \<or> n = r" if "held s1 n" for n
    using that unfolding held_def mounted_def lv by (auto simp: mt vm split: if_splits) (auto simp: r_def)
  have wf1: "fs_wf s1"
    by (rule grow_wf [OF wf]) (use H h assms(2) rc in \<open>auto simp: s1_def upd_mount_def r_def\<close>)
  have "s' = s1 \<or> s' = (vfs_vnode_borrow r s1)\<lparr>cwd := r\<rparr>"
    using assms(3) True unfolding vfs_mount_root_def s1_def r_def
    by (auto simp: Let_def proc_set_cwd_def upd_mount_def proc_get_cwd_def vfs_vnode_release_def split: if_splits)
  moreover have "fs_wf ((vfs_vnode_borrow r s1)\<lparr>cwd := r\<rparr>)"
  proof (rule grow_wf [OF wf1])
    fix n assume "held ((vfs_vnode_borrow r s1)\<lparr>cwd := r\<rparr>) n"
    then have "held s1 n \<or> n = r"
      by (auto simp: held_def mounted_def live_def no_root_def root_node_def)
    then show "held s1 n \<or> live s1 n \<and> 0 < refcount (vnodes ((vfs_vnode_borrow r s1)\<lparr>cwd := r\<rparr>) n) \<and> hard_target (inodes s1 n) = 0"
      using h assms(2) rc by (auto simp: lv i1 r_def)
  qed simp_all
  ultimately show ?thesis using wf1 by auto
qed

lemma mount_wf:
  assumes wf: "fs_wf s" and r: "live s (mroot (mounts s m))" "live s p" and mo: "vfs_mount initrd_tables p m q s = (st, s')"
  shows "fs_wf s'"
proof (cases "st = VFS_STATUS_OK")
  case False
  then show ?thesis using assms by (auto simp: vfs_mount_def Let_def split: if_splits)
next
  case True
  define r where "r = mroot (mounts s m)"
  have ok: "validate_root_mount initrd_tables m s = VFS_STATUS_OK" "vtype (vnodes s p) = VFS_NODE_DIR"
    using mo True by (auto simp: vfs_mount_def Let_def split: if_splits)
  note v = validate_root_mount_OK [OF ok(1), folded r_def]
  have s': "s' = vfs_vnode_borrow r (vfs_vnode_borrow p (upd_vnode r (\<lambda>v. v\<lparr>vmount := m\<rparr>) (upd_vnode p (\<lambda>v. v\<lparr>vmount := m\<rparr>)
      (upd_mount m (\<lambda>x. x\<lparr>point := p, mparent := q\<rparr>) s))))"
    using mo True by (auto simp: vfs_mount_def Let_def upd_mount_def r_def split: if_splits)
  have h: "hard_target (inodes s r) = 0" "hard_target (inodes s p) = 0"
    using dir_not_alias [OF wf] r v ok(2) by (simp_all add: r_def)
  have mt: "mounts s' k = (if k = m then (mounts s m)\<lparr>point := p, mparent := q\<rparr> else mounts s k)"
      "cwd s' = cwd s" "files s' = files s" "freed_files s' = freed_files s" "root_mount s' = root_mount s"
      "root_node s' = root_node s" for k
    by (simp_all add: s' upd_mount_def root_node_def)
  have lv: "live s' n = live s n" for n by (simp add: s' live_def upd_mount_def)
  have vm: "vmount (vnodes s' n) = (if n = r \<or> n = p then m else vmount (vnodes s n))" for n
    by (simp add: s' upd_mount_def)
  have rc: "0 < refcount (vnodes s' r)" "0 < refcount (vnodes s' p)"
    using v live_nonzero [OF r(2)] by (simp_all add: s')
  have M: "mounted s' \<subseteq> insert m (mounted s)" by (auto simp: mounted_def lv vm)
  have H: "held s n \<or> n = r \<or> n = p" if "held s' n" for n
    using that M unfolding held_def by (auto simp: mt no_root_def r_def split: if_splits)
  show ?thesis
  proof (rule grow_wf [OF wf])
    fix n assume "held s' n"
    then show "held s n \<or> live s n \<and> 0 < refcount (vnodes s' n) \<and> hard_target (inodes s n) = 0"
      using H h r rc by (auto simp: r_def)
  qed (auto simp: s' upd_mount_def)
qed

section \<open>Boot\<close>

text \<open>The state before the initrd is loaded: no node, no mount, no open file, one process.\<close>

definition blank_fs :: fs where
  "blank_fs =
     \<lparr>vnodes = (\<lambda>_. \<lparr>vops = 0, vtype = VFS_NODE_FILE, refcount = 0, link_count = 0, accessed_timestamp = 0,
        modified_timestamp = 0, changed_mdt_timestamp = 0, vmount = 0\<rparr>),
      inodes = (\<lambda>_. \<lparr>number = 0, iname = [], name_owned = False, ibuf = None, bufsize = 0, buf_owned = False,
        ilen = 0, iaccessed = 0, imodified = 0, ichanged = 0, iparent = 0, hard_target = 0, children = []\<rparr>),
      mounts = (\<lambda>_. \<lparr>point = 0, mroot = 0, mparent = 0\<rparr>),
      files = (\<lambda>_. \<lparr>fvnode = 0, fops = 0, fflags = 0, frefcount = 0, foffset = 0, d_current = 0\<rparr>),
      root_mount = 0, current_process = True, cwd = 0, fds = replicate MAX_FDS 0, inode_count = 0, clock = 1000,
      alloc_no = 0, alloc_fails = (\<lambda>_. False), freed = [], freed_files = []\<rparr>"

lemma blank_wf: "fs_wf blank_fs"
  by (auto simp: fs_wf_def blank_fs_def live_def held_def mounted_def no_root_def root_node_def)

lemma create_root_wf:
  assumes wf: "fs_wf s" and "create_root s = (n, s')" "n \<noteq> 0"
  shows "fs_wf s' \<and> live s' n \<and> vtype (vnodes s' n) = VFS_NODE_DIR \<and> link_count (vnodes s' n) = 1 \<and> n = Suc (alloc_no s)"
proof -
  obtain a s1 where a: "try_alloc s = (a, s1)" by (metis surj_pair)
  have n: "n = Suc (alloc_no s)" and s': "s' = new_inode n [] False 0 VFS_NODE_DIR s1"
    and s1: "s1 = s\<lparr>alloc_no := Suc (alloc_no s)\<rparr>"
    using assms(2,3) a try_alloc_cases [OF a] by (auto simp: create_root_def split: if_splits)
  note nf = new_inode_fields [where s = s1 and n = n and name = "[]" and own = False and d = 0 and ty = VFS_NODE_DIR, folded s']
  have nl: "\<not> live s n" "n \<notin> set (freed s)" using live_le [OF wf, of n] wf n by (auto simp: fs_wf_def)
  have o: "m \<noteq> n \<Longrightarrow> vnodes s' m = vnodes s m \<and> inodes s' m = inodes s m" for m using nf(5,6) by (simp add: s1)
  have lv: "live s' m \<longleftrightarrow> live s m \<or> m = n" for m
    using o [of m] nf(2,7) nl n by (cases "m = n") (auto simp: live_def s1)
  have al: "aliases s' m = aliases s m" if "m \<noteq> 0" for m
  proof -
    have "a \<in> aliases s' m \<longleftrightarrow> a \<in> aliases s m" for a
      using o [of a] nf(14) nl lv that by (cases "a = n") (auto simp: aliases_def)
    then show ?thesis by blast
  qed
  have ne: "m \<noteq> 0 \<Longrightarrow> live s m \<Longrightarrow> m \<noteq> n" for m using nl by blast
  have "node_wf s' m" if l: "live s m" for m
  proof -
    note w = node_wfD [OF wf_node [OF wf l]]
    have m: "m \<noteq> n" "m \<noteq> 0" using l nl live_nonzero by blast+
    have h: "hard_target (inodes s m) \<noteq> 0 \<Longrightarrow> hard_target (inodes s m) \<noteq> n"
      "iparent (inodes s m) \<noteq> 0 \<Longrightarrow> iparent (inodes s m) \<noteq> n" using w(6,7) nl by auto
    have c: "c \<in> set (children (inodes s m)) \<Longrightarrow> c \<noteq> n" for c using w(4) nl by blast
    show ?thesis unfolding node_wf_def
      using w h o [OF h(1)] o [OF h(2)] o [OF c] al [OF m(2)] n nf(3)
      by (simp add: o [OF m(1)] lv s1 stable_def)
  qed
  moreover have "node_wf s' n"
  proof -
    have "aliases s n = {}" using aliases_live [OF wf, of _ n] nl n by blast
    then show ?thesis using nf al [of n] n by (simp add: node_wf_def stable_def s1)
  qed
  moreover have "held s' m = held s m" for m
  proof -
    have "mounted s' = mounted s"
      using o lv nf(9) nl by (auto simp: mounted_def) metis+
    then show ?thesis using nf(1) by (simp add: held_def same_outside_def s1 no_root_def root_node_def)
  qed
  ultimately have "fs_wf s'"
    using wf_held [OF wf] lv o nl nf(2,3) wf unfolding fs_wf_def by (auto simp: s1) metis+
  then show ?thesis using lv nf(8,10) n by simp
qed

text \<open>Boot: the root and its mount, as \<open>load_ustar\<close> leaves them for an empty archive, mounted as the root.\<close>

definition boot_fs :: fs where
  "boot_fs =
     (let (root, s) = create_root blank_fs; (m, s) = try_alloc s;
          s = upd_mount m (\<lambda>_. \<lparr>point = 0, mroot = root, mparent = 0\<rparr>) s
      in snd (vfs_mount_root initrd_tables m s))"

section \<open>A small file system\<close>

text \<open>A booted system: below the root (node 1, mounted as mount 2 and the working directory) the
  directory \<open>bin\<close> (3) with the file \<open>sh\<close> (5), the file \<open>a\<close> (7) with a hard link \<open>l\<close> (9) to it, and a symbolic link
  \<open>s\<close> (11) to \<open>/bin\<close>.\<close>

definition vn :: "vfs_node_type \<Rightarrow> nat \<Rightarrow> nat \<Rightarrow> nat \<Rightarrow> vnode" where
  "vn ty refs links m = \<lparr>vops = 1, vtype = ty, refcount = refs, link_count = links, accessed_timestamp = 5,
     modified_timestamp = 5, changed_mdt_timestamp = 5, vmount = m\<rparr>"

definition ino :: "string \<Rightarrow> u8 list option \<Rightarrow> u64 \<Rightarrow> nat \<Rightarrow> nat \<Rightarrow> nat list \<Rightarrow> inode" where
  "ino name buf len parent target cs = \<lparr>number = 0, iname = name, name_owned = True, ibuf = buf,
     bufsize = (case buf of None \<Rightarrow> 0 | Some b \<Rightarrow> of_nat (length b)), buf_owned = (buf \<noteq> None), ilen = len,
     iaccessed = 5, imodified = 5, ichanged = 5, iparent = parent, hard_target = target, children = cs\<rparr>"

definition small_fs :: fs where
  "small_fs =
     \<lparr>vnodes = (\<lambda>n. if n = 1 then vn VFS_NODE_DIR 2 1 2 else if n = 3 then vn VFS_NODE_DIR 0 1 0
        else if n = 5 then vn VFS_NODE_FILE 0 1 0 else if n = 7 then vn VFS_NODE_FILE 0 2 0
        else if n = 9 then vn VFS_NODE_FILE 0 1 0 else if n = 11 then vn VFS_NODE_SYMLINK 0 1 0
        else vnodes blank_fs 0),
      inodes = (\<lambda>n. if n = 1 then ino [] None 4 0 0 [3, 7, 9, 11] else if n = 3 then ino ''bin'' None 1 1 0 [5]
        else if n = 5 then ino ''sh'' None 0 3 0 [] else if n = 7 then ino ''a'' (Some [104, 105, 33, 0]) 3 1 0 []
        else if n = 9 then ino ''l'' None 0 1 7 [] else if n = 11 then ino ''s'' (Some (str_bytes ''/bin'' @ [0])) 4 1 0 []
        else inodes blank_fs 0),
      mounts = (\<lambda>m. \<lparr>point = 0, mroot = (if m = 2 then 1 else 0), mparent = 0\<rparr>),
      files = files blank_fs, root_mount = 2, current_process = True, cwd = 1, fds = replicate MAX_FDS 0,
      inode_count = 6, clock = 1000, alloc_no = 12, alloc_fails = (\<lambda>_. False), freed = [], freed_files = []\<rparr>"

lemma small_live: "live small_fs n \<longleftrightarrow> n \<in> {1, 3, 5, 7, 9, 11}"
  by (simp add: live_def small_fs_def vn_def blank_fs_def)

lemma small_aliases: "aliases small_fs n = (if n = 7 then {9} else if n = 0 then {1, 3, 5, 7, 11} else {})"
  unfolding aliases_def small_live by (auto simp: small_fs_def ino_def)

lemma small_node_wfs:
  "node_wf small_fs 1" "node_wf small_fs 3" "node_wf small_fs 5" "node_wf small_fs 7" "node_wf small_fs 9" "node_wf small_fs 11"
  unfolding node_wf_def small_aliases small_live
  by (simp_all add: small_fs_def vn_def ino_def stable_def)

lemma small_node_wf: "n \<in> {1, 3, 5, 7, 9, 11} \<Longrightarrow> node_wf small_fs n"
  using small_node_wfs by blast

lemma small_held: "held small_fs n \<longleftrightarrow> n = 1"
proof -
  have "mounted small_fs = {2}"
    unfolding mounted_def small_live by (auto simp: small_fs_def vn_def intro: exI [of _ 1])
  then show ?thesis by (auto simp: held_def no_root_def root_node_def small_fs_def blank_fs_def)
qed

lemma small_wf: "fs_wf small_fs"
  using small_node_wf unfolding fs_wf_def small_held small_live
  by (simp add: small_fs_def vn_def ino_def)

section \<open>The properties on the small file system\<close>

theorem vfs_lookup_balanced_witness:
  "fs_wf small_fs \<and> vfs_lookup initrd_tables ''/s/sh'' small_fs = (VFS_STATUS_OK, 5, vfs_vnode_borrow 5 small_fs)"
proof -
  obtain st n s' where l: "vfs_lookup initrd_tables ''/s/sh'' small_fs = (st, n, s')" by (metis surj_pair)
  have "fst (vfs_lookup initrd_tables ''/s/sh'' small_fs) = VFS_STATUS_OK \<and> fst (snd (vfs_lookup initrd_tables ''/s/sh'' small_fs)) = 5"
    by code_simp
  then show ?thesis using vfs_lookup_balanced [OF small_wf l] small_wf l by simp
qed

theorem vfs_getcwd_balanced_witness: "snd (snd (vfs_getcwd initrd_tables 3 100 small_fs)) = small_fs"
proof -
  obtain st p s' where g: "vfs_getcwd initrd_tables 3 100 small_fs = (st, p, s')" by (metis surj_pair)
  show ?thesis using vfs_getcwd_balanced [OF small_wf _ g] g by (simp add: small_live)
qed

theorem vfs_create_entry_witness:
  "let (st, r, s') = vfs_create initrd_tables 3 ''x'' True small_fs
   in st = VFS_STATUS_OK \<and> r = 13 \<and> fs_wf s' \<and> find_child s' 3 ''x'' = Some 13"
proof -
  obtain st r s' where c: "vfs_create initrd_tables 3 ''x'' True small_fs = (st, r, s')" by (metis surj_pair)
  have e: "dir_mutation_allowed 3 ''x'' small_fs = VFS_STATUS_OK" "alloc_fails small_fs = (\<lambda>_. False)" "find_child small_fs 3 ''x'' = None"
    "alloc_no small_fs = 12" "0 < link_count (vnodes small_fs 3)"
    by (code_simp, simp add: small_fs_def, code_simp+)
  show ?thesis using vfs_create_entry [OF small_wf _ e(5) c] e c by (simp add: small_live)
qed

theorem vfs_unlink_entry_witness:
  "let (st, s') = vfs_unlink initrd_tables 1 ''l'' 0 small_fs
   in st = VFS_STATUS_OK \<and> fs_wf s' \<and> find_child s' 1 ''a'' = Some 7 \<and> 7 \<notin> set (freed s')"
proof -
  obtain st s' where c: "vfs_unlink initrd_tables 1 ''l'' 0 small_fs = (st, s')" by (metis surj_pair)
  have e: "fst (vfs_unlink initrd_tables 1 ''l'' 0 small_fs) = VFS_STATUS_OK" "find_child small_fs 1 ''l'' = Some 9"
    "resolved small_fs 9 = 7" "link_count (vnodes small_fs 7) \<noteq> 1" "find_child small_fs 1 ''a'' = Some 7" by code_simp+
  show ?thesis using vfs_unlink_entry [OF small_wf _ c] e c by (auto simp: small_live)
qed

theorem vfs_rmdir_entry_witness:
  "vfs_rmdir initrd_tables 1 ''bin'' 0 small_fs = (VFS_STATUS_NOTEMPTY, small_fs)"
proof -
  obtain st s' where c: "vfs_rmdir initrd_tables 1 ''bin'' 0 small_fs = (st, s')" by (metis surj_pair)
  have e: "dir_mutation_allowed 1 ''bin'' small_fs = VFS_STATUS_OK" "find_child small_fs 1 ''bin'' = Some 3"
    "vtype (vnodes small_fs 3) = VFS_NODE_DIR" "children (inodes small_fs 3) = [5]" by code_simp+
  show ?thesis using vfs_rmdir_entry [OF small_wf _ c] e c by (simp add: small_live)
qed

end
