(* ===== verification/Ustar.thy ===== *)
theory Ustar
  imports Vfs_Boot
begin

text \<open>
  Loading the initrd: the reader of ustar archives of kernel/fs/initrd.c and kernel/include/fs/ustar.h, which builds the
  file tree of \<open>Initrd\<close> from an archive in memory. The archive is a list of bytes; a position in it is a number. A result
  \<open>None\<close> stands for an access outside the archive, a null pointer that is followed, or a loop that does
  not end.
\<close>

section \<open>Headers\<close>

abbreviation HOJICHA_USTAR_HEADER_LEN_BYTES :: nat where "HOJICHA_USTAR_HEADER_LEN_BYTES \<equiv> 512"

definition byte_at :: "u8 list \<Rightarrow> nat \<Rightarrow> u8 option" where
  "byte_at buf i = (if i < length buf then Some (buf ! i) else None)"

text \<open>The fields of a header at \<open>pos\<close> that are read; \<open>type\<close> is one byte.\<close>

definition filesize_bytes_oct :: "u8 list \<Rightarrow> nat \<Rightarrow> u8 list" where
  "filesize_bytes_oct buf pos = take 12 (drop (pos + 124) buf)"

definition lmut_oct :: "u8 list \<Rightarrow> nat \<Rightarrow> u8 list" where
  "lmut_oct buf pos = take 12 (drop (pos + 136) buf)"

definition entry_type :: "u8 list \<Rightarrow> nat \<Rightarrow> u8" where
  "entry_type buf pos = buf ! (pos + 156)"

abbreviation linked_filename :: "nat \<Rightarrow> nat" where "linked_filename pos \<equiv> pos + 157"

text \<open>Trailing zero bytes are dropped; every other byte counts as a digit, since nothing is checked.\<close>

definition ustar_oct2dec :: "u8 list \<Rightarrow> u64" where
  "ustar_oct2dec str =
     foldl (\<lambda>n c. n * 8 + word_of_int (sint c - 48)) 0 (rev (dropWhile (\<lambda>c. c = 0) (rev str)))"

fun get_entry_len :: "u8 list \<Rightarrow> nat option" where
  "get_entry_len [] = None"
| "get_entry_len (c # cs) = (if c \<noteq> 0 then map_option Suc (get_entry_len cs) else Some 0)"

definition get_header_size :: "u8 list \<Rightarrow> nat \<Rightarrow> u64" where
  "get_header_size buf pos = ((ustar_oct2dec (filesize_bytes_oct buf pos) + 511) div 512 + 1) * 512"

definition is_zero_block :: "u8 list \<Rightarrow> nat \<Rightarrow> bool" where
  "is_zero_block buf pos = list_all (\<lambda>b. b = 0) (take HOJICHA_USTAR_HEADER_LEN_BYTES (drop pos buf))"

text \<open>The start of the last component of a name of \<open>len\<close> bytes at \<open>pos\<close>, as an offset from \<open>pos\<close>. The second loop
  has no bound: without a slash it runs on before the name, and the offset is then a negative number as a word.\<close>

fun strip_len :: "u8 list \<Rightarrow> nat \<Rightarrow> nat \<Rightarrow> nat" where
  "strip_len buf pos 0 = 0"
| "strip_len buf pos (Suc k) = (if byte_at buf (pos + k) = Some 47 then strip_len buf pos k else Suc k)"

fun scan_back :: "u8 list \<Rightarrow> nat \<Rightarrow> nat option" where
  "scan_back buf 0 = None"
| "scan_back buf (Suc a) =
     (case byte_at buf a of None \<Rightarrow> None | Some c \<Rightarrow> if c \<noteq> 47 then scan_back buf a else Some a)"

definition get_name_start_idx :: "u8 list \<Rightarrow> nat \<Rightarrow> nat \<Rightarrow> u64 option" where
  "get_name_start_idx buf pos len =
     map_option (\<lambda>a. word_of_int (int a + 1 - int pos)) (scan_back buf (pos + strip_len buf pos len))"

text \<open>\<open>len\<close> bytes at an offset from \<open>pos\<close>; \<open>None\<close> if they are not all in the archive.\<close>

definition text_at :: "u8 list \<Rightarrow> nat \<Rightarrow> u64 \<Rightarrow> u64 \<Rightarrow> string option" where
  "text_at buf pos off len =
     (let a = nat (int pos + sint off)
      in if a + unat len \<le> length buf then Some (bytes_str (take (unat len) (drop a buf))) else None)"

section \<open>Directories\<close>

text \<open>The two scans over a path of \<open>len\<close> bytes at \<open>pos\<close>: over slashes, and over anything else.\<close>

function scan_path :: "u8 list \<Rightarrow> nat \<Rightarrow> nat \<Rightarrow> bool \<Rightarrow> nat \<Rightarrow> nat option" where
  "scan_path buf pos len slash i =
     (if i < len
      then (case byte_at buf (pos + i) of None \<Rightarrow> None | Some c \<Rightarrow> if (c = 47) = slash then scan_path buf pos len slash (Suc i) else Some i)
      else Some i)"
  by auto
termination by (relation "measure (\<lambda>(_, _, len, _, i). len - i)") auto

declare scan_path.simps [simp del]

lemma scan_path_ge: "scan_path buf pos len slash i = Some j \<Longrightarrow> i \<le> j"
proof (induction buf pos len slash i arbitrary: j rule: scan_path.induct)
  case (1 buf pos len slash i)
  then show ?case by (subst (asm) (2) scan_path.simps) (auto split: if_splits option.splits dest: Suc_leD)
qed

definition path_begin :: "u8 list \<Rightarrow> nat \<Rightarrow> nat \<Rightarrow> nat" where
  "path_begin buf pos len =
     (if 2 \<le> len \<and> byte_at buf pos = Some 46 \<and> byte_at buf (pos + 1) = Some 47 then 2 else 0)"

text \<open>\<open>Some 0\<close> is the null pointer.\<close>

function dir_walk :: "u8 list \<Rightarrow> nat \<Rightarrow> nat \<Rightarrow> nat \<Rightarrow> nat \<Rightarrow> fs \<Rightarrow> nat option" where
  "dir_walk buf pos len i cur s =
     (if i < len
      then
        (case scan_path buf pos len True i of
           None \<Rightarrow> None
         | Some st \<Rightarrow>
             if len \<le> st then Some cur
             else
               (case scan_path buf pos len False st of
                  None \<Rightarrow> None
                | Some e \<Rightarrow>
                    (case find_child s cur (bytes_str (take (e - st) (drop (pos + st) buf))) of
                       None \<Rightarrow> Some 0
                     | Some nx \<Rightarrow> if vtype (vnodes s nx) \<noteq> VFS_NODE_DIR then Some 0 else dir_walk buf pos len (e + 1) nx s)))
      else Some cur)"
  by auto
termination
  by (relation "measure (\<lambda>(_, _, len, i, _). len - i)") (auto dest!: scan_path_ge)

declare dir_walk.simps [simp del]

definition dir_lookup :: "u8 list \<Rightarrow> nat \<Rightarrow> nat \<Rightarrow> nat \<Rightarrow> fs \<Rightarrow> nat option" where
  "dir_lookup buf pos len root s = (if root = 0 then Some 0 else dir_walk buf pos len (path_begin buf pos len) root s)"

text \<open>A directory that cannot be allocated is a null pointer that \<open>add_child\<close> follows.\<close>

function prefix_walk :: "u8 list \<Rightarrow> nat \<Rightarrow> nat \<Rightarrow> nat \<Rightarrow> nat \<Rightarrow> fs \<Rightarrow> (nat \<times> fs) option" where
  "prefix_walk buf pos len i cur s =
     (if i < len
      then
        (case scan_path buf pos len True i of
           None \<Rightarrow> None
         | Some st \<Rightarrow>
             if len \<le> st then Some (cur, s)
             else
               (case scan_path buf pos len False st of
                  None \<Rightarrow> None
                | Some e \<Rightarrow>
                    (let name = bytes_str (take (e - st) (drop (pos + st) buf))
                     in case find_child s cur name of
                          None \<Rightarrow>
                            (case create_dir name cur s of
                               (nx, s) \<Rightarrow> if nx = 0 then None else prefix_walk buf pos len (e + 1) nx (add_child cur nx s))
                        | Some nx \<Rightarrow> if vtype (vnodes s nx) \<noteq> VFS_NODE_DIR then Some (0, s) else prefix_walk buf pos len (e + 1) nx s)))
      else Some (cur, s))"
  by auto
termination
  by (relation "measure (\<lambda>(_, _, len, i, _). len - i)") (auto dest!: scan_path_ge)

declare prefix_walk.simps [simp del]

definition get_or_create_prefix :: "u8 list \<Rightarrow> nat \<Rightarrow> nat \<Rightarrow> nat \<Rightarrow> fs \<Rightarrow> (nat \<times> fs) option" where
  "get_or_create_prefix buf pos len root s =
     (case dir_lookup buf pos len root s of
        None \<Rightarrow> None
      | Some d \<Rightarrow> if d \<noteq> 0 then Some (d, s) else prefix_walk buf pos len (path_begin buf pos len) root s)"

definition parent_dir :: "u8 list \<Rightarrow> nat \<Rightarrow> u64 \<Rightarrow> nat \<Rightarrow> fs \<Rightarrow> (nat \<times> fs) option" where
  "parent_dir buf pos off root s = (if off = 2 then Some (root, s) else get_or_create_prefix buf pos (unat off) root s)"

section \<open>Entries\<close>

definition timestamp_of :: "u8 list \<Rightarrow> nat \<Rightarrow> int" where
  "timestamp_of buf pos = sint (ustar_oct2dec (lmut_oct buf pos))"

definition stamp :: "nat \<Rightarrow> int \<Rightarrow> fs \<Rightarrow> fs" where
  "stamp n t s = sync_vnode_timestamps n (set_inode_timestamps n t t t s)"

text \<open>The three kinds of entries. The status \<open>VFS_STATUS_OK\<close> means that the loop goes on.\<close>

definition load_file :: "u8 list \<Rightarrow> nat \<Rightarrow> nat \<Rightarrow> nat \<Rightarrow> fs \<Rightarrow> (vfs_status \<times> fs) option" where
  "load_file buf pos entry_len root s =
     (case get_name_start_idx buf pos entry_len of
        None \<Rightarrow> None
      | Some off \<Rightarrow>
          (let (n, s) = try_alloc s
           in if n = 0 then Some (VFS_STATUS_NOMEM, s)
              else
                (case text_at buf pos off (of_nat entry_len - off) of
                   None \<Rightarrow> None
                 | Some name \<Rightarrow>
                     (let size = ustar_oct2dec (filesize_bytes_oct buf pos); t = timestamp_of buf pos;
                          s = s\<lparr>inodes := (inodes s)(n := \<lparr>number = inode_count s, iname = name, name_owned = False,
                                ibuf = Some (take (unat size) (drop (pos + HOJICHA_USTAR_HEADER_LEN_BYTES) buf)), bufsize = size,
                                buf_owned = False, ilen = size, iaccessed = 0, imodified = 0, ichanged = 0, iparent = 0,
                                hard_target = 0, children = []\<rparr>), inode_count := inode_count s + 1\<rparr>;
                          s = init_vnode n VFS_NODE_FILE (set_inode_timestamps n t t t s)
                      in case parent_dir buf pos off root s of
                           None \<Rightarrow> None
                         | Some (p, s) \<Rightarrow>
                             if p = 0 then Some (VFS_STATUS_NOTDIR, s\<lparr>freed := n # freed s\<rparr>)
                             else Some (VFS_STATUS_OK, add_child p n (upd_inode n (\<lambda>i. i\<lparr>iparent := p\<rparr>) s))))))"

definition load_symlink :: "u8 list \<Rightarrow> nat \<Rightarrow> nat \<Rightarrow> nat \<Rightarrow> fs \<Rightarrow> (vfs_status \<times> fs) option" where
  "load_symlink buf pos entry_len root s =
     (case (get_name_start_idx buf pos entry_len, get_entry_len (drop (linked_filename pos) buf)) of
        (Some off, Some target_len) \<Rightarrow>
          (case parent_dir buf pos off root s of
             None \<Rightarrow> None
           | Some (p, s) \<Rightarrow>
               if p = 0 then Some (VFS_STATUS_NOTDIR, s)
               else
                 (case text_at buf pos off (of_nat entry_len - off) of
                    None \<Rightarrow> None
                  | Some name \<Rightarrow>
                      (case initrd_symlink p name (bytes_str (take target_len (drop (linked_filename pos) buf))) s of
                         (st, n, s) \<Rightarrow>
                           if st \<noteq> VFS_STATUS_OK then Some (st, s)
                           else Some (VFS_STATUS_OK, vfs_vnode_release initrd_tables n (stamp n (timestamp_of buf pos) s)))))
      | _ \<Rightarrow> None)"

definition load_dir :: "u8 list \<Rightarrow> nat \<Rightarrow> nat \<Rightarrow> nat \<Rightarrow> fs \<Rightarrow> (vfs_status \<times> fs) option" where
  "load_dir buf pos entry_len root s =
     (let entry_len = (if 0 < entry_len \<and> byte_at buf (pos + entry_len - 1) = Some 47 then entry_len - 1 else entry_len)
      in if entry_len \<le> 2 then Some (VFS_STATUS_OK, s)
         else
           (case get_name_start_idx buf pos entry_len of
              None \<Rightarrow> None
            | Some off \<Rightarrow>
                (case parent_dir buf pos off root s of
                   None \<Rightarrow> None
                 | Some (p, s) \<Rightarrow>
                     if p = 0 then Some (VFS_STATUS_NOTDIR, s)
                     else
                       (case text_at buf pos off (of_nat entry_len - off) of
                          None \<Rightarrow> None
                        | Some name \<Rightarrow>
                            (case find_child s p name of
                               Some d \<Rightarrow> Some (VFS_STATUS_OK, stamp d (timestamp_of buf pos) s)
                             | None \<Rightarrow>
                                 (case create_dir name p s of
                                    (d, s) \<Rightarrow>
                                      if d = 0 then Some (VFS_STATUS_NOMEM, s)
                                      else Some (VFS_STATUS_OK, stamp d (timestamp_of buf pos) (add_child p d s))))))))"

text \<open>One round of the loop, for an entry that is not a block of zeros.\<close>

definition load_entry :: "u8 list \<Rightarrow> nat \<Rightarrow> nat \<Rightarrow> fs \<Rightarrow> (vfs_status \<times> fs) option" where
  "load_entry buf pos root s =
     (case get_entry_len (drop pos buf) of
        None \<Rightarrow> None
      | Some entry_len \<Rightarrow>
          if entry_len = 2 \<and> byte_at buf pos = Some 46 \<and> byte_at buf (pos + 1) = Some 47
          then Some (VFS_STATUS_OK, stamp root (timestamp_of buf pos) s)
          else if entry_type buf pos = 48 \<or> entry_type buf pos = 0 then load_file buf pos entry_len root s
          else if entry_type buf pos = 50 then load_symlink buf pos entry_len root s
          else if entry_type buf pos = 53 then load_dir buf pos entry_len root s
          else Some (VFS_STATUS_OK, s))"

text \<open>The position is a 64-bit word: a size field can make it wrap, or stand still.\<close>

partial_function (option) load_loop :: "u8 list \<Rightarrow> nat \<Rightarrow> u64 \<Rightarrow> fs \<Rightarrow> (vfs_status \<times> fs) option" where
  "load_loop buf root pos s =
     (if unat (pos + 512) \<le> length buf
      then
        (if length buf < unat pos + 512 then None
         else if is_zero_block buf (unat pos) then Some (VFS_STATUS_OK, s)
         else
           (case load_entry buf (unat pos) root s of
              None \<Rightarrow> None
            | Some (st, s1) \<Rightarrow>
                if st \<noteq> VFS_STATUS_OK then Some (st, s1)
                else load_loop buf root (pos + get_header_size buf (unat pos)) s1))
      else Some (VFS_STATUS_OK, s))"

definition load_ustar :: "u8 list \<Rightarrow> fs \<Rightarrow> (vfs_status \<times> nat \<times> fs) option" where
  "load_ustar buf s =
     (let (root, s) = create_root s
      in if root = 0 then Some (VFS_STATUS_NOMEM, 0, s)
         else
           (case load_loop buf root 0 s of
              None \<Rightarrow> None
            | Some (st, s) \<Rightarrow>
                if st \<noteq> VFS_STATUS_OK then Some (st, 0, s)
                else
                  (let (m, s) = try_alloc s
                   in if m = 0 then Some (VFS_STATUS_NOMEM, 0, s)
                      else Some (VFS_STATUS_OK, m, upd_mount m (\<lambda>_. \<lparr>point = 0, mroot = root, mparent = 0\<rparr>) s))))"


section \<open>Archives of files\<close>

text \<open>What an archiver writes for a regular file in the top directory: its name, the time and its bytes.\<close>

fun oct_field :: "nat \<Rightarrow> nat \<Rightarrow> u8 list" where
  "oct_field 0 n = []"
| "oct_field (Suc k) n = oct_field k (n div 8) @ [of_nat (48 + n mod 8)]"

definition pad :: "nat \<Rightarrow> u8 list \<Rightarrow> u8 list" where
  "pad k xs = xs @ replicate (k - length xs) 0"





subsection \<open>Numbers\<close>

lemma length_oct_field [simp]: "length (oct_field k n) = k"
  by (induction k arbitrary: n) auto





subsection \<open>Names\<close>

lemma get_entry_len_append: "0 \<notin> set xs \<Longrightarrow> get_entry_len (xs @ 0 # ys) = Some (length xs)"
  by (induction xs) auto


lemma char_byte: "char_of (unat (of_nat (of_char c) :: u8)) = c"
  using nat_of_char_less_256 [of c] by (simp add: unat_of_nat take_bit_nat_eq_self)

lemma bytes_str_inverse [simp]: "bytes_str (str_bytes cs) = cs"
  by (simp add: bytes_str_def str_bytes_def comp_def char_byte)


subsection \<open>One entry\<close>

lemma length_pad [simp]: "length xs \<le> k \<Longrightarrow> length (pad k xs) = k"
  by (simp add: pad_def)

lemma take_pad: "take (length xs) (pad k xs @ ys) = xs"
  by (simp add: pad_def)





subsection \<open>The tree\<close>










section \<open>An archive that stops the boot\<close>

text \<open>The size field is not checked: the twelve bytes \<open>" 01"\<close> stand for -1023, whose rounded size is 0 modulo \<open>2 ^ 64\<close>, so
  the loop reads the same entry for ever. The entry has a type the loader skips.\<close>

definition looping_archive :: "u8 list" where
  "looping_archive = pad 124 [46, 47, 120] @ pad 12 [32, 48, 49] @ pad 20 [] @ [49] @ pad 355 []"

lemma load_loop_stands:
  assumes "\<not> is_zero_block buf (unat pos)" "unat pos + 512 \<le> length buf" "unat (pos + 512) \<le> length buf"
    "load_entry buf (unat pos) root s = Some (VFS_STATUS_OK, s)" "get_header_size buf (unat pos) = 0"
  shows "load_loop buf root pos s = None"
proof -
  have "(b, q, p, t) \<noteq> (buf, root, pos, s)" if "load_loop b q p t = Some r" for b q p t r
  proof (rule load_loop.raw_induct [OF _ that])
    fix f :: "u8 list \<Rightarrow> nat \<Rightarrow> u64 \<Rightarrow> fs \<Rightarrow> (vfs_status \<times> fs) option" and b q p t r
    assume "\<And>b q p t r. f b q p t = Some r \<Longrightarrow> (b, q, p, t) \<noteq> (buf, root, pos, s)"
    then have f: "f buf root pos s = None" by (metis not_None_eq)
    assume "(if unat (p + 512) \<le> length b
      then if length b < unat p + HOJICHA_USTAR_HEADER_LEN_BYTES then None
           else if is_zero_block b (unat p) then Some (VFS_STATUS_OK, t)
           else case load_entry b (unat p) q t of None \<Rightarrow> None
             | Some (st, s1) \<Rightarrow> if st \<noteq> VFS_STATUS_OK then Some (st, s1) else f b q (p + get_header_size b (unat p)) s1
      else Some (VFS_STATUS_OK, t)) = Some r"
    then show "(b, q, p, t) \<noteq> (buf, root, pos, s)" using assms f by auto
  qed
  then show ?thesis by (metis not_None_eq)
qed

text \<open>A file named \<open>./x\<close> of such a type: the boot does not end.\<close>

theorem looping_archive_loops: "load_ustar looping_archive blank_fs = None"
proof -
  have c: "create_root blank_fs = (1, snd (create_root blank_fs))" by (simp add: create_root_def try_alloc_def blank_fs_def)
  have "load_loop looping_archive 1 0 s = None" for s
  proof (rule load_loop_stands)
    show "get_header_size looping_archive (unat (0 :: u64)) = 0"
    proof -
      have "filesize_bytes_oct looping_archive (unat (0 :: u64)) = [32, 48, 49] @ replicate 9 0"
        by (simp add: looping_archive_def filesize_bytes_oct_def pad_def)
      moreover have "((ustar_oct2dec ([32, 48, 49] @ replicate 9 0) + 511) div 512 + 1) * 512 = (0 :: u64)" by code_simp
      ultimately show ?thesis by (simp only: get_header_size_def)
    qed
    show "load_entry looping_archive (unat (0 :: u64)) 1 s = Some (VFS_STATUS_OK, s)"
    proof -
      have e: "looping_archive = [46, 47, 120] @ 0 # replicate 120 0 @ pad 12 [32, 48, 49] @ pad 20 [] @ [49] @ pad 355 []"
        by (simp add: looping_archive_def pad_def replicate_Suc [of 120, simplified, symmetric])
      have "get_entry_len looping_archive = Some (length [46, 47, 120 :: u8])"
        by (subst e, rule get_entry_len_append) simp
      moreover have "entry_type looping_archive 0 = 49"
        by (simp add: entry_type_def looping_archive_def pad_def nth_append nth_Cons')
      ultimately show ?thesis by (simp add: load_entry_def)
    qed
  qed (simp_all add: looping_archive_def pad_def is_zero_block_def)
  then show ?thesis by (subst load_ustar_def, subst c) simp
qed

end
