(* ===== verification/Proc_Queue.thy ===== *)
theory Proc_Queue
  imports Hojicha_Prelude Fifo
begin

text \<open>
  The queues of processes (kernel/mp/proc_queue.c): a head and a tail pointer, and the processes
  linked through their own \<open>next\<close> field, so that a process can be in one queue only. The operations
  are given on the pointers (\<open>N\<close> is the field \<open>next\<close> of all processes, 0 the null pointer), and each
  is shown to do to the list of processes what its name says and to leave the links of every
  process outside the queue alone.
\<close>

section \<open>Operations\<close>

type_synonym links = "nat \<Rightarrow> nat"

record proc_queue =
  qhead :: nat
  qtail :: nat

definition proc_queue_init :: proc_queue where
  "proc_queue_init = \<lparr>qhead = 0, qtail = 0\<rparr>"

definition proc_queue_empty :: "proc_queue \<Rightarrow> bool" where
  "proc_queue_empty q \<longleftrightarrow> qhead q = 0"

definition proc_queue_head :: "proc_queue \<Rightarrow> nat" where
  "proc_queue_head q = qhead q"

definition proc_queue_tail :: "proc_queue \<Rightarrow> nat" where
  "proc_queue_tail q = qtail q"

definition proc_queue_push_head :: "proc_queue \<Rightarrow> nat \<Rightarrow> links \<Rightarrow> proc_queue \<times> links" where
  "proc_queue_push_head q p N =
     (if p = 0 then (q, N)
      else
        (let N = N(p := qhead q); q = q\<lparr>qhead := p\<rparr>
         in (if qtail q = 0 then q\<lparr>qtail := p\<rparr> else q, N)))"

definition proc_queue_push_tail :: "proc_queue \<Rightarrow> nat \<Rightarrow> links \<Rightarrow> proc_queue \<times> links" where
  "proc_queue_push_tail q p N =
     (if p = 0 then (q, N)
      else
        (let N = N(p := 0)
         in if qhead q = 0 then (q\<lparr>qhead := p, qtail := p\<rparr>, N)
            else (q\<lparr>qtail := p\<rparr>, N(qtail q := p))))"

definition proc_queue_pop_head :: "proc_queue \<Rightarrow> links \<Rightarrow> nat \<times> proc_queue \<times> links" where
  "proc_queue_pop_head q N =
     (if qhead q = 0 then (0, q, N)
      else
        (let p = qhead q; q = q\<lparr>qhead := N p\<rparr>; q = (if qhead q = 0 then q\<lparr>qtail := 0\<rparr> else q)
         in (p, q, N(p := 0))))"

definition proc_queue_insert_after :: "proc_queue \<Rightarrow> nat \<Rightarrow> nat \<Rightarrow> links \<Rightarrow> proc_queue \<times> links" where
  "proc_queue_insert_after q after p N =
     (if after = 0 \<or> p = 0 then (q, N)
      else
        (let N = N(p := N after); N = N(after := p)
         in (if qtail q = after then q\<lparr>qtail := p\<rparr> else q, N)))"

definition proc_queue_remove_after :: "proc_queue \<Rightarrow> nat \<Rightarrow> links \<Rightarrow> nat \<times> proc_queue \<times> links" where
  "proc_queue_remove_after q prev N =
     (if prev = 0 then proc_queue_pop_head q N
      else if N prev = 0 then (0, q, N)
      else
        (let p = N prev; N = N(prev := N p)
         in (p, if qtail q = p then q\<lparr>qtail := prev\<rparr> else q, N(p := 0))))"

text \<open>The loop of \<open>proc_queue_remove\<close>; \<open>prev\<close> is the process before \<open>cur\<close>.\<close>

partial_function (option) remove_loop ::
  "nat \<Rightarrow> nat \<Rightarrow> nat \<Rightarrow> proc_queue \<Rightarrow> links \<Rightarrow> (bool \<times> proc_queue \<times> links) option" where
  "remove_loop p prev cur q N =
     (if cur = 0 then Some (False, q, N)
      else if cur = p
      then
        (let q1 = (if prev = 0 then q\<lparr>qhead := N cur\<rparr> else q);
             N1 = (if prev = 0 then N else N(prev := N cur));
             q2 = (if qtail q1 = cur then q1\<lparr>qtail := prev\<rparr> else q1)
         in Some (True, q2, N1(cur := 0)))
      else remove_loop p cur (N cur) q N)"

definition proc_queue_remove :: "proc_queue \<Rightarrow> nat \<Rightarrow> links \<Rightarrow> (bool \<times> proc_queue \<times> links) option" where
  "proc_queue_remove q p N = (if p = 0 then Some (False, q, N) else remove_loop p 0 (qhead q) q N)"

text \<open>The search for the first process that satisfies \<open>P\<close>, with the process before it.\<close>

partial_function (option) find_loop ::
  "(nat \<Rightarrow> bool) \<Rightarrow> links \<Rightarrow> nat \<Rightarrow> nat \<Rightarrow> (bool \<times> nat \<times> nat) option" where
  "find_loop P N prev p =
     (if p = 0 then Some (False, 0, 0) else if P p then Some (True, prev, p) else find_loop P N p (N p))"

definition proc_queue_find :: "proc_queue \<Rightarrow> (nat \<Rightarrow> bool) \<Rightarrow> links \<Rightarrow> (bool \<times> nat \<times> nat) option" where
  "proc_queue_find q P N = find_loop P N 0 (qhead q)"

partial_function (option) find_last_loop :: "(nat \<Rightarrow> bool) \<Rightarrow> links \<Rightarrow> nat \<Rightarrow> nat \<Rightarrow> nat option" where
  "find_last_loop P N l p =
     (if p = 0 then Some l else find_last_loop P N (if P p then p else l) (N p))"

definition proc_queue_find_last :: "proc_queue \<Rightarrow> (nat \<Rightarrow> bool) \<Rightarrow> links \<Rightarrow> nat option" where
  "proc_queue_find_last q P N = find_last_loop P N 0 (qhead q)"

partial_function (option) find_last_prefix_loop :: "(nat \<Rightarrow> bool) \<Rightarrow> links \<Rightarrow> nat \<Rightarrow> nat \<Rightarrow> nat option" where
  "find_last_prefix_loop P N l p =
     (if p = 0 then Some l else if \<not> P p then Some l else find_last_prefix_loop P N p (N p))"

definition proc_queue_find_last_prefix :: "proc_queue \<Rightarrow> (nat \<Rightarrow> bool) \<Rightarrow> links \<Rightarrow> nat option" where
  "proc_queue_find_last_prefix q P N = find_last_prefix_loop P N 0 (qhead q)"

text \<open>\<open>proc_queue_for_each\<close>, with the effect of \<open>each\<close> on a state.\<close>

partial_function (option) for_each_loop :: "(nat \<Rightarrow> 's \<Rightarrow> 's) \<Rightarrow> links \<Rightarrow> nat \<Rightarrow> 's \<Rightarrow> 's option" where
  "for_each_loop each N p s = (if p = 0 then Some s else for_each_loop each N (N p) (each p s))"

definition proc_queue_for_each :: "proc_queue \<Rightarrow> (nat \<Rightarrow> 's \<Rightarrow> 's) \<Rightarrow> links \<Rightarrow> 's \<Rightarrow> 's option" where
  "proc_queue_for_each q each N s = for_each_loop each N (qhead q) s"

definition proc_queue_splice_prefix_tail ::
  "proc_queue \<Rightarrow> proc_queue \<Rightarrow> nat \<Rightarrow> links \<Rightarrow> proc_queue \<times> proc_queue \<times> links" where
  "proc_queue_splice_prefix_tail dst src l N =
     (if qhead src = 0 \<or> l = 0 then (dst, src, N)
      else
        (let first = qhead src; next = N l; src = src\<lparr>qhead := next\<rparr>;
             src = (if qtail src = l then src\<lparr>qtail := 0\<rparr> else src); N = N(l := 0)
         in if qhead dst = 0 then (dst\<lparr>qhead := first, qtail := l\<rparr>, src, N)
            else (dst\<lparr>qtail := l\<rparr>, src, N(qtail dst := first))))"

section \<open>The list of a queue\<close>

definition qrep :: "links \<Rightarrow> proc_queue \<Rightarrow> nat list \<Rightarrow> bool" where
  "qrep N q ps \<longleftrightarrow> nseg N (qhead q) ps 0 \<and> qtail q = (if ps = [] then 0 else last ps)"

lemma last_pos: "0 \<notin> set ps \<Longrightarrow> ps \<noteq> [] \<Longrightarrow> 0 < (last ps :: nat)"
  by (metis gr0I last_in_set)

lemma qrep_facts:
  assumes "qrep N q ps"
  shows "distinct ps" "0 \<notin> set ps" "qhead q = (if ps = [] then 0 else hd ps)" "qtail q = (if ps = [] then 0 else last ps)"
    "qhead q = 0 \<longleftrightarrow> ps = []" "qtail q = 0 \<longleftrightarrow> ps = []"
proof -
  have n: "nseg N (qhead q) ps 0" using assms by (simp add: qrep_def)
  show "distinct ps" "0 \<notin> set ps" using nseg_distinct [OF n] nseg_nonzero [OF n] .
  show h: "qhead q = (if ps = [] then 0 else hd ps)" using nseg_start [OF n] by simp
  show "qtail q = (if ps = [] then 0 else last ps)" using assms by (simp add: qrep_def)
  show "qhead q = 0 \<longleftrightarrow> ps = []" using h \<open>0 \<notin> set ps\<close> by (cases ps) auto
  show "qtail q = 0 \<longleftrightarrow> ps = []" using assms \<open>0 \<notin> set ps\<close> using last_pos [of ps] by (auto simp: qrep_def)
qed

text \<open>A queue does not see the links of processes outside it.\<close>

lemma qrep_frame: "qrep N q ps \<Longrightarrow> (\<And>x. x \<in> set ps \<Longrightarrow> N' x = N x) \<Longrightarrow> qrep N' q ps"
  unfolding qrep_def using nseg_cong [of ps N N' "qhead q" 0] by simp

lemma qrep_init [simp]: "qrep N proc_queue_init []"
  by (simp add: qrep_def proc_queue_init_def)

lemma qrep_empty: "qrep N q ps \<Longrightarrow> proc_queue_empty q \<longleftrightarrow> ps = []"
  by (simp add: proc_queue_empty_def qrep_facts(5))

lemma push_head_spec:
  assumes "qrep N q ps" "p \<noteq> 0" "p \<notin> set ps" "proc_queue_push_head q p N = (q', N')"
  shows "qrep N' q' (p # ps)" "\<And>x. x \<noteq> p \<Longrightarrow> N' x = N x"
  using assms qrep_facts(6) [OF assms(1)] by (auto simp: proc_queue_push_head_def qrep_def Let_def split: if_splits)

lemma nseg_snoc:
  assumes "nseg N h ps 0" "ps \<noteq> []" "p \<noteq> 0" "p \<notin> set ps"
  shows "nseg (N(p := 0, last ps := p)) h (ps @ [p]) 0"
proof -
  obtain us l where ps: "ps = us @ [l]" using assms(2) by (metis append_butlast_last_id)
  have "distinct ps" using nseg_distinct [OF assms(1)] .
  then show ?thesis using assms by (auto simp: ps nseg_append)
qed

lemma push_tail_spec:
  assumes "qrep N q ps" "p \<noteq> 0" "p \<notin> set ps" "proc_queue_push_tail q p N = (q', N')"
  shows "qrep N' q' (ps @ [p])" "\<And>x. x \<noteq> p \<Longrightarrow> x \<notin> set ps \<Longrightarrow> N' x = N x"
proof -
  note f = qrep_facts [OF assms(1)]
  show "qrep N' q' (ps @ [p])"
  proof (cases "ps = []")
    case True
    then show ?thesis using assms f by (auto simp: proc_queue_push_tail_def qrep_def Let_def)
  next
    case False
    then show ?thesis using assms f nseg_snoc [of N "qhead q" ps p]
      by (auto simp: proc_queue_push_tail_def qrep_def Let_def)
  qed
  show "N' x = N x" if "x \<noteq> p" "x \<notin> set ps" for x
    using assms(4) that f by (cases "ps = []") (auto simp: proc_queue_push_tail_def Let_def split: if_splits)
qed

lemma pop_head_spec:
  assumes "qrep N q ps" "proc_queue_pop_head q N = (p, q', N')"
  shows "p = (if ps = [] then 0 else hd ps)" "qrep N' q' (tl ps)" "\<And>x. x \<noteq> p \<Longrightarrow> N' x = N x"
    "ps \<noteq> [] \<Longrightarrow> N' p = 0"
proof -
  note f = qrep_facts [OF assms(1)]
  show p: "p = (if ps = [] then 0 else hd ps)" using assms(2) f by (auto simp: proc_queue_pop_head_def Let_def split: if_splits)
  show "N' x = N x" if "x \<noteq> p" for x using assms(2) that by (auto simp: proc_queue_pop_head_def Let_def split: if_splits)
  show "N' p = 0" if "ps \<noteq> []" using assms(2) that f by (auto simp: proc_queue_pop_head_def Let_def split: if_splits)
  show "qrep N' q' (tl ps)"
  proof (cases ps)
    case Nil
    then show ?thesis using assms f by (auto simp: proc_queue_pop_head_def qrep_def)
  next
    case (Cons x xs)
    have "N x = 0 \<longleftrightarrow> xs = []" using assms(1) Cons by (cases xs) (auto simp: qrep_def)
    then show ?thesis using assms f Cons by (auto simp: proc_queue_pop_head_def qrep_def Let_def split: if_splits)
  qed
qed

lemma insert_after_spec:
  assumes "qrep N q (us @ a # vs)" "p \<noteq> 0" "p \<notin> set (us @ a # vs)" "proc_queue_insert_after q a p N = (q', N')"
  shows "qrep N' q' (us @ a # p # vs)" "\<And>x. x \<noteq> p \<Longrightarrow> x \<noteq> a \<Longrightarrow> N' x = N x"
proof -
  note f = qrep_facts [OF assms(1)]
  have a: "a \<noteq> 0" "distinct (us @ a # vs)" using f by auto
  have N': "N' = N(p := N a, a := p)" "q' = (if qtail q = a then q\<lparr>qtail := p\<rparr> else q)"
    using assms(2,4) a(1) by (auto simp: proc_queue_insert_after_def Let_def)
  show "N' x = N x" if "x \<noteq> p" "x \<noteq> a" for x using that by (simp add: N')
  have n: "nseg N (qhead q) us a" "nseg N (N a) vs 0" using assms(1) by (auto simp: qrep_def nseg_append)
  have "nseg N' (qhead q) us a" "nseg N' (N a) vs 0"
    using n a(2) assms(3) by (auto simp: N')
  moreover have "qtail q = a \<longleftrightarrow> vs = []" using f(4) a(2) by auto
  ultimately show "qrep N' q' (us @ a # p # vs)"
    using a assms(1-3) by (auto simp: qrep_def nseg_append N' split: if_splits)
qed

lemma remove_after_spec:
  assumes "qrep N q (us @ a # p # vs)" "proc_queue_remove_after q a N = (r, q', N')"
  shows "r = p" "qrep N' q' (us @ a # vs)" "\<And>x. x \<noteq> p \<Longrightarrow> x \<noteq> a \<Longrightarrow> N' x = N x" "N' p = 0"
proof -
  note f = qrep_facts [OF assms(1)]
  have a: "a \<noteq> 0" "p \<noteq> 0" "distinct (us @ a # p # vs)" using f by auto
  have n: "nseg N (qhead q) us a" "N a = p" "nseg N (N p) vs 0" using assms(1) by (auto simp: qrep_def nseg_append)
  have e: "r = p" "N' = N(a := N p, p := 0)" "q' = (if qtail q = p then q\<lparr>qtail := a\<rparr> else q)"
    using assms(2) a n(2) by (auto simp: proc_queue_remove_after_def Let_def)
  show "r = p" "N' p = 0" by (simp_all add: e)
  show "N' x = N x" if "x \<noteq> p" "x \<noteq> a" for x using that by (simp add: e)
  have "nseg N' (qhead q) us a" "nseg N' (N p) vs 0" using n a(3) by (auto simp: e)
  moreover have "qtail q = p \<longleftrightarrow> vs = []" using f(4) a(3) by auto
  ultimately show "qrep N' q' (us @ a # vs)"
    using a assms(1) by (auto simp: qrep_def nseg_append e split: if_splits)
qed

lemma remove_loop_spec:
  assumes "qrep N q (us @ vs)" "prev = (if us = [] then 0 else last us)" "cur = (if vs = [] then 0 else hd vs)" "p \<notin> set us"
  shows "\<exists>q' N'. remove_loop p prev cur q N = Some (p \<in> set vs, q', N') \<and>
    qrep N' q' (us @ remove1 p vs) \<and> (\<forall>x. x \<notin> set (us @ vs) \<longrightarrow> N' x = N x)"
  using assms
proof (induction vs arbitrary: us prev cur)
  case Nil
  then show ?case by (subst remove_loop.simps) simp
next
  case (Cons v vs)
  note f = qrep_facts [OF Cons.prems(1)]
  have v: "v \<noteq> 0" "cur = v" "distinct (us @ v # vs)" using f Cons.prems by auto
  have n: "nseg N (qhead q) us v" "nseg N (N v) vs 0" using Cons.prems(1) by (auto simp: qrep_def nseg_append)
  show ?case
  proof (cases "v = p")
    case False
    have "N v = (if vs = [] then 0 else hd vs)" using nseg_start [OF n(2)] by simp
    then show ?thesis
      using Cons.IH [of "us @ [v]" v "N v"] Cons.prems(1,4) False v
      by (subst remove_loop.simps) (auto split: if_splits)
  next
    case True
    define q1 N1 where "q1 = (if prev = 0 then q\<lparr>qhead := N cur\<rparr> else q)" and "N1 = (if prev = 0 then N else N(prev := N cur))"
    have e: "remove_loop p prev cur q N = Some (True, if qtail q1 = cur then q1\<lparr>qtail := prev\<rparr> else q1, N1(cur := 0))"
      using v True by (subst remove_loop.simps) (simp add: q1_def N1_def Let_def)
    have tl: "qtail q1 = cur \<longleftrightarrow> vs = []" using f(4) v(2,3) by (auto simp: q1_def split: if_splits)
    have pz: "prev = 0 \<longleftrightarrow> us = []" using Cons.prems(2) f(2) last_pos [of us] by auto
    have "qrep (N1(cur := 0)) (if qtail q1 = cur then q1\<lparr>qtail := prev\<rparr> else q1) (us @ vs)"
    proof (cases "us = []")
      case True
      then show ?thesis using n v f(4) tl pz Cons.prems(2) by (auto simp: qrep_def q1_def N1_def split: if_splits)
    next
      case False
      then obtain ws l where us: "us = ws @ [l]" by (metis append_butlast_last_id)
      then have l: "prev = l" "l \<noteq> 0" using Cons.prems(2) pz by auto
      have "nseg N (qhead q) ws l" using n(1) us by (auto simp: nseg_append)
      then show ?thesis using n v f(4) tl pz l us by (auto simp: qrep_def q1_def N1_def nseg_append split: if_splits)
    qed
    moreover have "\<forall>x. x \<notin> set (us @ v # vs) \<longrightarrow> (N1(cur := 0)) x = N x"
      using v(2) Cons.prems(2) by (auto simp: N1_def split: if_splits)
    moreover have "remove1 p (v # vs) = vs" "p \<in> set (v # vs)" using True by auto
    ultimately show ?thesis using e by auto
  qed
qed

lemma remove_spec:
  assumes "qrep N q ps" "p \<noteq> 0"
  obtains q' N' where "proc_queue_remove q p N = Some (p \<in> set ps, q', N')" "qrep N' q' (remove1 p ps)"
    "\<And>x. x \<notin> set ps \<Longrightarrow> N' x = N x"
  using remove_loop_spec [of N q "[]" ps 0 "qhead q" p] assms qrep_facts(3) [OF assms(1)]
  by (auto simp: proc_queue_remove_def)

lemma find_loop_spec:
  assumes "nseg N p ps 0"
  shows "find_loop P N prev p = Some (case find P ps of
      None \<Rightarrow> (False, 0, 0)
    | Some x \<Rightarrow> (True, last (prev # takeWhile (\<lambda>y. \<not> P y) ps), x))"
  using assms
proof (induction ps arbitrary: p prev)
  case Nil
  then show ?case by (subst find_loop.simps) simp
next
  case (Cons x ps)
  then show ?case by (subst find_loop.simps) (auto split: option.splits)
qed

lemma find_last_loop_spec: "nseg N p ps 0 \<Longrightarrow> find_last_loop P N l p = Some (last (l # filter P ps))"
proof (induction ps arbitrary: p l)
  case Nil
  then show ?case by (subst find_last_loop.simps) simp
next
  case (Cons x ps)
  then show ?case by (subst find_last_loop.simps) auto
qed

lemma find_last_prefix_loop_spec:
  "nseg N p ps 0 \<Longrightarrow> find_last_prefix_loop P N l p = Some (last (l # takeWhile P ps))"
proof (induction ps arbitrary: p l)
  case Nil
  then show ?case by (subst find_last_prefix_loop.simps) simp
next
  case (Cons x ps)
  then show ?case by (subst find_last_prefix_loop.simps) auto
qed

lemma for_each_loop_spec: "nseg N p ps 0 \<Longrightarrow> for_each_loop each N p s = Some (fold each ps s)"
proof (induction ps arbitrary: p s)
  case Nil
  then show ?case by (subst for_each_loop.simps) simp
next
  case (Cons x ps)
  then show ?case by (subst for_each_loop.simps) auto
qed

lemma search_spec:
  assumes "qrep N q ps"
  shows "proc_queue_find q P N = Some (case find P ps of
      None \<Rightarrow> (False, 0, 0) | Some x \<Rightarrow> (True, last (0 # takeWhile (\<lambda>y. \<not> P y) ps), x))"
    "proc_queue_find_last q P N = Some (last (0 # filter P ps))"
    "proc_queue_find_last_prefix q P N = Some (last (0 # takeWhile P ps))"
    "proc_queue_for_each q each N s = Some (fold each ps s)"
proof -
  have n: "nseg N (qhead q) ps 0" using assms by (simp add: qrep_def)
  show "proc_queue_find q P N = Some (case find P ps of
      None \<Rightarrow> (False, 0, 0) | Some x \<Rightarrow> (True, last (0 # takeWhile (\<lambda>y. \<not> P y) ps), x))"
    unfolding proc_queue_find_def by (rule find_loop_spec [OF n])
  show "proc_queue_find_last q P N = Some (last (0 # filter P ps))"
    unfolding proc_queue_find_last_def by (rule find_last_loop_spec [OF n])
  show "proc_queue_find_last_prefix q P N = Some (last (0 # takeWhile P ps))"
    unfolding proc_queue_find_last_prefix_def by (rule find_last_prefix_loop_spec [OF n])
  show "proc_queue_for_each q each N s = Some (fold each ps s)"
    unfolding proc_queue_for_each_def by (rule for_each_loop_spec [OF n])
qed

lemma splice_spec:
  assumes d: "qrep N dst ds" and s: "qrep N src (us @ vs)" and "set ds \<inter> set (us @ vs) = {}" "us \<noteq> []"
    "proc_queue_splice_prefix_tail dst src (last us) N = (dst', src', N')"
  shows "qrep N' dst' (ds @ us)" "qrep N' src' vs" "\<And>x. x \<notin> set (ds @ us) \<Longrightarrow> N' x = N x"
proof -
  note fd = qrep_facts [OF d] and fs = qrep_facts [OF s]
  obtain ws l where us: "us = ws @ [l]" using assms(4) by (metis append_butlast_last_id)
  have l: "last us = l" "l \<noteq> 0" "l \<notin> set vs" "l \<notin> set ds" using us fs assms(3) by auto
  have n: "nseg N (qhead src) ws l" "nseg N (N l) vs 0" using s us by (auto simp: qrep_def nseg_append)
  have hs: "qhead src \<noteq> 0" "qtail src = l \<longleftrightarrow> vs = []" using fs us by (auto split: if_splits)
  define M where "M = (if ds = [] then N(l := 0) else N(l := 0, last ds := qhead src))"
  have e: "N' = M" "src' = (if vs = [] then src\<lparr>qhead := N l, qtail := 0\<rparr> else src\<lparr>qhead := N l\<rparr>)"
    "dst' = (if ds = [] then dst\<lparr>qhead := qhead src, qtail := l\<rparr> else dst\<lparr>qtail := l\<rparr>)"
    using assms(5) l(1,2) hs fd by (auto simp: proc_queue_splice_prefix_tail_def Let_def M_def)
  have ld: "ds \<noteq> [] \<Longrightarrow> last ds \<in> set ds" by simp
  have dj: "set ds \<inter> set ws = {}" "set ds \<inter> set vs = {}" "l \<notin> set ws" using assms(3) us fs by auto
  have m: "nseg M (qhead src) ws l" "nseg M (N l) vs 0"
  proof -
    have M: "M x = N x" if "x \<noteq> l" "x \<notin> set ds" for x using that ld by (auto simp: M_def)
    have "M x = N x" if "x \<in> set ws \<or> x \<in> set vs" for x
      using that l(3) dj by (intro M) auto
    then show "nseg M (qhead src) ws l" "nseg M (N l) vs 0"
      using n nseg_cong [of ws N M "qhead src" l] nseg_cong [of vs N M "N l" 0] by simp_all
  qed
  show "N' x = N x" if "x \<notin> set (ds @ us)" for x using that ld us by (auto simp: e M_def)
  show "qrep N' src' vs" using m(2) s by (auto simp: qrep_def e(1,2))
  show "qrep N' dst' (ds @ us)"
  proof (cases "ds = []")
    case True
    then show ?thesis using m(1) l us by (auto simp: qrep_def e nseg_append M_def)
  next
    case False
    then obtain es k where ds: "ds = es @ [k]" by (metis append_butlast_last_id)
    then have "nseg N (qhead dst) es k" "k \<noteq> 0" "k \<notin> set es" "l \<noteq> k" "l \<notin> set es"
      using d fd l by (auto simp: qrep_def nseg_append)
    then show ?thesis using m(1) l us ds False by (auto simp: qrep_def e nseg_append M_def)
  qed
qed

section \<open>The queue as a whole\<close>

text \<open>Used at its two ends only, a process queue is a first-in first-out queue.\<close>

definition pq_rep :: "proc_queue \<times> links \<Rightarrow> nat list \<Rightarrow> bool" where
  "pq_rep = (\<lambda>(q, N) ps. qrep N q ps)"

definition pq_fits :: "proc_queue \<times> links \<Rightarrow> nat list \<Rightarrow> bool" where
  "pq_fits _ ps \<longleftrightarrow> distinct ps \<and> 0 \<notin> set ps"

definition pq_enq :: "nat \<Rightarrow> proc_queue \<times> links \<Rightarrow> (proc_queue \<times> links) option" where
  "pq_enq p = (\<lambda>(q, N). Some (proc_queue_push_tail q p N))"

definition pq_deq :: "proc_queue \<times> links \<Rightarrow> (nat option \<times> proc_queue \<times> links) option" where
  "pq_deq = (\<lambda>(q, N). case proc_queue_pop_head q N of (p, s) \<Rightarrow> Some (if p = 0 then None else Some p, s))"

interpretation pq: fifo pq_rep pq_fits pq_enq pq_deq
proof
  fix s :: "proc_queue \<times> links" and ps :: "nat list" and p
  obtain q N where s: "s = (q, N)" by fastforce
  show "\<exists>s'. pq_enq p s = Some s' \<and> pq_rep s' (ps @ [p]) \<and> pq_fits s' = pq_fits s"
    if "pq_rep s ps" "pq_fits s (ps @ [p])"
  proof -
    obtain q' N' where e: "proc_queue_push_tail q p N = (q', N')" by fastforce
    then have "qrep N' q' (ps @ [p])"
      using push_tail_spec(1) [of N q ps p] that by (simp add: s pq_rep_def pq_fits_def)
    then show ?thesis using e by (simp add: s pq_enq_def pq_rep_def pq_fits_def fun_eq_iff)
  qed
  obtain r q' N' where e: "proc_queue_pop_head q N = (r, q', N')" by (cases "proc_queue_pop_head q N") auto
  show "\<exists>s'. pq_deq s = Some (None, s') \<and> pq_rep s' [] \<and> pq_fits s' = pq_fits s" if "pq_rep s []"
    using that e pop_head_spec(1,2) [OF _ e, of "[]"] by (simp add: s pq_deq_def pq_rep_def pq_fits_def fun_eq_iff)
  show "\<exists>s'. pq_deq s = Some (Some p, s') \<and> pq_rep s' ps \<and> pq_fits s' = pq_fits s" if "pq_rep s (p # ps)"
  proof -
    have "p \<noteq> 0" using qrep_facts(2) [of N q "p # ps"] that by (auto simp: s pq_rep_def)
    then show ?thesis using that e pop_head_spec(1,2) [OF _ e, of "p # ps"]
      by (simp add: s pq_deq_def pq_rep_def pq_fits_def fun_eq_iff)
  qed
qed

text \<open>Any sequence of \<open>proc_queue_push_tail\<close> and \<open>proc_queue_pop_head\<close> that never adds a process
  already in the queue hands the processes out in the order they were added, and \<open>NULL\<close> exactly when
  the queue is empty.\<close>

theorem proc_queue_is_fifo:
  assumes "run_fits (\<lambda>ps. distinct ps \<and> 0 \<notin> set ps) ops []"
  shows "\<exists>s'. impl_run pq_enq pq_deq ops (proc_queue_init, N) = Some (fst (spec_run ops []), s')"
proof -
  have "run_fits (pq_fits (proc_queue_init, N)) ops []" using assms by (simp add: pq_fits_def [abs_def])
  from pq.run_refines [OF _ this] show ?thesis by (auto simp: pq_rep_def)
qed

theorem proc_queue_is_fifo_witness:
  "\<exists>s'. impl_run pq_enq pq_deq [Enq 4, Enq 9, Deq, Enq 4, Deq, Deq, Deq] (proc_queue_init, \<lambda>_. 0) =
     Some ([Some 4, Some 9, Some 4, None], s')"
  using proc_queue_is_fifo [of "[Enq 4, Enq 9, Deq, Enq 4, Deq, Deq, Deq]" "\<lambda>_. 0"] by simp

text \<open>C20. The operations in the middle of a queue. \<open>proc_queue_remove\<close> ends, takes exactly the given
  process out and says whether it was there; inserting after a process and splicing a prefix of one
  queue to the end of another give the lists one expects; the searches give the first match with its
  predecessor, the last match, and the last of the matching prefix. The links of processes outside
  the queues involved are never touched.\<close>

theorem proc_queue_refines_lists:
  assumes "qrep N q ps"
  shows "(p \<noteq> 0 \<longrightarrow> (\<exists>q' N'. proc_queue_remove q p N = Some (p \<in> set ps, q', N') \<and> qrep N' q' (remove1 p ps) \<and>
      (\<forall>x. x \<notin> set ps \<longrightarrow> N' x = N x))) \<and>
    (ps = us @ a # vs \<longrightarrow> p \<noteq> 0 \<longrightarrow> p \<notin> set ps \<longrightarrow> proc_queue_insert_after q a p N = (q1, N1) \<longrightarrow>
      qrep N1 q1 (us @ a # p # vs) \<and> (\<forall>x. x \<notin> insert p (set ps) \<longrightarrow> N1 x = N x)) \<and>
    (ps = ws @ zs \<longrightarrow> ws \<noteq> [] \<longrightarrow> qrep N dst ds \<longrightarrow> set ds \<inter> set ps = {} \<longrightarrow>
      proc_queue_splice_prefix_tail dst q (last ws) N = (dst', q2, N2) \<longrightarrow>
      qrep N2 dst' (ds @ ws) \<and> qrep N2 q2 zs \<and> (\<forall>x. x \<notin> set (ds @ ws) \<longrightarrow> N2 x = N x)) \<and>
    proc_queue_find q P N = Some (case find P ps of
        None \<Rightarrow> (False, 0, 0) | Some x \<Rightarrow> (True, last (0 # takeWhile (\<lambda>y. \<not> P y) ps), x)) \<and>
    proc_queue_find_last q P N = Some (last (0 # filter P ps)) \<and>
    proc_queue_find_last_prefix q P N = Some (last (0 # takeWhile P ps))"
proof (intro conjI impI)
  show "\<exists>q' N'. proc_queue_remove q p N = Some (p \<in> set ps, q', N') \<and> qrep N' q' (remove1 p ps) \<and>
      (\<forall>x. x \<notin> set ps \<longrightarrow> N' x = N x)" if "p \<noteq> 0"
    using remove_spec [OF assms that] by metis
  show "qrep N1 q1 (us @ a # p # vs)" "\<forall>x. x \<notin> insert p (set ps) \<longrightarrow> N1 x = N x"
    if "ps = us @ a # vs" "p \<noteq> 0" "p \<notin> set ps" "proc_queue_insert_after q a p N = (q1, N1)"
    using insert_after_spec [of N q us a vs p q1 N1] that assms by auto
  show "qrep N2 dst' (ds @ ws)" "qrep N2 q2 zs" "\<forall>x. x \<notin> set (ds @ ws) \<longrightarrow> N2 x = N x"
    if "ps = ws @ zs" "ws \<noteq> []" "qrep N dst ds" "set ds \<inter> set ps = {}"
      "proc_queue_splice_prefix_tail dst q (last ws) N = (dst', q2, N2)"
    using splice_spec [of N dst ds q ws zs dst' q2 N2] that assms by auto
qed (rule search_spec [OF assms])+

definition links_example :: links where
  "links_example = (\<lambda>_. 0)(3 := 5, 5 := 8)"

lemma links_example_rep: "qrep links_example \<lparr>qhead = 3, qtail = 8\<rparr> [3, 5, 8]" "qrep links_example \<lparr>qhead = 2, qtail = 2\<rparr> [2]"
  by (simp_all add: qrep_def links_example_def)

theorem proc_queue_refines_lists_witness:
  "(\<exists>q N. proc_queue_remove \<lparr>qhead = 3, qtail = 8\<rparr> 5 links_example = Some (True, q, N) \<and> qrep N q [3, 8]) \<and>
   (let (q, N) = proc_queue_insert_after \<lparr>qhead = 3, qtail = 8\<rparr> 3 5 (links_example(3 := 8)) in qrep N q [3, 5, 8]) \<and>
   (let (d, q, N) = proc_queue_splice_prefix_tail \<lparr>qhead = 2, qtail = 2\<rparr> \<lparr>qhead = 3, qtail = 8\<rparr> 3 links_example
    in qrep N d [2, 3] \<and> qrep N q [5, 8])"
proof (intro conjI)
  obtain d q N where sp: "proc_queue_splice_prefix_tail \<lparr>qhead = 2, qtail = 2\<rparr> \<lparr>qhead = 3, qtail = 8\<rparr> 3 links_example = (d, q, N)"
    using prod_cases3 by blast
  note th = proc_queue_refines_lists [OF links_example_rep(1), of 5 "[]" 3 "[5, 8]" undefined undefined
      "[3]" "[5, 8]" "\<lparr>qhead = 2, qtail = 2\<rparr>" "[2]" d q N "\<lambda>_. True"]
  show "\<exists>q N. proc_queue_remove \<lparr>qhead = 3, qtail = 8\<rparr> 5 links_example = Some (True, q, N) \<and> qrep N q [3, 8]"
    using conjunct1 [OF th] by auto
  show "let (d, q, N) = proc_queue_splice_prefix_tail \<lparr>qhead = 2, qtail = 2\<rparr> \<lparr>qhead = 3, qtail = 8\<rparr> 3 links_example
    in qrep N d [2, 3] \<and> qrep N q [5, 8]"
    using conjunct1 [OF conjunct2 [OF conjunct2 [OF th]]] sp links_example_rep(2) by simp
  obtain q1 N1 where i: "proc_queue_insert_after \<lparr>qhead = 3, qtail = 8\<rparr> 3 5 (links_example(3 := 8)) = (q1, N1)" by fastforce
  have "qrep (links_example(3 := 8)) \<lparr>qhead = 3, qtail = 8\<rparr> [3, 8]" by (simp add: qrep_def links_example_def)
  from proc_queue_refines_lists [OF this, of 5 "[]" 3 "[8]" q1 N1]
  show "let (q, N) = proc_queue_insert_after \<lparr>qhead = 3, qtail = 8\<rparr> 3 5 (links_example(3 := 8)) in qrep N q [3, 5, 8]"
    using i by simp
qed

section \<open>Several queues\<close>

text \<open>Queues that share the links of the processes, each process in one of them at most.\<close>

definition queues :: "links \<Rightarrow> (proc_queue \<times> nat list) list \<Rightarrow> bool" where
  "queues N Qs \<longleftrightarrow> (\<forall>(q, l)\<in>set Qs. qrep N q l) \<and> distinct (concat (map snd Qs))"

abbreviation members :: "(proc_queue \<times> nat list) list \<Rightarrow> nat set" where
  "members Qs \<equiv> set (concat (map snd Qs))"

lemma queues_upd:
  assumes "queues N (As @ (q, l) # Bs)" "qrep N' q' l'" "set l' \<subseteq> set l \<union> X" "X \<inter> members (As @ (q, l) # Bs) = {}"
    "\<And>x. x \<notin> set l \<union> X \<Longrightarrow> N' x = N x"
  shows "queues N' (As @ (q', l') # Bs)"
proof -
  have d: "distinct (concat (map snd (As @ Bs)))" "set l \<inter> members (As @ Bs) = {}"
    using assms(1) by (auto simp: queues_def)
  have "members (As @ Bs) \<subseteq> members (As @ (q, l) # Bs)" by auto
  then have "set l' \<inter> members (As @ Bs) = {}" using assms(3,4) d(2) by blast
  moreover have "distinct l'" using qrep_facts(1) [OF assms(2)] .
  ultimately have "distinct (concat (map snd (As @ (q', l') # Bs)))" using d(1) by auto
  moreover have "qrep N' r m" if "(r, m) \<in> set (As @ Bs)" for r m
  proof (rule qrep_frame)
    show "qrep N r m" using assms(1) that by (auto simp: queues_def)
    have "set m \<subseteq> members (As @ Bs)" using that by fastforce
    then show "N' x = N x" if "x \<in> set m" for x using assms(4) d(2) that by (intro assms(5)) auto
  qed
  ultimately show ?thesis using assms(2) by (auto simp: queues_def)
qed

lemma queues_rep: "queues N (As @ (q, l) # Bs) \<Longrightarrow> qrep N q l"
  by (auto simp: queues_def)

lemma queues_push_tail:
  assumes "queues N (As @ (q, l) # Bs)" "p \<noteq> 0" "p \<notin> members (As @ (q, l) # Bs)" "proc_queue_push_tail q p N = (q', N')"
  shows "queues N' (As @ (q', l @ [p]) # Bs)"
  using push_tail_spec [OF queues_rep [OF assms(1)] assms(2) _ assms(4)] assms(3)
  by (intro queues_upd [OF assms(1), where X = "{p}"]) auto

lemma queues_push_head:
  assumes "queues N (As @ (q, l) # Bs)" "p \<noteq> 0" "p \<notin> members (As @ (q, l) # Bs)" "proc_queue_push_head q p N = (q', N')"
  shows "queues N' (As @ (q', p # l) # Bs)"
  using push_head_spec [OF queues_rep [OF assms(1)] assms(2) _ assms(4)] assms(3)
  by (intro queues_upd [OF assms(1), where X = "{p}"]) auto

lemma queues_insert_after:
  assumes "queues N (As @ (q, us @ a # vs) # Bs)" "p \<noteq> 0" "p \<notin> members (As @ (q, us @ a # vs) # Bs)"
    "proc_queue_insert_after q a p N = (q', N')"
  shows "queues N' (As @ (q', us @ a # p # vs) # Bs)"
  using insert_after_spec [OF queues_rep [OF assms(1)] assms(2) _ assms(4)] assms(3)
  by (intro queues_upd [OF assms(1), where X = "{p}"]) auto

lemma queues_pop_head:
  assumes "queues N (As @ (q, l) # Bs)" "proc_queue_pop_head q N = (p, q', N')" "l \<noteq> []"
  shows "queues N' (As @ (q', tl l) # Bs)" "p = hd l"
proof -
  note s = pop_head_spec [OF queues_rep [OF assms(1)] assms(2)]
  show p: "p = hd l" using s(1) assms(3) by simp
  show "queues N' (As @ (q', tl l) # Bs)"
  proof (rule queues_upd [OF assms(1) s(2), where X = "{}"])
    show "set (tl l) \<subseteq> set l \<union> {}" using assms(3) by (auto dest: list.set_sel(2))
    show "N' x = N x" if "x \<notin> set l \<union> {}" for x using that p assms(3) by (intro s(3)) auto
  qed simp
qed

lemma queues_remove:
  assumes "queues N (As @ (q, l) # Bs)" "p \<noteq> 0"
  obtains q' N' where "proc_queue_remove q p N = Some (p \<in> set l, q', N')" "queues N' (As @ (q', remove1 p l) # Bs)"
proof -
  obtain q' N' where r: "proc_queue_remove q p N = Some (p \<in> set l, q', N')" "qrep N' q' (remove1 p l)"
    "\<And>x. x \<notin> set l \<Longrightarrow> N' x = N x"
    using remove_spec [OF queues_rep [OF assms(1)] assms(2)] by metis
  have "queues N' (As @ (q', remove1 p l) # Bs)"
    using r(2,3) set_remove1_subset [of p l] by (intro queues_upd [OF assms(1), where X = "{}"]) auto
  then show ?thesis using r(1) that by blast
qed

text \<open>The same for the first, second, third and fourth queue of a list.\<close>

lemmas push_tail0 = queues_push_tail [where As = "[]", unfolded append_Nil]
lemmas push_tail3 = queues_push_tail [where As = "[a, b, c]" for a b c, unfolded append_Cons append_Nil]
lemmas push_head1 = queues_push_head [where As = "[a]" for a, unfolded append_Cons append_Nil]
lemmas push_head2 = queues_push_head [where As = "[a, b]" for a b, unfolded append_Cons append_Nil]
lemmas pop_head0 = queues_pop_head [where As = "[]", unfolded append_Nil]
lemmas pop_head3 = queues_pop_head [where As = "[a, b, c]" for a b c, unfolded append_Cons append_Nil]
lemmas insert_after2 = queues_insert_after [where As = "[a, b]" for a b, unfolded append_Cons append_Nil]
lemmas rep0 = queues_rep [where As = "[]", unfolded append_Nil]
lemmas rep2 = queues_rep [where As = "[a, b]" for a b, unfolded append_Cons append_Nil]
lemmas rep3 = queues_rep [where As = "[a, b, c]" for a b c, unfolded append_Cons append_Nil]

end
