(* ===== verification/Sched.thy ===== *)
theory Sched
  imports Proc_Queue
begin

text \<open>
  The scheduler (kernel/mp/scheduler.c, sleep.c, mp_utils.c, wait_queue.c and the context switch of
  arch/x86_64/switch_to.asm), and what is built on it: semaphores, mutexes, exit and waitpid.

  One processor runs one process at a time, and the kernel's critical sections run with interrupts
  off, so an operation is a function of the state up to the point where it gives up the processor.
  Its result (\<open>outcome\<close>) says how it ends: \<open>Same\<close> with the caller still running; \<open>Switch\<close> with
  another process running, in the state after that process has come out of its own switch; \<open>Idle p\<close>
  with the processor halted inside \<open>schedule_advance\<close> on behalf of \<open>p\<close>; \<open>Fault\<close> when the code
  follows a null pointer. What is left of a process's own code after a switch is given by where its
  saved stack leads (\<open>resume_point\<close>): out of \<open>multitask_switch\<close> into the rest of \<open>sched_resume\<close> or
  \<open>sched_unlock\<close>, into \<open>proc_prelude\<close>, or into \<open>make_fork_kstack\<close>.
\<close>

section \<open>State\<close>

datatype proc_status =
    PROC_STATUS_RUNNING | PROC_STATUS_READY_TO_RUN | PROC_STATUS_SLEEPING_TIMER | PROC_STATUS_BLOCKED
  | PROC_STATUS_READY_TO_DIE | PROC_STATUS_UNINITIALIZED

datatype resume_point = In_switch | In_prelude | In_fork

type_synonym wait_queue = proc_queue

record proc =
  status :: proc_status
  pid :: u64
  elapsed :: u64
  sleep_until :: u64
  switch_timestamp :: u64
  kids :: "nat list"
  parent :: nat
  child_waiters :: wait_queue
  exit_waiters :: wait_queue
  exit_code :: u32
  resume_at :: resume_point

text \<open>\<open>now\<close> is what the timer answers, \<open>irq_on\<close> the processor's interrupt flag, \<open>links\<close> the \<open>next\<close> fields.\<close>

record sched =
  procs :: "nat \<Rightarrow> proc"
  links :: links
  current_process :: nat
  ready_to_run :: proc_queue
  ready_to_die :: proc_queue
  sleeping :: proc_queue
  total_processes_added :: u64
  process_count :: u64
  idle_switch_timestamp :: u64
  quantum_remaining :: u64
  tick_interval_ns :: u64
  time_elapsed :: u64
  time_idle :: u64
  irq_lock_count :: u64
  switch_lock_count :: u64
  switch_lock_flag :: bool
  irq_on :: bool
  now :: u64
  reaped :: "nat list"

datatype outcome = Same sched | Switch sched | Idle nat sched | Fault

text \<open>The rest of a function runs at once only if no switch happened.\<close>

fun obind :: "outcome \<Rightarrow> (sched \<Rightarrow> outcome) \<Rightarrow> outcome" where
  "obind (Same s) f = f s"
| "obind r f = r"

definition upd_proc :: "nat \<Rightarrow> (proc \<Rightarrow> proc) \<Rightarrow> sched \<Rightarrow> sched" where
  "upd_proc p f s = s\<lparr>procs := (procs s)(p := f (procs s p))\<rparr>"

definition QUANTUM_LENGTH :: u64 where
  "QUANTUM_LENGTH = 50000"

section \<open>Locks\<close>

definition sched_lock :: "sched \<Rightarrow> sched" where
  "sched_lock s = s\<lparr>irq_on := False, irq_lock_count := irq_lock_count s + 1\<rparr>"

definition sched_unlock :: "sched \<Rightarrow> sched" where
  "sched_unlock s =
     (let s = (if 0 < irq_lock_count s then s\<lparr>irq_lock_count := irq_lock_count s - 1\<rparr> else s)
      in if irq_lock_count s = 0 then s\<lparr>irq_on := True\<rparr> else s)"

definition sched_postpone :: "sched \<Rightarrow> sched" where
  "sched_postpone s =
     s\<lparr>irq_on := False, irq_lock_count := irq_lock_count s + 1, switch_lock_count := switch_lock_count s + 1\<rparr>"

section \<open>The switch\<close>

definition switch_to :: "nat \<Rightarrow> sched \<Rightarrow> sched" where
  "switch_to p s =
     (let s = (if current_process s \<noteq> 0 then upd_proc (current_process s) (\<lambda>x. x\<lparr>resume_at := In_switch\<rparr>) s else s);
          s = s\<lparr>current_process := p\<rparr>
      in if status (procs s p) = PROC_STATUS_UNINITIALIZED then s
         else upd_proc p (\<lambda>x. x\<lparr>status := PROC_STATUS_RUNNING\<rparr>) s)"

text \<open>The beginning of a process, up to the call of its entry.\<close>

definition proc_prelude :: "nat \<Rightarrow> sched \<Rightarrow> sched" where
  "proc_prelude p s =
     (if p = 0 then s
      else if status (procs s p) = PROC_STATUS_UNINITIALIZED
      then sched_unlock (upd_proc p (\<lambda>x. x\<lparr>status := PROC_STATUS_RUNNING\<rparr>) s)
      else s)"

text \<open>What the process that has just been switched to does first: \<open>multitask_switch\<close> ends with
  \<open>sti\<close>, and every caller of \<open>schedule_advance\<close> then lowers \<open>irq_lock_count\<close>; a new process runs
  \<open>proc_prelude\<close>; a forked one enables interrupts and returns to user mode.\<close>

definition resumed :: "sched \<Rightarrow> sched" where
  "resumed s =
     (case resume_at (procs s (current_process s)) of
        In_switch \<Rightarrow> sched_unlock (s\<lparr>irq_on := True\<rparr>)
      | In_prelude \<Rightarrow> proc_prelude (current_process s) s
      | In_fork \<Rightarrow> s\<lparr>irq_on := True\<rparr>)"

definition multitask_switch :: "nat \<Rightarrow> sched \<Rightarrow> sched" where
  "multitask_switch p s = resumed (switch_to p (s\<lparr>irq_on := False\<rparr>))"

definition schedule_advance :: "sched \<Rightarrow> outcome" where
  "schedule_advance s =
     (if 0 < switch_lock_count s then Same (s\<lparr>switch_lock_flag := True\<rparr>)
      else
        (let s = s\<lparr>time_elapsed := now s\<rparr>;
             s = (if current_process s \<noteq> 0
                  then upd_proc (current_process s) (\<lambda>x. x\<lparr>elapsed := elapsed x + (time_elapsed s - switch_timestamp x)\<rparr>) s
                  else s\<lparr>time_idle := time_idle s + (time_elapsed s - idle_switch_timestamp s)\<rparr>)
         in if \<not> proc_queue_empty (ready_to_run s)
            then
              (let s = (if current_process s \<noteq> 0 \<and> status (procs s (current_process s)) = PROC_STATUS_RUNNING
                        then
                          (let s = upd_proc (current_process s) (\<lambda>x. x\<lparr>status := PROC_STATUS_READY_TO_RUN\<rparr>) s;
                               (q, N) = proc_queue_push_tail (ready_to_run s) (current_process s) (links s)
                           in s\<lparr>ready_to_run := q, links := N\<rparr>)
                        else s);
                   s = s\<lparr>quantum_remaining := QUANTUM_LENGTH\<rparr>;
                   (next, q, N) = proc_queue_pop_head (ready_to_run s) (links s);
                   s = s\<lparr>ready_to_run := q, links := N\<rparr>;
                   s = upd_proc next (\<lambda>x. x\<lparr>switch_timestamp := time_elapsed s\<rparr>) s
               in Switch (multitask_switch next s))
            else if current_process s = 0 then Fault
            else if status (procs s (current_process s)) \<noteq> PROC_STATUS_RUNNING
            then Idle (current_process s) (s\<lparr>current_process := 0, idle_switch_timestamp := time_elapsed s\<rparr>)
            else Same s))"

text \<open>The end of the idle loop, once an interrupt has made a process ready; \<open>p\<close> is the process on
  whose stack the loop runs.\<close>

definition idle_exit :: "nat \<Rightarrow> sched \<Rightarrow> sched" where
  "idle_exit p s =
     (let s = s\<lparr>quantum_remaining := 0, current_process := p\<rparr>;
          s = upd_proc p (\<lambda>x. x\<lparr>switch_timestamp := time_elapsed s\<rparr>) s;
          (next, q, N) = proc_queue_pop_head (ready_to_run s) (links s)
      in multitask_switch next (s\<lparr>ready_to_run := q, links := N\<rparr>))"

definition sched_resume :: "sched \<Rightarrow> outcome" where
  "sched_resume s =
     (let s = (if 0 < switch_lock_count s then s\<lparr>switch_lock_count := switch_lock_count s - 1\<rparr> else s)
      in obind (if switch_lock_count s = 0 \<and> switch_lock_flag s
                then schedule_advance (s\<lparr>switch_lock_flag := False\<rparr>) else Same s)
           (\<lambda>s. Same (sched_unlock s)))"

definition sched_yield :: "sched \<Rightarrow> outcome" where
  "sched_yield s = obind (schedule_advance (sched_lock s)) (\<lambda>s. Same (sched_unlock s))"

definition mp_enqueue_ready :: "nat \<Rightarrow> sched \<Rightarrow> sched" where
  "mp_enqueue_ready p s =
     (let (q, N) = proc_queue_push_tail (ready_to_run s) p (links s) in s\<lparr>ready_to_run := q, links := N\<rparr>)"

definition mp_block_proc :: "nat \<Rightarrow> proc_status \<Rightarrow> sched \<Rightarrow> outcome" where
  "mp_block_proc p reason s =
     obind (schedule_advance (upd_proc p (\<lambda>x. x\<lparr>status := reason\<rparr>) (sched_lock s))) (\<lambda>s. Same (sched_unlock s))"

definition sched_add_proc :: "nat \<Rightarrow> sched \<Rightarrow> outcome" where
  "sched_add_proc p s = sched_resume (mp_enqueue_ready p (sched_postpone s))"

section \<open>Sleeping and waking\<close>

definition block_current_proc :: "proc_status \<Rightarrow> sched \<Rightarrow> outcome" where
  "block_current_proc reason s = mp_block_proc (current_process s) reason s"

definition wake_proc :: "nat \<Rightarrow> sched \<Rightarrow> sched" where
  "wake_proc p s =
     (if p = 0 then s
      else sched_unlock (mp_enqueue_ready p (upd_proc p (\<lambda>x. x\<lparr>status := PROC_STATUS_READY_TO_RUN\<rparr>) (sched_lock s))))"

definition proc_sleep_until_less_than_equal :: "u64 \<Rightarrow> sched \<Rightarrow> nat \<Rightarrow> bool" where
  "proc_sleep_until_less_than_equal timestamp s p \<longleftrightarrow> sleep_until (procs s p) \<le> timestamp"

text \<open>\<open>None\<close>: a walk along a queue does not end.\<close>

definition sleep_proc_until :: "nat \<Rightarrow> u64 \<Rightarrow> sched \<Rightarrow> outcome option" where
  "sleep_proc_until p timestamp s =
     (let s = sched_postpone s;
          s = upd_proc p (\<lambda>x. x\<lparr>sleep_until := timestamp, status := PROC_STATUS_SLEEPING_TIMER\<rparr>) s;
          finish = (\<lambda>(q, N). obind (sched_yield (s\<lparr>sleeping := q, links := N\<rparr>)) sched_resume)
      in if proc_queue_empty (sleeping s)
         then Some (finish (proc_queue_push_head (sleeping s) p (links s)))
         else
           (case proc_queue_find_last_prefix (sleeping s) (proc_sleep_until_less_than_equal timestamp s) (links s) of
              None \<Rightarrow> None
            | Some l \<Rightarrow>
                Some (finish (if l = 0 then proc_queue_push_head (sleeping s) p (links s)
                              else proc_queue_insert_after (sleeping s) l p (links s)))))"

definition sleep_current_ns :: "u64 \<Rightarrow> sched \<Rightarrow> outcome option" where
  "sleep_current_ns ns s = sleep_proc_until (current_process s) (now s + ns) s"

definition sleep_current :: "u64 \<Rightarrow> sched \<Rightarrow> outcome option" where
  "sleep_current secs s = sleep_current_ns (secs * 1000000000) s"

partial_function (option) mark_loop :: "nat \<Rightarrow> nat \<Rightarrow> sched \<Rightarrow> sched option" where
  "mark_loop l p s =
     (if p = 0 then Some s
      else
        (let s1 = upd_proc p (\<lambda>x. x\<lparr>status := PROC_STATUS_READY_TO_RUN\<rparr>) s
         in if p = l then Some s1 else mark_loop l (links s1 p) s1))"

definition wake_procs_before_timestamp :: "u64 \<Rightarrow> sched \<Rightarrow> sched option" where
  "wake_procs_before_timestamp timestamp s =
     (case proc_queue_find_last_prefix (sleeping s) (proc_sleep_until_less_than_equal timestamp s) (links s) of
        None \<Rightarrow> None
      | Some l \<Rightarrow>
          if l = 0 then Some s
          else map_option (\<lambda>s.
              (let (r, z, N) = proc_queue_splice_prefix_tail (ready_to_run s) (sleeping s) l (links s)
               in s\<lparr>ready_to_run := r, sleeping := z, links := N\<rparr>))
            (mark_loop l (proc_queue_head (sleeping s)) s))"

definition handle_timer :: "u64 \<Rightarrow> sched \<Rightarrow> outcome option" where
  "handle_timer timestamp s =
     (case wake_procs_before_timestamp timestamp (sched_postpone s) of
        None \<Rightarrow> None
      | Some s \<Rightarrow>
          Some (obind
            (if quantum_remaining s = 0 then Same s
             else if quantum_remaining s \<le> tick_interval_ns s then sched_yield s
             else Same (s\<lparr>quantum_remaining := quantum_remaining s - tick_interval_ns s\<rparr>))
            sched_resume))"

end
