(* ===== verification/Sched_Inv.thy ===== *)
theory Sched_Inv
  imports Sched
begin

text \<open>
  The scheduler's invariant: the ready, dying and sleeping queues and the wait queues share no
  process, every process in them has the status that belongs there, the sleepers are in the order of
  their deadlines, and the running process is in none of them. Every operation keeps it, whether it
  returns to its caller or switches, and the ready queue is only ever taken from at its head and added
  to at its tail.
\<close>

section \<open>Invariant\<close>

lemma upd_proc_simps [simp]:
  "procs (upd_proc p f s) = (procs s)(p := f (procs s p))" "links (upd_proc p f s) = links s"
  "current_process (upd_proc p f s) = current_process s" "ready_to_run (upd_proc p f s) = ready_to_run s"
  "ready_to_die (upd_proc p f s) = ready_to_die s" "sleeping (upd_proc p f s) = sleeping s"
  "quantum_remaining (upd_proc p f s) = quantum_remaining s" "tick_interval_ns (upd_proc p f s) = tick_interval_ns s"
  "time_elapsed (upd_proc p f s) = time_elapsed s" "time_idle (upd_proc p f s) = time_idle s"
  "irq_lock_count (upd_proc p f s) = irq_lock_count s" "switch_lock_count (upd_proc p f s) = switch_lock_count s"
  "switch_lock_flag (upd_proc p f s) = switch_lock_flag s" "irq_on (upd_proc p f s) = irq_on s" "now (upd_proc p f s) = now s"
  "reaped (upd_proc p f s) = reaped s" "idle_switch_timestamp (upd_proc p f s) = idle_switch_timestamp s"
  by (simp_all add: upd_proc_def)

abbreviation all_queues :: "(wait_queue \<times> nat list) list \<Rightarrow> sched \<Rightarrow> nat list \<Rightarrow> nat list \<Rightarrow> nat list \<Rightarrow>
    (proc_queue \<times> nat list) list" where
  "all_queues W s R D Z \<equiv> (ready_to_run s, R) # (ready_to_die s, D) # (sleeping s, Z) # W"

text \<open>\<open>W\<close> are the wait queues in use, with the processes in them.\<close>

definition sched_wf :: "(wait_queue \<times> nat list) list \<Rightarrow> sched \<Rightarrow> nat list \<Rightarrow> nat list \<Rightarrow> nat list \<Rightarrow> bool" where
  "sched_wf W s R D Z \<longleftrightarrow>
     queues (links s) (all_queues W s R D Z) \<and>
     (\<forall>p\<in>set R. status (procs s p) \<in> {PROC_STATUS_READY_TO_RUN, PROC_STATUS_UNINITIALIZED}) \<and>
     (\<forall>p\<in>set D. status (procs s p) = PROC_STATUS_READY_TO_DIE) \<and>
     (\<forall>p\<in>set Z. status (procs s p) = PROC_STATUS_SLEEPING_TIMER) \<and>
     sorted (map (\<lambda>p. sleep_until (procs s p)) Z) \<and>
     (\<forall>p\<in>members W. status (procs s p) = PROC_STATUS_BLOCKED) \<and>
     (\<forall>p\<in>members (all_queues W s R D Z) - {current_process s}.
        resume_at (procs s p) = In_prelude \<longleftrightarrow> status (procs s p) = PROC_STATUS_UNINITIALIZED)"

text \<open>A process is running, outside every critical section; \<open>c\<close> is the value of \<open>irq_lock_count\<close>.\<close>

definition running :: "(wait_queue \<times> nat list) list \<Rightarrow> sched \<Rightarrow> nat list \<Rightarrow> nat list \<Rightarrow> nat list \<Rightarrow> u64 \<Rightarrow> bool" where
  "running W s R D Z c \<longleftrightarrow>
     sched_wf W s R D Z \<and> current_process s \<noteq> 0 \<and> current_process s \<notin> members (all_queues W s R D Z) \<and>
     status (procs s (current_process s)) = PROC_STATUS_RUNNING \<and>
     switch_lock_count s = 0 \<and> \<not> switch_lock_flag s \<and> irq_lock_count s = c"

text \<open>The part of the state an operation of the scheduler does not touch.\<close>

definition same_procs :: "sched \<Rightarrow> sched \<Rightarrow> bool" where
  "same_procs s s' \<longleftrightarrow>
     (\<forall>p. sleep_until (procs s' p) = sleep_until (procs s p) \<and> kids (procs s' p) = kids (procs s p) \<and>
        parent (procs s' p) = parent (procs s p) \<and> child_waiters (procs s' p) = child_waiters (procs s p) \<and>
        exit_waiters (procs s' p) = exit_waiters (procs s p) \<and> exit_code (procs s' p) = exit_code (procs s p) \<and>
        pid (procs s' p) = pid (procs s p)) \<and>
     now s' = now s \<and> tick_interval_ns s' = tick_interval_ns s"

lemma same_procs_refl [simp]: "same_procs s s"
  by (simp add: same_procs_def)

lemma same_procs_trans: "same_procs s s' \<Longrightarrow> same_procs s' s'' \<Longrightarrow> same_procs s s''"
  by (simp add: same_procs_def)

lemma u64_room: "(c :: u64) < 18446744073709551613 \<Longrightarrow> c + 1 \<noteq> 0 \<and> c + 2 \<noteq> 0 \<and> 1 + c \<noteq> 0 \<and> 2 + c \<noteq> 0 \<and> 0 < c + 1 \<and> 0 < c + 2"
proof -
  assume "c < 18446744073709551613"
  then have "unat c < 18446744073709551613" by (simp add: word_less_nat_alt)
  then have "unat (c + 1) = unat c + 1" "unat (c + 2) = unat c + 2"
    by (simp_all add: unat_word_ariths)
  then have "c + 1 \<noteq> 0" "c + 2 \<noteq> 0" by (metis add_is_0 one_neq_zero unat_0, metis add_is_0 unat_0 zero_neq_numeral)
  then show ?thesis by (simp add: word_neq_0_conv add.commute)
qed

section \<open>The switch\<close>

lemma unlock_fields [simp]:
  "procs (sched_unlock s) = procs s" "links (sched_unlock s) = links s" "current_process (sched_unlock s) = current_process s"
  "ready_to_run (sched_unlock s) = ready_to_run s" "ready_to_die (sched_unlock s) = ready_to_die s"
  "sleeping (sched_unlock s) = sleeping s" "quantum_remaining (sched_unlock s) = quantum_remaining s"
  "tick_interval_ns (sched_unlock s) = tick_interval_ns s" "now (sched_unlock s) = now s"
  "switch_lock_count (sched_unlock s) = switch_lock_count s" "switch_lock_flag (sched_unlock s) = switch_lock_flag s"
  "irq_lock_count (sched_unlock s) = (if 0 < irq_lock_count s then irq_lock_count s - 1 else 0)"
  by (auto simp: sched_unlock_def Let_def word_neq_0_conv)

lemma lock_fields [simp]:
  "procs (sched_lock s) = procs s" "links (sched_lock s) = links s" "current_process (sched_lock s) = current_process s"
  "ready_to_run (sched_lock s) = ready_to_run s" "ready_to_die (sched_lock s) = ready_to_die s"
  "sleeping (sched_lock s) = sleeping s" "quantum_remaining (sched_lock s) = quantum_remaining s"
  "tick_interval_ns (sched_lock s) = tick_interval_ns s" "now (sched_lock s) = now s"
  "switch_lock_count (sched_lock s) = switch_lock_count s" "switch_lock_flag (sched_lock s) = switch_lock_flag s"
  "irq_lock_count (sched_lock s) = irq_lock_count s + 1"
  by (auto simp: sched_lock_def)

lemma multitask_switch_fields:
  assumes "current_process s = p" "p \<noteq> 0" "n \<noteq> 0" "n \<noteq> p" "irq_lock_count s = c + 1" "c < 18446744073709551613"
    "resume_at (procs s n) = In_prelude \<longleftrightarrow> status (procs s n) = PROC_STATUS_UNINITIALIZED"
  defines "s' \<equiv> multitask_switch n s"
  shows "current_process s' = n" "links s' = links s" "ready_to_run s' = ready_to_run s" "ready_to_die s' = ready_to_die s"
    "sleeping s' = sleeping s" "switch_lock_count s' = switch_lock_count s" "switch_lock_flag s' = switch_lock_flag s"
    "quantum_remaining s' = quantum_remaining s" "same_procs s s'"
    "irq_lock_count s' = (if resume_at (procs s n) = In_fork then c + 1 else c)"
    "status (procs s' n) = PROC_STATUS_RUNNING" "resume_at (procs s' p) = In_switch"
    "x \<noteq> n \<Longrightarrow> status (procs s' x) = status (procs s x)" "x \<noteq> p \<Longrightarrow> resume_at (procs s' x) = resume_at (procs s x)"
proof -
  have c: "0 < c + 1" using u64_room [OF assms(6)] by simp
  note defs = s'_def multitask_switch_def resumed_def switch_to_def proc_prelude_def Let_def same_procs_def
  note a = assms(1-5,7) c
  show "current_process s' = n" "links s' = links s" "ready_to_run s' = ready_to_run s" "ready_to_die s' = ready_to_die s"
    "sleeping s' = sleeping s" "switch_lock_count s' = switch_lock_count s" "switch_lock_flag s' = switch_lock_flag s"
    "quantum_remaining s' = quantum_remaining s" "same_procs s s'"
    "irq_lock_count s' = (if resume_at (procs s n) = In_fork then c + 1 else c)"
    "status (procs s' n) = PROC_STATUS_RUNNING" "resume_at (procs s' p) = In_switch"
    using a by (cases "resume_at (procs s n)"; simp add: defs)+
  show "x \<noteq> n \<Longrightarrow> status (procs s' x) = status (procs s x)" "x \<noteq> p \<Longrightarrow> resume_at (procs s' x) = resume_at (procs s x)"
    using a by (cases "resume_at (procs s n)"; simp add: defs)+
qed

lemma sched_wfD:
  assumes "sched_wf W s R D Z"
  shows "queues (links s) (all_queues W s R D Z)"
    "\<forall>p\<in>set R. status (procs s p) \<in> {PROC_STATUS_READY_TO_RUN, PROC_STATUS_UNINITIALIZED}"
    "\<forall>p\<in>set D. status (procs s p) = PROC_STATUS_READY_TO_DIE"
    "\<forall>p\<in>set Z. status (procs s p) = PROC_STATUS_SLEEPING_TIMER"
    "sorted (map (\<lambda>p. sleep_until (procs s p)) Z)"
    "\<forall>p\<in>members W. status (procs s p) = PROC_STATUS_BLOCKED"
    "\<forall>p\<in>members (all_queues W s R D Z) - {current_process s}.
        resume_at (procs s p) = In_prelude \<longleftrightarrow> status (procs s p) = PROC_STATUS_UNINITIALIZED"
  using assms unfolding sched_wf_def by blast+

lemma sched_wf_cong:
  assumes "sched_wf W s R D Z" "links s' = links s" "ready_to_run s' = ready_to_run s" "ready_to_die s' = ready_to_die s"
    "sleeping s' = sleeping s" "current_process s' = current_process s"
    "\<And>p. status (procs s' p) = status (procs s p) \<and> resume_at (procs s' p) = resume_at (procs s p) \<and>
      sleep_until (procs s' p) = sleep_until (procs s p)"
  shows "sched_wf W s' R D Z"
  using assms(1) unfolding sched_wf_def by (simp add: assms(2-7))

lemma advance_switch:
  assumes wf: "sched_wf W s (n # R) D Z" and cur: "current_process s = p" "p \<noteq> 0"
      "status (procs s p) = PROC_STATUS_RUNNING \<longrightarrow> p \<notin> members (all_queues W s (n # R) D Z)"
      "status (procs s p) \<noteq> PROC_STATUS_UNINITIALIZED" "n \<noteq> p"
    and lk: "switch_lock_count s = 0" "\<not> switch_lock_flag s" "irq_lock_count s = c + 1" "c < 18446744073709551613"
  obtains s' where "schedule_advance s = Switch s'" "current_process s' = n"
    "running W s' (R @ (if status (procs s p) = PROC_STATUS_RUNNING then [p] else [])) D Z
       (if resume_at (procs s n) = In_fork then c + 1 else c)"
    "resume_at (procs s' p) = In_switch" "same_procs s s'" "quantum_remaining s' = QUANTUM_LENGTH"
    "\<And>x. x \<noteq> p \<Longrightarrow> x \<noteq> n \<Longrightarrow> status (procs s' x) = status (procs s x) \<and> resume_at (procs s' x) = resume_at (procs s x)"
proof -
  define r where "r \<longleftrightarrow> status (procs s p) = PROC_STATUS_RUNNING"
  define s1 where "s1 = upd_proc p (\<lambda>x. x\<lparr>elapsed := elapsed x + (now s - switch_timestamp x)\<rparr>) (s\<lparr>time_elapsed := now s\<rparr>)"
  obtain q1 N1 where pt: "proc_queue_push_tail (ready_to_run s) p (links s) = (q1, N1)" by fastforce
  define s2 where "s2 = (if r then (upd_proc p (\<lambda>x. x\<lparr>status := PROC_STATUS_READY_TO_RUN\<rparr>) s1)\<lparr>ready_to_run := q1, links := N1\<rparr> else s1)"
  obtain m q2 N2 where pop: "proc_queue_pop_head (ready_to_run s2) (links s2) = (m, q2, N2)"
    by (cases "proc_queue_pop_head (ready_to_run s2) (links s2)") auto
  define s3 where "s3 = upd_proc m (\<lambda>x. x\<lparr>switch_timestamp := now s\<rparr>)
    (s2\<lparr>quantum_remaining := QUANTUM_LENGTH, ready_to_run := q2, links := N2\<rparr>)"
  let ?R = "R @ (if r then [p] else [])"
  note Q = sched_wfD(1) [OF wf]
  have ne: "\<not> proc_queue_empty (ready_to_run s)"
    using qrep_empty [OF rep0 [OF Q]] by simp
  have sw: "\<not> 0 < switch_lock_count s" "status (procs s1 p) = status (procs s p)" "current_process s1 = p"
    "ready_to_run s1 = ready_to_run s" "links s1 = links s" "time_elapsed s1 = now s"
    using lk(1) cur(1) by (auto simp: s1_def)
  have te: "time_elapsed s2 = now s" "current_process s2 = p" using sw by (auto simp: s2_def)
  have eq: "schedule_advance s = Switch (multitask_switch m s3)"
    using ne cur(1,2) sw pt pop te unfolding schedule_advance_def s3_def s2_def r_def
    by (auto simp: Let_def s1_def upd_proc_def split: if_splits)
  have Q2: "queues (links s2) ((ready_to_run s2, n # ?R) # (ready_to_die s, D) # (sleeping s, Z) # W)"
    using push_tail0 [OF Q cur(2) _ pt] cur(3) Q sw by (auto simp: s2_def r_def)
  have m: "m = n" and Q3: "queues N2 ((q2, ?R) # (ready_to_die s, D) # (sleeping s, Z) # W)"
    using pop_head0 [OF Q2 pop] by simp_all
  define s' where "s' = multitask_switch n s3"
  have Qd: "distinct (concat (map snd (all_queues W s (n # R) D Z)))" "0 \<notin> set (n # R)"
    using Q qrep_facts(2) [OF rep0 [OF Q]] unfolding queues_def by blast+
  have n0: "n \<noteq> 0" and nn: "n \<notin> set R" "n \<notin> set D" "n \<notin> set Z" "n \<notin> members W" using Qd by auto
  have st3: "status (procs s3 x) = (if x = p \<and> r then PROC_STATUS_READY_TO_RUN else status (procs s x))"
    "resume_at (procs s3 x) = resume_at (procs s x)" for x
    by (auto simp: s3_def s2_def s1_def)
  have f3: "current_process s3 = p" "irq_lock_count s3 = c + 1" "links s3 = N2" "ready_to_run s3 = q2"
    "ready_to_die s3 = ready_to_die s" "sleeping s3 = sleeping s" "switch_lock_count s3 = 0" "\<not> switch_lock_flag s3"
    "quantum_remaining s3 = QUANTUM_LENGTH" "same_procs s s3"
    using cur lk by (auto simp: s3_def s2_def s1_def same_procs_def)
  have fr: "resume_at (procs s3 n) = In_prelude \<longleftrightarrow> status (procs s3 n) = PROC_STATUS_UNINITIALIZED"
    using sched_wfD(7) [OF wf] cur(1,5) by (simp add: st3)
  note M = multitask_switch_fields [OF f3(1) cur(2) n0 cur(5) f3(2) lk(4) fr, folded s'_def]
  have st': "status (procs s' x) = (if x = n then PROC_STATUS_RUNNING
      else if x = p \<and> r then PROC_STATUS_READY_TO_RUN else status (procs s x))" for x
    using M(11,13) st3 by simp
  have sl: "sleep_until (procs s' x) = sleep_until (procs s x)" for x
    using M(9) f3(10) by (simp add: same_procs_def)
  have pm: "r \<Longrightarrow> p \<notin> set R \<and> p \<notin> set D \<and> p \<notin> set Z \<and> p \<notin> members W" using cur(3) by (auto simp: r_def)
  have wf': "sched_wf W s' ?R D Z"
    unfolding sched_wf_def
  proof (intro conjI)
    show "queues (links s') (all_queues W s' ?R D Z)" using Q3 by (simp add: M f3)
    show "\<forall>x\<in>set ?R. status (procs s' x) \<in> {PROC_STATUS_READY_TO_RUN, PROC_STATUS_UNINITIALIZED}"
      using sched_wfD(2) [OF wf] st' nn(1) cur(5) by auto
    show "\<forall>x\<in>set D. status (procs s' x) = PROC_STATUS_READY_TO_DIE"
      using sched_wfD(3) [OF wf] st' nn pm by auto
    show "\<forall>x\<in>set Z. status (procs s' x) = PROC_STATUS_SLEEPING_TIMER"
      using sched_wfD(4) [OF wf] st' nn pm by auto
    show "sorted (map (\<lambda>x. sleep_until (procs s' x)) Z)" using sched_wfD(5) [OF wf] by (simp add: sl)
    show "\<forall>x\<in>members W. status (procs s' x) = PROC_STATUS_BLOCKED"
    proof
      fix x assume x: "x \<in> members W"
      then have "x \<noteq> n" "r \<Longrightarrow> x \<noteq> p" using nn(4) pm by blast+
      then show "status (procs s' x) = PROC_STATUS_BLOCKED" using sched_wfD(6) [OF wf] x st' by auto
    qed
    show "\<forall>x\<in>members (all_queues W s' ?R D Z) - {current_process s'}.
        resume_at (procs s' x) = In_prelude \<longleftrightarrow> status (procs s' x) = PROC_STATUS_UNINITIALIZED"
    proof
      fix x assume x: "x \<in> members (all_queues W s' ?R D Z) - {current_process s'}"
      then have xn: "x \<noteq> n" by (simp add: M(1))
      show "resume_at (procs s' x) = In_prelude \<longleftrightarrow> status (procs s' x) = PROC_STATUS_UNINITIALIZED"
      proof (cases "x = p")
        case True
        then show ?thesis using M(12) st' xn cur(4) by simp
      next
        case False
        then have "x \<in> members (all_queues W s (n # R) D Z) - {current_process s}"
          using x cur(1) by (auto split: if_splits)
        then have "resume_at (procs s x) = In_prelude \<longleftrightarrow> status (procs s x) = PROC_STATUS_UNINITIALIZED"
          using sched_wfD(7) [OF wf] by blast
        then show ?thesis using M(14) [OF False] st' xn st3(2) False by simp
      qed
    qed
  qed
  have nm: "n \<notin> members (all_queues W s' ?R D Z)" using nn cur(5) by auto
  have "running W s' ?R D Z (if resume_at (procs s n) = In_fork then c + 1 else c)"
    unfolding running_def using wf' nm n0 M f3 st3(2) by simp
  then show ?thesis using that [of s'] eq m M f3 st' st3(2)
    by (auto simp: s'_def [symmetric] r_def intro: same_procs_trans)
qed

text \<open>How an operation of process \<open>p\<close> ends that asks the scheduler to go on, in a state with these
  queues; \<open>r\<close> says whether \<open>p\<close> can go on running. The head of the ready queue runs next, and \<open>p\<close> goes to
  its tail if it can run; with nothing ready \<open>p\<close> goes on, or the processor waits.\<close>

definition gives_way ::
  "(wait_queue \<times> nat list) list \<Rightarrow> nat \<Rightarrow> bool \<Rightarrow> nat list \<Rightarrow> nat list \<Rightarrow> nat list \<Rightarrow> u64 \<Rightarrow> sched \<Rightarrow> outcome \<Rightarrow> bool" where
  "gives_way W p r R D Z c s out \<longleftrightarrow>
     (case R of
        n # R' \<Rightarrow>
          \<exists>s'. out = Switch s' \<and> current_process s' = n \<and>
            running W s' (R' @ (if r then [p] else [])) D Z (if resume_at (procs s n) = In_fork then c + 1 else c) \<and>
            resume_at (procs s' p) = In_switch \<and> same_procs s s' \<and> quantum_remaining s' = QUANTUM_LENGTH
      | [] \<Rightarrow>
          if r then \<exists>s'. out = Same s' \<and> current_process s' = p \<and> running W s' [] D Z c \<and> same_procs s s'
          else \<exists>s'. out = Idle p s' \<and> sched_wf W (s'\<lparr>current_process := p\<rparr>) [] D Z \<and> current_process s' = 0 \<and>
            switch_lock_count s' = 0 \<and> \<not> switch_lock_flag s' \<and> irq_lock_count s' = c + 1 \<and> same_procs s s')"

lemma gives_way_from:
  assumes "gives_way W p r R D Z c t out" "same_procs s t" "\<And>x. x \<in> set R \<Longrightarrow> resume_at (procs t x) = resume_at (procs s x)"
  shows "gives_way W p r R D Z c s out"
proof (cases R)
  case Nil
  then show ?thesis using assms(1) same_procs_trans [OF assms(2)] by (auto simp: gives_way_def)
next
  case (Cons n R')
  then have "resume_at (procs t n) = resume_at (procs s n)" using assms(3) by simp
  then show ?thesis using assms(1) same_procs_trans [OF assms(2)] Cons by (auto simp: gives_way_def)
qed

lemma advance_gives_way:
  assumes wf: "sched_wf W s R D Z" and cur: "current_process s = p" "p \<noteq> 0" "p \<notin> set R"
      "status (procs s p) = PROC_STATUS_RUNNING \<longrightarrow> p \<notin> members (all_queues W s R D Z)"
      "status (procs s p) \<noteq> PROC_STATUS_UNINITIALIZED"
    and lk: "switch_lock_count s = 0" "\<not> switch_lock_flag s" "irq_lock_count s = c + 1" "c < 18446744073709551613"
  shows "gives_way W p (status (procs s p) = PROC_STATUS_RUNNING) R D Z c s
    (obind (schedule_advance s) (\<lambda>s. Same (sched_unlock s)))"
proof (cases R)
  case (Cons n R')
  have "n \<noteq> p" using cur(3) Cons by auto
  then obtain s' where "schedule_advance s = Switch s'" "current_process s' = n"
    "running W s' (R' @ (if status (procs s p) = PROC_STATUS_RUNNING then [p] else [])) D Z
       (if resume_at (procs s n) = In_fork then c + 1 else c)"
    "resume_at (procs s' p) = In_switch" "same_procs s s'" "quantum_remaining s' = QUANTUM_LENGTH"
    using advance_switch [OF wf [unfolded Cons] cur(1,2) cur(4) [unfolded Cons] cur(5) _ lk] by blast
  then show ?thesis unfolding gives_way_def Cons by simp
next
  case Nil
  define s1 where "s1 = upd_proc p (\<lambda>x. x\<lparr>elapsed := elapsed x + (now s - switch_timestamp x)\<rparr>) (s\<lparr>time_elapsed := now s\<rparr>)"
  have e: "proc_queue_empty (ready_to_run s)" using qrep_empty [OF rep0 [OF sched_wfD(1) [OF wf]]] Nil by simp
  have wf1: "sched_wf W s1 [] D Z"
    by (rule sched_wf_cong [OF wf [unfolded Nil]]) (auto simp: s1_def)
  have c: "0 < c + 1" using u64_room [OF lk(4)] by simp
  have sp: "same_procs s s1" by (simp add: same_procs_def s1_def)
  show ?thesis
  proof (cases "status (procs s p) = PROC_STATUS_RUNNING")
    case True
    then have o: "schedule_advance s = Same s1" using e cur(1,2) lk(1) by (simp add: schedule_advance_def Let_def s1_def)
    have "sched_wf W (sched_unlock s1) [] D Z" by (rule sched_wf_cong [OF wf1]) auto
    then have "running W (sched_unlock s1) [] D Z c"
      using True cur lk c by (simp add: running_def s1_def Nil)
    then show ?thesis using True o cur(1) sp by (simp add: gives_way_def Nil same_procs_def s1_def)
  next
    case False
    define s2 where "s2 = s1\<lparr>current_process := 0, idle_switch_timestamp := now s\<rparr>"
    have o: "schedule_advance s = Idle p s2"
      using False e cur(1,2) lk(1) by (simp add: schedule_advance_def Let_def s1_def s2_def)
    have "sched_wf W (s2\<lparr>current_process := p\<rparr>) [] D Z"
      by (rule sched_wf_cong [OF wf1]) (use cur(1) in \<open>auto simp: s2_def s1_def\<close>)
    then show ?thesis using False o lk sp by (simp add: gives_way_def Nil s2_def same_procs_def s1_def)
  qed
qed

lemma yield_gives_way:
  assumes "running W s R D Z c" "c < 18446744073709551613"
  shows "gives_way W (current_process s) True R D Z c s (sched_yield s)"
proof -
  have wf: "sched_wf W (sched_lock s) R D Z"
    by (rule sched_wf_cong) (use assms(1) in \<open>auto simp: running_def\<close>)
  have "gives_way W (current_process s) True R D Z c (sched_lock s) (sched_yield s)"
    using advance_gives_way [OF wf, of "current_process s" c] assms by (auto simp: running_def sched_yield_def)
  then show ?thesis by (rule gives_way_from) (simp_all add: same_procs_def)
qed

text \<open>The end of a critical section: \<open>p\<close> has been moved to some queue, or stays.\<close>

lemma resume_gives_way:
  assumes wf: "sched_wf W s R D Z" and cur: "current_process s = p" "p \<noteq> 0" "p \<notin> set R"
      "status (procs s p) = PROC_STATUS_RUNNING \<longrightarrow> p \<notin> members (all_queues W s R D Z)"
      "status (procs s p) \<noteq> PROC_STATUS_UNINITIALIZED"
    and lk: "switch_lock_count s = 1" "switch_lock_flag s" "irq_lock_count s = c + 1" "c < 18446744073709551613"
  shows "gives_way W p (status (procs s p) = PROC_STATUS_RUNNING) R D Z c s (sched_resume s)"
proof -
  define t where "t = s\<lparr>switch_lock_count := 0, switch_lock_flag := False\<rparr>"
  have wf1: "sched_wf W t R D Z" by (rule sched_wf_cong [OF wf]) (auto simp: t_def)
  have "sched_resume s = obind (schedule_advance t) (\<lambda>s. Same (sched_unlock s))"
    using lk by (simp add: sched_resume_def Let_def t_def)
  moreover have "gives_way W p (status (procs t p) = PROC_STATUS_RUNNING) R D Z c t (obind (schedule_advance t) (\<lambda>s. Same (sched_unlock s)))"
    by (rule advance_gives_way [OF wf1]) (use cur lk in \<open>auto simp: t_def\<close>)
  ultimately have "gives_way W p (status (procs s p) = PROC_STATUS_RUNNING) R D Z c t (sched_resume s)"
    by (simp add: t_def)
  then show ?thesis by (rule gives_way_from) (simp_all add: t_def same_procs_def)
qed

lemma resume_stays:
  assumes wf: "sched_wf W s R D Z" and cur: "current_process s = p" "p \<noteq> 0" "p \<notin> members (all_queues W s R D Z)"
      "status (procs s p) = PROC_STATUS_RUNNING"
    and lk: "switch_lock_count s = 1" "\<not> switch_lock_flag s" "irq_lock_count s = c + 1" "c < 18446744073709551613"
  shows "\<exists>s'. sched_resume s = Same s' \<and> running W s' R D Z c \<and> current_process s' = p \<and> same_procs s s' \<and>
    procs s' = procs s \<and> quantum_remaining s' = quantum_remaining s"
proof -
  define t where "t = sched_unlock (s\<lparr>switch_lock_count := 0\<rparr>)"
  have "sched_resume s = Same t" using lk by (simp add: sched_resume_def Let_def t_def)
  moreover have "sched_wf W t R D Z" by (rule sched_wf_cong [OF wf]) (auto simp: t_def)
  then have "running W t R D Z c" using cur lk u64_room [OF lk(4)] by (simp add: running_def t_def)
  moreover have "current_process t = p" "same_procs s t" "procs t = procs s" "quantum_remaining t = quantum_remaining s"
    using cur(1) by (simp_all add: t_def same_procs_def)
  ultimately show ?thesis by blast
qed

section \<open>Inside a critical section\<close>

lemma yield_postponed:
  assumes "0 < switch_lock_count s" "irq_lock_count s = c + 1" "c < 18446744073709551613"
  shows "sched_yield s = Same (s\<lparr>irq_on := False, switch_lock_flag := True\<rparr>)"
  using assms u64_room [OF assms(3)] by (simp add: sched_yield_def schedule_advance_def sched_lock_def sched_unlock_def Let_def add.assoc)

lemma block_postponed:
  assumes "0 < switch_lock_count s" "irq_lock_count s = c + 1" "c < 18446744073709551613"
  shows "mp_block_proc p r s = Same (upd_proc p (\<lambda>x. x\<lparr>status := r\<rparr>) (s\<lparr>irq_on := False, switch_lock_flag := True\<rparr>))"
  using assms u64_room [OF assms(3)]
  by (simp add: mp_block_proc_def schedule_advance_def sched_lock_def sched_unlock_def Let_def add.assoc upd_proc_def)

lemma postpone_fields [simp]:
  "procs (sched_postpone s) = procs s" "links (sched_postpone s) = links s" "current_process (sched_postpone s) = current_process s"
  "ready_to_run (sched_postpone s) = ready_to_run s" "ready_to_die (sched_postpone s) = ready_to_die s"
  "sleeping (sched_postpone s) = sleeping s" "quantum_remaining (sched_postpone s) = quantum_remaining s"
  "tick_interval_ns (sched_postpone s) = tick_interval_ns s" "now (sched_postpone s) = now s"
  "switch_lock_count (sched_postpone s) = switch_lock_count s + 1" "switch_lock_flag (sched_postpone s) = switch_lock_flag s"
  "irq_lock_count (sched_postpone s) = irq_lock_count s + 1"
  by (auto simp: sched_postpone_def)

section \<open>Sleeping\<close>

lemma sorted_insert:
  assumes "sorted (map f Z)"
  shows "sorted (map f (takeWhile (\<lambda>x. f x \<le> t) Z) @ t # map f (dropWhile (\<lambda>x. f x \<le> t) Z))"
proof -
  have "sorted (map f (takeWhile (\<lambda>x. f x \<le> t) Z) @ map f (dropWhile (\<lambda>x. f x \<le> t) Z))"
    using assms by (metis map_append takeWhile_dropWhile_id)
  moreover have "\<forall>x\<in>set (takeWhile (\<lambda>x. f x \<le> t) Z). f x \<le> t" using set_takeWhileD by fastforce
  moreover have "\<forall>x\<in>set (dropWhile (\<lambda>x. f x \<le> t) Z). t \<le> f x"
  proof (cases "dropWhile (\<lambda>x. f x \<le> t) Z")
    case (Cons y ys)
    then have y: "\<not> f y \<le> t" by (metis hd_dropWhile list.distinct(1) list.sel(1))
    have "sorted (map f (y # ys))" using assms Cons by (metis dropWhile_eq_drop drop_map sorted_wrt_drop)
    then show ?thesis using y Cons by auto
  next
    case Nil
    show ?thesis unfolding Nil by simp
  qed
  ultimately show ?thesis by (auto simp: sorted_append)
qed

lemma butlast_last_app: "xs \<noteq> [] \<Longrightarrow> butlast xs @ last xs # ys = xs @ ys"
  by (induction xs) auto

lemma last_takeWhile_split:
  assumes "takeWhile P Z \<noteq> []"
  shows "Z = butlast (takeWhile P Z) @ last (takeWhile P Z) # dropWhile P Z"
  unfolding butlast_last_app [OF assms] by simp

lemma sleep_gives_way:
  fixes t :: u64
  assumes ru: "running W s R D Z c" and c: "c < 18446744073709551613"
  defines "p \<equiv> current_process s"
  defines "Z' \<equiv> takeWhile (\<lambda>x. sleep_until (procs s x) \<le> t) Z @ p # dropWhile (\<lambda>x. sleep_until (procs s x) \<le> t) Z"
  shows "\<exists>out. sleep_proc_until p t s = Some out \<and>
    gives_way W p False R D Z' c (upd_proc p (\<lambda>x. x\<lparr>sleep_until := t\<rparr>) s) out"
proof -
  define s1 where "s1 = upd_proc p (\<lambda>x. x\<lparr>sleep_until := t, status := PROC_STATUS_SLEEPING_TIMER\<rparr>) (sched_postpone s)"
  let ?P = "\<lambda>x. sleep_until (procs s x) \<le> t"
  have wf: "sched_wf W s R D Z" and p: "p \<noteq> 0" "p \<notin> members (all_queues W s R D Z)" and lk: "switch_lock_count s = 0" "irq_lock_count s = c"
    using ru by (auto simp: running_def p_def)
  note Q = sched_wfD(1) [OF wf]
  have q: "links s1 = links s" "sleeping s1 = sleeping s" by (simp_all add: s1_def)
  have tw: "takeWhile (proc_sleep_until_less_than_equal t s1) Z = takeWhile ?P Z"
    using p(2) by (intro takeWhile_cong) (auto simp: proc_sleep_until_less_than_equal_def s1_def)
  have fl: "proc_queue_find_last_prefix (sleeping s1) (proc_sleep_until_less_than_equal t s1) (links s1) = Some (last (0 # takeWhile ?P Z))"
    using search_spec(3) [OF rep2 [OF Q]] tw q by simp
  obtain q' N' where ins: "(if last (0 # takeWhile ?P Z) = 0 then proc_queue_push_head (sleeping s) p (links s)
      else proc_queue_insert_after (sleeping s) (last (0 # takeWhile ?P Z)) p (links s)) = (q', N')" by fastforce
  have "0 \<notin> set (takeWhile ?P Z)" using qrep_facts(2) [OF rep2 [OF Q]] set_takeWhileD [of 0 ?P Z] by blast
  then have nz: "last (0 # takeWhile ?P Z) = 0 \<longleftrightarrow> takeWhile ?P Z = []" using last_pos by auto
  have Q': "queues N' ((ready_to_run s, R) # (ready_to_die s, D) # (q', Z') # W)"
  proof (cases "takeWhile ?P Z = []")
    case True
    then have "dropWhile ?P Z = Z" by (metis self_append_conv2 takeWhile_dropWhile_id)
    then show ?thesis using True ins nz push_head2 [OF Q p(1) p(2)] by (simp add: Z'_def)
  next
    case False
    note sp = last_takeWhile_split [OF False]
    have "queues N' ((ready_to_run s, R) # (ready_to_die s, D) #
        (q', butlast (takeWhile ?P Z) @ last (takeWhile ?P Z) # p # dropWhile ?P Z) # W)"
      using insert_after2 [of "links s" "(ready_to_run s, R)" "(ready_to_die s, D)" "sleeping s" "butlast (takeWhile ?P Z)"
          "last (takeWhile ?P Z)" "dropWhile ?P Z" W p q' N'] Q p sp ins nz False by simp
    then show ?thesis unfolding butlast_last_app [OF False] Z'_def .
  qed
  define s3 where "s3 = s1\<lparr>sleeping := q', links := N', irq_on := False, switch_lock_flag := True\<rparr>"
  have ez: "proc_queue_empty (sleeping s) \<Longrightarrow> Z = []" using qrep_empty [OF rep2 [OF Q]] by simp
  have "sched_yield (s1\<lparr>sleeping := q', links := N'\<rparr>) = Same s3"
    using yield_postponed [of "s1\<lparr>sleeping := q', links := N'\<rparr>" c] lk c by (simp add: s1_def s3_def)
  then have out: "sleep_proc_until p t s = Some (sched_resume s3)"
    using ins fl ez q nz unfolding sleep_proc_until_def by (auto simp: Let_def s1_def [symmetric])
  have pr: "procs s3 = (procs s)(p := (procs s p)\<lparr>sleep_until := t, status := PROC_STATUS_SLEEPING_TIMER\<rparr>)"
    by (simp add: s3_def s1_def)
  have mem: "members (all_queues W s3 R D Z') = insert p (members (all_queues W s R D Z))"
    by (auto simp: Z'_def dest: set_takeWhileD set_dropWhileD) (metis Un_iff set_append takeWhile_dropWhile_id)
  have pn: "p \<notin> set R" "p \<notin> set D" "p \<notin> set Z" "p \<notin> members W" using p(2) by auto
  have wf3: "sched_wf W s3 R D Z'"
    unfolding sched_wf_def
  proof (intro conjI)
    show "queues (links s3) (all_queues W s3 R D Z')" using Q' by (simp add: s3_def s1_def)
    show "\<forall>x\<in>set R. status (procs s3 x) \<in> {PROC_STATUS_READY_TO_RUN, PROC_STATUS_UNINITIALIZED}"
      "\<forall>x\<in>set D. status (procs s3 x) = PROC_STATUS_READY_TO_DIE"
      using sched_wfD(2,3) [OF wf] pn by (auto simp: pr)
    show "\<forall>x\<in>members W. status (procs s3 x) = PROC_STATUS_BLOCKED"
      using sched_wfD(6) [OF wf] pn(4) unfolding pr by (metis fun_upd_other)
    show "\<forall>x\<in>set Z'. status (procs s3 x) = PROC_STATUS_SLEEPING_TIMER"
      using sched_wfD(4) [OF wf] by (auto simp: Z'_def pr dest: set_takeWhileD set_dropWhileD)
    have "map (\<lambda>x. sleep_until (procs s3 x)) Z' =
        map (\<lambda>x. sleep_until (procs s x)) (takeWhile ?P Z) @ t # map (\<lambda>x. sleep_until (procs s x)) (dropWhile ?P Z)"
      using pn(3) by (auto simp: Z'_def pr dest: set_takeWhileD set_dropWhileD)
    then show "sorted (map (\<lambda>x. sleep_until (procs s3 x)) Z')"
      using sorted_insert [OF sched_wfD(5) [OF wf], of t] by simp
    show "\<forall>x\<in>members (all_queues W s3 R D Z') - {current_process s3}.
        resume_at (procs s3 x) = In_prelude \<longleftrightarrow> status (procs s3 x) = PROC_STATUS_UNINITIALIZED"
    proof
      fix x assume "x \<in> members (all_queues W s3 R D Z') - {current_process s3}"
      then have "x \<noteq> p" "x \<in> members (all_queues W s R D Z) - {current_process s}"
        unfolding mem by (auto simp: s3_def s1_def p_def)
      then show "resume_at (procs s3 x) = In_prelude \<longleftrightarrow> status (procs s3 x) = PROC_STATUS_UNINITIALIZED"
        using sched_wfD(7) [OF wf] by (simp add: pr)
    qed
  qed
  have "gives_way W p (status (procs s3 p) = PROC_STATUS_RUNNING) R D Z' c s3 (sched_resume s3)"
    by (rule resume_gives_way [OF wf3]) (use p pn lk c in \<open>auto simp: s3_def s1_def p_def\<close>)
  then have "gives_way W p False R D Z' c s3 (sched_resume s3)" by (simp add: pr)
  then have "gives_way W p False R D Z' c (upd_proc p (\<lambda>x. x\<lparr>sleep_until := t\<rparr>) s) (sched_resume s3)"
    by (rule gives_way_from) (auto simp: same_procs_def s3_def s1_def)
  then show ?thesis using out by blast
qed

section \<open>The timer\<close>

lemma mark_loop_spec:
  assumes "nseg (links s) p us q" "us \<noteq> []" "distinct us"
  shows "mark_loop (last us) p s =
    Some (s\<lparr>procs := \<lambda>x. if x \<in> set us then (procs s x)\<lparr>status := PROC_STATUS_READY_TO_RUN\<rparr> else procs s x\<rparr>)"
  using assms
proof (induction us arbitrary: p s)
  case (Cons u us)
  have p: "p = u" "u \<noteq> 0" using Cons.prems(1) by auto
  let ?s = "upd_proc u (\<lambda>x. x\<lparr>status := PROC_STATUS_READY_TO_RUN\<rparr>) s"
  show ?case
  proof (cases "us = []")
    case True
    then show ?thesis using p by (subst mark_loop.simps) (auto simp: upd_proc_def fun_eq_iff)
  next
    case False
    have "mark_loop (last us) (links s u) ?s =
      Some (?s\<lparr>procs := \<lambda>x. if x \<in> set us then (procs ?s x)\<lparr>status := PROC_STATUS_READY_TO_RUN\<rparr> else procs ?s x\<rparr>)"
      using Cons.IH [of ?s "links s u"] Cons.prems False by simp
    moreover have "u \<noteq> last us" using Cons.prems(3) False by auto
    ultimately show ?thesis using p False Cons.prems(3)
      by (subst mark_loop.simps) (auto simp: Let_def upd_proc_def fun_eq_iff intro!: arg_cong [where f = "\<lambda>f. s\<lparr>procs := f\<rparr>"])
  qed
qed simp

lemma queues_splice:
  assumes "queues N ((r, R) # (d, D) # (z, us @ vs) # W)" "us \<noteq> []"
    "proc_queue_splice_prefix_tail r z (last us) N = (r', z', N')"
  shows "queues N' ((r', R @ us) # (d, D) # (z', vs) # W)"
proof -
  have q: "qrep N r R" "qrep N d D" "qrep N z (us @ vs)" and dj: "set R \<inter> set (us @ vs) = {}"
    using assms(1) by (auto simp: queues_def)
  note sp = splice_spec [OF q(1,3) dj assms(2,3)]
  have o: "set D \<inter> set (R @ us) = {}" "members W \<inter> set (R @ us) = {}"
    using assms(1) by (auto simp: queues_def)
  have "qrep N' d D" using o(1) sp(3) by (intro qrep_frame [OF q(2)]) auto
  moreover have "qrep N' q l" if "(q, l) \<in> set W" for q l
  proof (rule qrep_frame)
    show "qrep N q l" using assms(1) that by (auto simp: queues_def)
    have "set l \<subseteq> members W" using that by (auto intro!: bexI [of _ "(q, l)"])
    then show "N' x = N x" if "x \<in> set l" for x using o(2) that by (intro sp(3)) blast
  qed
  ultimately show ?thesis using assms(1) sp(1,2) by (auto simp: queues_def)
qed

lemma wake_spec:
  fixes t :: u64
  assumes wf: "sched_wf W s R D Z" and cur: "current_process s \<notin> set Z"
  defines "P \<equiv> \<lambda>x. sleep_until (procs s x) \<le> t"
  shows "\<exists>s'. wake_procs_before_timestamp t s = Some s' \<and> sched_wf W s' (R @ takeWhile P Z) D (dropWhile P Z) \<and>
    (\<forall>x. procs s' x = (if x \<in> set (takeWhile P Z) then (procs s x)\<lparr>status := PROC_STATUS_READY_TO_RUN\<rparr> else procs s x)) \<and>
    current_process s' = current_process s \<and> switch_lock_count s' = switch_lock_count s \<and> switch_lock_flag s' = switch_lock_flag s \<and>
    irq_lock_count s' = irq_lock_count s \<and> quantum_remaining s' = quantum_remaining s \<and> tick_interval_ns s' = tick_interval_ns s \<and> now s' = now s"
proof -
  note Q = sched_wfD(1) [OF wf]
  let ?us = "takeWhile P Z" and ?vs = "dropWhile P Z"
  have "0 \<notin> set ?us" using qrep_facts(2) [OF rep2 [OF Q]] set_takeWhileD [of 0 P Z] by blast
  then have nz: "last (0 # ?us) = 0 \<longleftrightarrow> ?us = []" using last_pos by auto
  have fl: "proc_queue_find_last_prefix (sleeping s) (proc_sleep_until_less_than_equal t s) (links s) = Some (last (0 # ?us))"
    using search_spec(3) [OF rep2 [OF Q]] by (simp add: P_def proc_sleep_until_less_than_equal_def [abs_def])
  show ?thesis
  proof (cases "?us = []")
    case True
    then have "?vs = Z" by (metis self_append_conv2 takeWhile_dropWhile_id)
    then show ?thesis using True wf fl nz by (simp add: wake_procs_before_timestamp_def)
  next
    case False
    define s1 where "s1 = s\<lparr>procs := \<lambda>x. if x \<in> set ?us then (procs s x)\<lparr>status := PROC_STATUS_READY_TO_RUN\<rparr> else procs s x\<rparr>"
    obtain r' z' N' where sp: "proc_queue_splice_prefix_tail (ready_to_run s) (sleeping s) (last ?us) (links s) = (r', z', N')"
      using prod_cases3 by blast
    define s2 where "s2 = s1\<lparr>ready_to_run := r', sleeping := z', links := N'\<rparr>"
    have "nseg (links s) (qhead (sleeping s)) (?us @ ?vs) 0" using rep2 [OF Q] by (simp add: qrep_def)
    then obtain m where "nseg (links s) (qhead (sleeping s)) ?us m" unfolding nseg_append by blast
    moreover have "distinct ?us" using qrep_facts(1) [OF rep2 [OF Q]] distinct_takeWhile by blast
    ultimately have "mark_loop (last ?us) (qhead (sleeping s)) s = Some s1" using mark_loop_spec False by (simp add: s1_def)
    then have w: "wake_procs_before_timestamp t s = Some s2"
      using fl nz False sp by (simp add: wake_procs_before_timestamp_def proc_queue_head_def s1_def s2_def)
    have Q2: "queues N' ((r', R @ ?us) # (ready_to_die s, D) # (z', ?vs) # W)"
      using queues_splice [of "links s" "ready_to_run s" R "ready_to_die s" D "sleeping s" ?us ?vs W r' z' N'] Q False sp by simp
    have dj: "set ?us \<inter> set R = {}" "set ?us \<inter> set D = {}" "set ?us \<inter> set ?vs = {}" "set ?us \<inter> members W = {}"
      using Q2 by (auto simp: queues_def)
    have st: "status (procs s2 x) = (if x \<in> set ?us then PROC_STATUS_READY_TO_RUN else status (procs s x))"
      "resume_at (procs s2 x) = resume_at (procs s x)" "sleep_until (procs s2 x) = sleep_until (procs s x)" for x
      by (simp_all add: s2_def s1_def)
    have us: "x \<in> set ?us \<Longrightarrow> x \<in> set Z" for x by (rule set_takeWhileD [THEN conjunct1])
    have vs: "x \<in> set ?vs \<Longrightarrow> x \<in> set Z" for x by (rule set_dropWhileD)
    have "sched_wf W s2 (R @ ?us) D ?vs"
      unfolding sched_wf_def
    proof (intro conjI)
      show "queues (links s2) (all_queues W s2 (R @ ?us) D ?vs)" using Q2 by (simp add: s2_def s1_def)
      show "\<forall>x\<in>set (R @ ?us). status (procs s2 x) \<in> {PROC_STATUS_READY_TO_RUN, PROC_STATUS_UNINITIALIZED}"
        using sched_wfD(2) [OF wf] by (auto simp: st)
      show "\<forall>x\<in>set D. status (procs s2 x) = PROC_STATUS_READY_TO_DIE" using sched_wfD(3) [OF wf] dj(2) by (auto simp: st)
      show "\<forall>x\<in>set ?vs. status (procs s2 x) = PROC_STATUS_SLEEPING_TIMER"
      proof
        fix x assume "x \<in> set ?vs"
        moreover from this have "x \<notin> set ?us" using dj(3) by blast
        ultimately show "status (procs s2 x) = PROC_STATUS_SLEEPING_TIMER" using sched_wfD(4) [OF wf] vs by (simp add: st)
      qed
      show "\<forall>x\<in>members W. status (procs s2 x) = PROC_STATUS_BLOCKED"
      proof
        fix x assume "x \<in> members W"
        moreover from this have "x \<notin> set ?us" using dj(4) by blast
        ultimately show "status (procs s2 x) = PROC_STATUS_BLOCKED" using sched_wfD(6) [OF wf] by (simp only: st if_False)
      qed
      show "sorted (map (\<lambda>x. sleep_until (procs s2 x)) ?vs)"
        using sched_wfD(5) [OF wf] unfolding st by (metis dropWhile_eq_drop drop_map sorted_wrt_drop)
      show "\<forall>x\<in>members (all_queues W s2 (R @ ?us) D ?vs) - {current_process s2}.
          resume_at (procs s2 x) = In_prelude \<longleftrightarrow> status (procs s2 x) = PROC_STATUS_UNINITIALIZED"
      proof
        fix x assume x: "x \<in> members (all_queues W s2 (R @ ?us) D ?vs) - {current_process s2}"
        have "x \<in> members (all_queues W s R D Z) - {current_process s}"
          using x us [of x] vs [of x] by (auto simp: s2_def s1_def)
        then have "resume_at (procs s x) = In_prelude \<longleftrightarrow> status (procs s x) = PROC_STATUS_UNINITIALIZED"
          using sched_wfD(7) [OF wf] by blast
        moreover have "x \<in> set ?us \<Longrightarrow> status (procs s x) = PROC_STATUS_SLEEPING_TIMER"
          using sched_wfD(4) [OF wf] us by blast
        ultimately show "resume_at (procs s2 x) = In_prelude \<longleftrightarrow> status (procs s2 x) = PROC_STATUS_UNINITIALIZED"
          by (auto simp: st)
      qed
    qed
    then show ?thesis using w by (auto simp: s2_def s1_def)
  qed
qed

lemma sorted_takeWhile_filter:
  fixes t :: "'b::linorder"
  assumes "sorted (map f Z)"
  shows "takeWhile (\<lambda>x. f x \<le> t) Z = filter (\<lambda>x. f x \<le> t) Z" "dropWhile (\<lambda>x. f x \<le> t) Z = filter (\<lambda>x. t < f x) Z"
proof -
  have "takeWhile (\<lambda>x. f x \<le> t) Z = filter (\<lambda>x. f x \<le> t) Z \<and> dropWhile (\<lambda>x. f x \<le> t) Z = filter (\<lambda>x. t < f x) Z"
    using assms
  proof (induction Z)
    case (Cons z Z)
    then have "filter (\<lambda>x. f x \<le> t) Z = [] \<and> filter (\<lambda>x. t < f x) Z = Z" if "\<not> f z \<le> t"
      using that by (fastforce simp: filter_empty_conv intro!: filter_True)
    then show ?case using Cons by auto
  qed simp
  then show "takeWhile (\<lambda>x. f x \<le> t) Z = filter (\<lambda>x. f x \<le> t) Z" "dropWhile (\<lambda>x. f x \<le> t) Z = filter (\<lambda>x. t < f x) Z"
    by blast+
qed

lemma timer_spec:
  fixes t :: u64
  assumes ru: "running W s R D Z c" and c: "c < 18446744073709551613"
  defines "woken \<equiv> filter (\<lambda>p. sleep_until (procs s p) \<le> t) Z"
    and "rest \<equiv> filter (\<lambda>p. t < sleep_until (procs s p)) Z"
  shows "\<exists>out. handle_timer t s = Some out \<and>
    (if quantum_remaining s \<noteq> 0 \<and> quantum_remaining s \<le> tick_interval_ns s
     then gives_way W (current_process s) True (R @ woken) D rest c s out
     else \<exists>s'. out = Same s' \<and> running W s' (R @ woken) D rest c \<and> current_process s' = current_process s \<and>
       quantum_remaining s' = (if quantum_remaining s = 0 then 0 else quantum_remaining s - tick_interval_ns s) \<and>
       same_procs s s' \<and> (\<forall>x. resume_at (procs s' x) = resume_at (procs s x)))"
proof -
  let ?p = "current_process s"
  have wf: "sched_wf W s R D Z" and p: "?p \<noteq> 0" "?p \<notin> members (all_queues W s R D Z)" "status (procs s ?p) = PROC_STATUS_RUNNING"
    and lk: "switch_lock_count s = 0" "irq_lock_count s = c" "\<not> switch_lock_flag s"
    using ru by (auto simp: running_def)
  have "sched_wf W (sched_postpone s) R D Z" by (rule sched_wf_cong [OF wf]) auto
  from wake_spec [OF this, of t] p(2) sorted_takeWhile_filter [OF sched_wfD(5) [OF wf], of t]
  obtain s1 where s1: "wake_procs_before_timestamp t (sched_postpone s) = Some s1" "sched_wf W s1 (R @ woken) D rest"
      "\<And>x. procs s1 x = (if x \<in> set woken then (procs s x)\<lparr>status := PROC_STATUS_READY_TO_RUN\<rparr> else procs s x)"
      "current_process s1 = ?p" "switch_lock_count s1 = 1" "\<not> switch_lock_flag s1" "irq_lock_count s1 = c + 1"
      "quantum_remaining s1 = quantum_remaining s" "tick_interval_ns s1 = tick_interval_ns s" "now s1 = now s"
    using lk by (auto simp: woken_def rest_def)
  have pm: "?p \<notin> set (R @ woken)" "?p \<notin> members (all_queues W s1 (R @ woken) D rest)"
    using p(2) by (auto simp: woken_def rest_def)
  have sp: "status (procs s1 ?p) = PROC_STATUS_RUNNING" using pm(1) p(3) s1(3) by simp
  have same: "same_procs s s1" "resume_at (procs s1 x) = resume_at (procs s x)" for x
    using s1(3,9,10) by (simp_all add: same_procs_def)
  show ?thesis
  proof (cases "quantum_remaining s \<noteq> 0 \<and> quantum_remaining s \<le> tick_interval_ns s")
    case True
    define s2 where "s2 = s1\<lparr>irq_on := False, switch_lock_flag := True\<rparr>"
    have "sched_yield s1 = Same s2" using yield_postponed [of s1 c] s1(5,7) c by (simp add: s2_def)
    then have out: "handle_timer t s = Some (sched_resume s2)" using s1 True by (simp add: handle_timer_def)
    have "sched_wf W s2 (R @ woken) D rest" by (rule sched_wf_cong [OF s1(2)]) (auto simp: s2_def)
    then have "gives_way W ?p (status (procs s2 ?p) = PROC_STATUS_RUNNING) (R @ woken) D rest c s2 (sched_resume s2)"
      using resume_gives_way [of W s2 "R @ woken" D rest ?p c] s1 pm sp p(1) c by (simp add: s2_def)
    then have "gives_way W ?p True (R @ woken) D rest c s2 (sched_resume s2)" using sp by (simp add: s2_def)
    then have "gives_way W ?p True (R @ woken) D rest c s (sched_resume s2)"
      by (rule gives_way_from) (use same in \<open>auto simp: s2_def same_procs_def\<close>)
    then show ?thesis using out True by simp
  next
    case False
    define s2 where "s2 = s1\<lparr>quantum_remaining := (if quantum_remaining s = 0 then 0 else quantum_remaining s - tick_interval_ns s)\<rparr>"
    have out: "handle_timer t s = Some (sched_resume s2)"
    proof (cases "quantum_remaining s = 0")
      case True
      then have "s2 = s1" using s1(8) by (simp add: s2_def)
      then show ?thesis using True s1 by (simp add: handle_timer_def)
    next
      case q: False
      then show ?thesis using False s1 by (simp add: handle_timer_def s2_def)
    qed
    have "sched_wf W s2 (R @ woken) D rest" by (rule sched_wf_cong [OF s1(2)]) (auto simp: s2_def)
    from resume_stays [OF this, of ?p c] obtain s' where
      s': "sched_resume s2 = Same s'" "running W s' (R @ woken) D rest c" "current_process s' = ?p" "same_procs s2 s'"
        "procs s' = procs s2" "quantum_remaining s' = quantum_remaining s2"
      using s1 pm sp p(1) c by (auto simp: s2_def)
    have "same_procs s s'" using same(1) s'(4) by (auto simp: s2_def same_procs_def)
    then show ?thesis using out False s' same(2) by (auto simp: s2_def)
  qed
qed

text \<open>C9. A timer interrupt at \<open>t\<close>. The sleepers whose deadline has come (and no others) become ready,
  in the order of their deadlines behind everyone who was ready before; the interrupted process goes on
  with its quantum shortened by a tick, unless that ends the quantum: then the head of the ready queue
  runs and the interrupted process goes to the tail. The walk along the sleepers always ends.\<close>

theorem handle_timer_wakes:
  assumes "running W s R D Z c" "c < 18446744073709551613"
  shows "\<exists>out. handle_timer t s = Some out \<and>
    (let ready = R @ filter (\<lambda>p. sleep_until (procs s p) \<le> t) Z; rest = filter (\<lambda>p. t < sleep_until (procs s p)) Z
     in if quantum_remaining s \<noteq> 0 \<and> quantum_remaining s \<le> tick_interval_ns s
        then gives_way W (current_process s) True ready D rest c s out
        else \<exists>s'. out = Same s' \<and> running W s' ready D rest c \<and> current_process s' = current_process s \<and>
          quantum_remaining s' = (if quantum_remaining s = 0 then 0 else quantum_remaining s - tick_interval_ns s))"
  using timer_spec [OF assms, of t] by (auto simp: Let_def split: if_splits)

section \<open>Every ready process runs\<close>

text \<open>Successive timer interrupts, while no process blocks or yields.\<close>

fun tick_run :: "u64 list \<Rightarrow> sched \<Rightarrow> sched option" where
  "tick_run [] s = Some s"
| "tick_run (t # ts) s =
     (case handle_timer t s of
        Some (Same s') \<Rightarrow> tick_run ts s'
      | Some (Switch s') \<Rightarrow> tick_run ts s'
      | _ \<Rightarrow> None)"

definition ticks_for :: "u64 \<Rightarrow> u64 \<Rightarrow> nat" where
  "ticks_for q tick = (unat q + unat tick - 1) div unat tick"

lemma ticks_for_0: "0 < tick \<Longrightarrow> ticks_for 0 tick = 0"
  by (simp add: ticks_for_def word_less_nat_alt)

lemma ticks_for_last: "q \<noteq> 0 \<Longrightarrow> q \<le> tick \<Longrightarrow> ticks_for q tick = 1"
proof -
  assume "q \<noteq> 0" "q \<le> tick"
  then have "0 < unat q" "unat q \<le> unat tick" by (simp_all add: word_le_nat_alt unat_gt_0)
  then have "unat tick \<le> unat q + unat tick - 1" "unat q + unat tick - 1 < 2 * unat tick" by linarith+
  then show ?thesis unfolding ticks_for_def by (metis One_nat_def Suc_1 div_nat_eqI mult.commute mult.right_neutral nat_mult_1)
qed

lemma ticks_for_step: "tick < q \<Longrightarrow> 0 < tick \<Longrightarrow> ticks_for q tick = Suc (ticks_for (q - tick) tick) \<and> q - tick \<noteq> 0"
proof -
  assume a: "tick < q" "0 < tick"
  then have n: "unat (q - tick) = unat q - unat tick" "unat tick < unat q" "0 < unat tick"
    by (simp_all add: unat_sub_small word_less_nat_alt less_imp_le)
  have e: "unat q + unat tick - 1 = (unat q - unat tick + unat tick - 1) + unat tick" using n by linarith
  have "q - tick \<noteq> 0" using n by (metis unat_0 zero_less_diff less_irrefl)
  moreover have "ticks_for q tick = Suc (ticks_for (q - tick) tick)"
    unfolding ticks_for_def e n(1) using n(3) by (simp only: div_add_self2 Suc_eq_plus1 not_gr0)
  ultimately show ?thesis by blast
qed

text \<open>C1. No starvation: under timer interrupts alone, the process at position \<open>k\<close> of the ready queue
  is running after exactly the ticks left in the present quantum plus \<open>k\<close> whole quanta, whatever the
  timestamps and whoever wakes up meanwhile.\<close>

theorem ready_process_runs:
  assumes "running W s R D Z c" "0 < tick_interval_ns s" "quantum_remaining s \<noteq> 0" "k < length R"
    "length ts = k * ticks_for QUANTUM_LENGTH (tick_interval_ns s) + ticks_for (quantum_remaining s) (tick_interval_ns s)"
    "unat c + length ts < 18446744073709551613"
  shows "\<exists>s'. tick_run ts s = Some s' \<and> current_process s' = R ! k"
  using assms
proof (induction ts arbitrary: s R Z c k)
  case Nil
  then have "ticks_for (quantum_remaining s) (tick_interval_ns s) = 0" by simp
  then show ?case using Nil.prems(2,3) ticks_for_last ticks_for_step by (metis linorder_not_le nat.distinct(1) one_neq_zero)
next
  case (Cons t ts)
  let ?T = "tick_interval_ns s" and ?q = "quantum_remaining s"
  have c: "c < 18446744073709551613" using Cons.prems(6) by (simp add: word_less_nat_alt)
  have c1: "unat (c + 1) = unat c + 1" using Cons.prems(6) by (simp add: unat_word_ariths)
  obtain out where h: "handle_timer t s = Some out" and sp: "if ?q \<noteq> 0 \<and> ?q \<le> ?T
     then gives_way W (current_process s) True (R @ filter (\<lambda>p. sleep_until (procs s p) \<le> t) Z) D
       (filter (\<lambda>p. t < sleep_until (procs s p)) Z) c s out
     else \<exists>s'. out = Same s' \<and> running W s' (R @ filter (\<lambda>p. sleep_until (procs s p) \<le> t) Z) D
       (filter (\<lambda>p. t < sleep_until (procs s p)) Z) c \<and> current_process s' = current_process s \<and>
       quantum_remaining s' = (if ?q = 0 then 0 else ?q - ?T) \<and> same_procs s s' \<and> (\<forall>x. resume_at (procs s' x) = resume_at (procs s x))"
    using timer_spec [OF Cons.prems(1) c, of t] by blast
  show ?case
  proof (cases "?q \<le> ?T")
    case False
    then obtain s' where s': "out = Same s'" "running W s' (R @ filter (\<lambda>p. sleep_until (procs s p) \<le> t) Z) D
       (filter (\<lambda>p. t < sleep_until (procs s p)) Z) c" "quantum_remaining s' = ?q - ?T" "tick_interval_ns s' = ?T"
      using sp Cons.prems(3) by (auto simp: same_procs_def)
    note st = ticks_for_step [of ?T ?q]
    have "\<exists>s''. tick_run ts s' = Some s'' \<and> current_process s'' = (R @ filter (\<lambda>p. sleep_until (procs s p) \<le> t) Z) ! k"
      using Cons.IH [OF s'(2)] Cons.prems(2-6) s'(3,4) False st by simp
    then show ?thesis using h s'(1) Cons.prems(4) by (simp add: nth_append)
  next
    case True
    obtain n R' where R: "R = n # R'" using Cons.prems(4) by (cases R) auto
    obtain s' d where s': "out = Switch s'" "current_process s' = n"
        "running W s' ((R' @ filter (\<lambda>p. sleep_until (procs s p) \<le> t) Z) @ [current_process s]) D
         (filter (\<lambda>p. t < sleep_until (procs s p)) Z) d" "d = c \<or> d = c + 1" "quantum_remaining s' = QUANTUM_LENGTH" "tick_interval_ns s' = ?T"
      using sp True Cons.prems(3) R by (auto simp: gives_way_def same_procs_def)
    have t1: "ticks_for ?q ?T = 1" using ticks_for_last Cons.prems(3) True by blast
    show ?thesis
    proof (cases k)
      case 0
      then have "ts = []" using Cons.prems(5) t1 by simp
      then show ?thesis using h s' 0 R by simp
    next
      case (Suc j)
      have "length ts = j * ticks_for QUANTUM_LENGTH ?T + ticks_for QUANTUM_LENGTH ?T" using Cons.prems(5) t1 Suc by simp
      moreover have "unat d + length ts < 18446744073709551613" using s'(4) Cons.prems(6) c1 by auto
      ultimately have "\<exists>s''. tick_run ts s' = Some s'' \<and>
          current_process s'' = ((R' @ filter (\<lambda>p. sleep_until (procs s p) \<le> t) Z) @ [current_process s]) ! j"
        using Cons.IH [OF s'(3), of j] Cons.prems(2,4) s'(5,6) R Suc by (simp add: QUANTUM_LENGTH_def)
      then show ?thesis using h s'(1) Cons.prems(4) R Suc by (simp add: nth_append)
    qed
  qed
qed

section \<open>A small system\<close>

text \<open>Process 1 runs, 2 (new) and 3 are ready, 4 and 5 sleep until 100 and 200; the timer ticks once per quantum.\<close>

definition small_proc :: "proc_status \<Rightarrow> u64 \<Rightarrow> resume_point \<Rightarrow> proc" where
  "small_proc st t r = \<lparr>status = st, pid = 0, elapsed = 0, sleep_until = t, switch_timestamp = 0, kids = [], parent = 0,
     child_waiters = proc_queue_init, exit_waiters = proc_queue_init, exit_code = 0, resume_at = r\<rparr>"

definition small_sched :: sched where
  "small_sched =
     \<lparr>procs = (\<lambda>p. if p = 1 then small_proc PROC_STATUS_RUNNING 0 In_switch
        else if p = 2 then small_proc PROC_STATUS_UNINITIALIZED 0 In_prelude
        else if p = 3 then small_proc PROC_STATUS_READY_TO_RUN 0 In_switch
        else if p = 4 then small_proc PROC_STATUS_SLEEPING_TIMER 100 In_switch
        else small_proc PROC_STATUS_SLEEPING_TIMER 200 In_switch),
      links = (\<lambda>p. if p = 2 then 3 else if p = 4 then 5 else 0), current_process = 1,
      ready_to_run = \<lparr>qhead = 2, qtail = 3\<rparr>, ready_to_die = \<lparr>qhead = 0, qtail = 0\<rparr>, sleeping = \<lparr>qhead = 4, qtail = 5\<rparr>,
      total_processes_added = 5, process_count = 5, idle_switch_timestamp = 0, quantum_remaining = 50000,
      tick_interval_ns = 50000, time_elapsed = 0, time_idle = 0, irq_lock_count = 0, switch_lock_count = 0,
      switch_lock_flag = False, irq_on = True, now = 7, reaped = []\<rparr>"

lemma small_running: "running [] small_sched [2, 3] [] [4, 5] 0"
  by (simp add: running_def sched_wf_def queues_def qrep_def small_sched_def small_proc_def)

theorem handle_timer_wakes_witness:
  "\<exists>out. handle_timer 150 small_sched = Some out \<and> gives_way [] 1 True [2, 3, 4] [] [5] 0 small_sched out"
  using handle_timer_wakes [OF small_running, of 150] by (simp add: small_sched_def small_proc_def)

theorem ready_process_runs_witness:
  "\<exists>s'. tick_run [150, 250] small_sched = Some s' \<and> current_process s' = 3"
  using ready_process_runs [OF small_running, of 1 "[150, 250]"]
  by (simp add: small_sched_def ticks_for_def QUANTUM_LENGTH_def)

end
