(* ===== verification/Sync.thy ===== *)
theory Sync
  imports Sched_Inv
begin

text \<open>
  Wait queues, semaphores and mutexes (kernel/mp/wait_queue.c, semaphore.c, mutex.c). A wait queue is a
  value its owner holds; an operation returns it updated, with the outcome for the scheduler. The
  parts of \<open>wait_queue_sleep\<close> and \<open>semaphore_lock\<close> that run after the sleeper has been woken are only
  the ends of critical sections, which \<open>resumed\<close> covers.
\<close>

section \<open>Wait queues\<close>

definition wait_queue_init :: wait_queue where
  "wait_queue_init = \<lparr>qhead = 0, qtail = 0\<rparr>"

definition wait_queue_empty :: "wait_queue \<Rightarrow> bool" where
  "wait_queue_empty q \<longleftrightarrow> qhead q = 0"

definition enqueue_current :: "wait_queue \<Rightarrow> sched \<Rightarrow> wait_queue \<times> sched" where
  "enqueue_current q s =
     (if current_process s = 0 then (q, s)
      else
        (let p = current_process s; s = s\<lparr>links := (links s)(p := 0)\<rparr>;
             (q, s) = (if qhead q = 0 then (q\<lparr>qhead := p\<rparr>, s) else (q, s\<lparr>links := (links s)(qtail q := p)\<rparr>))
         in (q\<lparr>qtail := p\<rparr>, s)))"

definition wait_queue_sleep :: "wait_queue \<Rightarrow> sched \<Rightarrow> wait_queue \<times> outcome" where
  "wait_queue_sleep q s =
     (if current_process s = 0 then (q, Same s)
      else
        (let (q, s) = enqueue_current q (sched_postpone s)
         in (q, obind (block_current_proc PROC_STATUS_BLOCKED s) sched_resume)))"

definition wait_queue_sleep_postponed :: "wait_queue \<Rightarrow> sched \<Rightarrow> wait_queue \<times> outcome" where
  "wait_queue_sleep_postponed q s =
     (if current_process s = 0 then (q, Same s)
      else
        (let (q, s) = enqueue_current q s
         in (q, obind (block_current_proc PROC_STATUS_BLOCKED s)
                  (\<lambda>s. obind (sched_resume s) (\<lambda>s. Same (sched_postpone s))))))"

definition wait_queue_wake_one :: "wait_queue \<Rightarrow> sched \<Rightarrow> nat \<times> wait_queue \<times> outcome" where
  "wait_queue_wake_one q s =
     (let s = sched_postpone s; p = qhead q
      in if p = 0 then (0, q, sched_resume s)
         else
           (let q = q\<lparr>qhead := links s p\<rparr>; q = (if qhead q = 0 then q\<lparr>qtail := 0\<rparr> else q);
                s = wake_proc p (s\<lparr>links := (links s)(p := 0)\<rparr>)
            in (p, q, sched_resume s)))"

partial_function (option) wake_all_loop :: "wait_queue \<Rightarrow> sched \<Rightarrow> (wait_queue \<times> sched) option" where
  "wake_all_loop q s =
     (if qhead q = 0 then Some (q, s)
      else
        wake_all_loop (q\<lparr>qhead := links s (qhead q)\<rparr>) (wake_proc (qhead q) (s\<lparr>links := (links s)(qhead q := 0)\<rparr>)))"

definition wait_queue_wake_all :: "wait_queue \<Rightarrow> sched \<Rightarrow> (wait_queue \<times> outcome) option" where
  "wait_queue_wake_all q s =
     map_option (\<lambda>(q, s). (q\<lparr>qtail := 0\<rparr>, sched_resume s)) (wake_all_loop q (sched_postpone s))"

section \<open>Semaphores\<close>

record semaphore =
  limit :: u8
  current_locks :: u8
  waiters :: wait_queue

text \<open>\<open>alloc\<close> says whether the allocation succeeds.\<close>

definition semaphore_create :: "bool \<Rightarrow> u8 \<Rightarrow> semaphore option" where
  "semaphore_create alloc n =
     (if alloc then Some \<lparr>limit = n, current_locks = 0, waiters = wait_queue_init\<rparr> else None)"

definition semaphore_lock :: "semaphore \<Rightarrow> sched \<Rightarrow> semaphore \<times> outcome" where
  "semaphore_lock m s =
     (let s = sched_postpone s
      in if current_locks m < limit m then (m\<lparr>current_locks := current_locks m + 1\<rparr>, sched_resume s)
         else (let (w, out) = wait_queue_sleep (waiters m) s in (m\<lparr>waiters := w\<rparr>, obind out sched_resume)))"

definition semaphore_try_lock :: "semaphore \<Rightarrow> sched \<Rightarrow> bool \<times> semaphore \<times> outcome" where
  "semaphore_try_lock m s =
     (let s = sched_postpone s
      in if current_locks m < limit m
         then (let (m, out) = semaphore_lock m s in (True, m, obind out sched_resume))
         else (False, m, sched_resume s))"

definition semaphore_unlock :: "semaphore \<Rightarrow> sched \<Rightarrow> semaphore \<times> outcome" where
  "semaphore_unlock m s =
     (let s = sched_postpone s
      in if \<not> wait_queue_empty (waiters m)
         then (case wait_queue_wake_one (waiters m) s of (_, w, out) \<Rightarrow> (m\<lparr>waiters := w\<rparr>, obind out sched_resume))
         else (m\<lparr>current_locks := current_locks m - 1\<rparr>, sched_resume s))"

section \<open>Mutexes\<close>

record mutex =
  semaphore_of :: semaphore

definition mutex_create :: "bool \<Rightarrow> bool \<Rightarrow> mutex option" where
  "mutex_create alloc1 alloc2 =
     (if alloc1 then map_option (\<lambda>m. \<lparr>semaphore_of = m\<rparr>) (semaphore_create alloc2 1) else None)"

definition mutex_lock :: "mutex \<Rightarrow> sched \<Rightarrow> mutex \<times> outcome" where
  "mutex_lock m s = (let (x, out) = semaphore_lock (semaphore_of m) s in (\<lparr>semaphore_of = x\<rparr>, out))"

definition mutex_try_lock :: "mutex \<Rightarrow> sched \<Rightarrow> bool \<times> mutex \<times> outcome" where
  "mutex_try_lock m s = (case semaphore_try_lock (semaphore_of m) s of (b, x, out) \<Rightarrow> (b, \<lparr>semaphore_of = x\<rparr>, out))"

definition mutex_unlock :: "mutex \<Rightarrow> sched \<Rightarrow> mutex \<times> outcome" where
  "mutex_unlock m s = (let (x, out) = semaphore_unlock (semaphore_of m) s in (\<lparr>semaphore_of = x\<rparr>, out))"

section \<open>Queues of sleepers\<close>

lemma enqueue_push_tail:
  "current_process s \<noteq> 0 \<Longrightarrow>
   enqueue_current q s = (let (q, N) = proc_queue_push_tail q (current_process s) (links s) in (q, s\<lparr>links := N\<rparr>))"
  by (simp add: enqueue_current_def proc_queue_push_tail_def Let_def)

lemma room_Suc: "(c :: u64) < 9223372036854775808 \<Longrightarrow> c < 18446744073709551613 \<and> c + 1 < 18446744073709551613"
proof -
  assume "c < 9223372036854775808"
  then have "unat c < 9223372036854775808" by (simp add: word_less_nat_alt)
  then show ?thesis by (simp add: word_less_nat_alt unat_word_ariths)
qed

lemma block_wf:
  assumes wf: "sched_wf ((q, l) # W) t R D Z" and p: "current_process t = p" "p \<noteq> 0" "p \<notin> members (all_queues ((q, l) # W) t R D Z)"
    and e: "proc_queue_push_tail q p (links t) = (q', N')"
  shows "sched_wf ((q', l @ [p]) # W) (upd_proc p (\<lambda>x. x\<lparr>status := PROC_STATUS_BLOCKED\<rparr>) (t\<lparr>links := N', irq_on := b, switch_lock_flag := f\<rparr>)) R D Z"
proof -
  define t' where "t' = upd_proc p (\<lambda>x. x\<lparr>status := PROC_STATUS_BLOCKED\<rparr>) (t\<lparr>links := N', irq_on := b, switch_lock_flag := f\<rparr>)"
  note Q = sched_wfD(1) [OF wf]
  have pn: "p \<notin> set R" "p \<notin> set D" "p \<notin> set Z" using p(3) by auto
  have st: "status (procs t' x) = (if x = p then PROC_STATUS_BLOCKED else status (procs t x))"
    "sleep_until (procs t' x) = sleep_until (procs t x)" "resume_at (procs t' x) = resume_at (procs t x)" for x
    by (simp_all add: t'_def)
  have "sched_wf ((q', l @ [p]) # W) t' R D Z"
    unfolding sched_wf_def
  proof (intro conjI)
    show "queues (links t') (all_queues ((q', l @ [p]) # W) t' R D Z)" using push_tail3 [OF Q p(2,3) e] by (simp add: t'_def)
    show "\<forall>x\<in>set R. status (procs t' x) \<in> {PROC_STATUS_READY_TO_RUN, PROC_STATUS_UNINITIALIZED}"
      "\<forall>x\<in>set D. status (procs t' x) = PROC_STATUS_READY_TO_DIE" "\<forall>x\<in>set Z. status (procs t' x) = PROC_STATUS_SLEEPING_TIMER"
      using sched_wfD(2-4) [OF wf] pn by (auto simp: st)
    show "sorted (map (\<lambda>x. sleep_until (procs t' x)) Z)" using sched_wfD(5) [OF wf] by (simp only: st)
    show "\<forall>x\<in>members ((q', l @ [p]) # W). status (procs t' x) = PROC_STATUS_BLOCKED" using sched_wfD(6) [OF wf] by (auto simp: st)
    show "\<forall>x\<in>members (all_queues ((q', l @ [p]) # W) t' R D Z) - {current_process t'}.
        resume_at (procs t' x) = In_prelude \<longleftrightarrow> status (procs t' x) = PROC_STATUS_UNINITIALIZED"
      using sched_wfD(7) [OF wf] p(1) by (auto simp: st t'_def)
  qed
  then show ?thesis by (simp only: t'_def)
qed

lemma wake_proc_fields:
  assumes "p \<noteq> 0" "irq_lock_count s = c + 1" "c < 18446744073709551613" "proc_queue_push_tail (ready_to_run s) p (links s) = (q, N)"
  shows "wake_proc p s = s\<lparr>irq_on := False, procs := (procs s)(p := (procs s p)\<lparr>status := PROC_STATUS_READY_TO_RUN\<rparr>),
    ready_to_run := q, links := N\<rparr>"
  using assms u64_room [OF assms(3)]
  by (simp add: wake_proc_def sched_lock_def mp_enqueue_ready_def upd_proc_def sched_unlock_def Let_def add.assoc)

lemma wake_wf:
  assumes wf: "sched_wf ((q, x # l) # W) t R D Z" and p: "current_process t \<noteq> x"
    and irq: "irq_lock_count t = c + 1" "c < 18446744073709551613"
  defines "q1 \<equiv> q\<lparr>qhead := links t x\<rparr>"
  defines "t' \<equiv> wake_proc x (t\<lparr>links := (links t)(x := 0)\<rparr>)"
  shows "sched_wf ((if qhead q1 = 0 then q1\<lparr>qtail := 0\<rparr> else q1, l) # W) t' (R @ [x]) D Z"
    and "procs t' = (procs t)(x := (procs t x)\<lparr>status := PROC_STATUS_READY_TO_RUN\<rparr>)" "irq_lock_count t' = c + 1"
    and "current_process t' = current_process t" "switch_lock_count t' = switch_lock_count t" "switch_lock_flag t' = switch_lock_flag t"
    and "quantum_remaining t' = quantum_remaining t" "tick_interval_ns t' = tick_interval_ns t" "now t' = now t"
proof -
  note Q = sched_wfD(1) [OF wf]
  have h: "qhead q = x" "x \<noteq> 0" using qrep_facts [OF rep3 [OF Q]] by auto
  define q2 where "q2 = (if qhead q1 = 0 then q1\<lparr>qtail := 0\<rparr> else q1)"
  have "proc_queue_pop_head q (links t) = (x, q2, (links t)(x := 0))"
    using h by (simp add: proc_queue_pop_head_def Let_def q1_def q2_def)
  from pop_head3(1) [OF Q this]
  have Q1: "queues ((links t)(x := 0)) ((ready_to_run t, R) # (ready_to_die t, D) # (sleeping t, Z) # (q2, l) # W)" by simp
  have xn: "x \<notin> set R" "x \<notin> set D" "x \<notin> set Z" "x \<notin> set l" "x \<notin> members W" using Q by (auto simp: queues_def)
  obtain r N where pt: "proc_queue_push_tail (ready_to_run t) x ((links t)(x := 0)) = (r, N)" by fastforce
  have Q2: "queues N ((r, R @ [x]) # (ready_to_die t, D) # (sleeping t, Z) # (q2, l) # W)"
    using push_tail0 [OF Q1 h(2) _ pt] xn by auto
  have t': "t' = t\<lparr>irq_on := False, procs := (procs t)(x := (procs t x)\<lparr>status := PROC_STATUS_READY_TO_RUN\<rparr>), ready_to_run := r, links := N\<rparr>"
    using wake_proc_fields [of x "t\<lparr>links := (links t)(x := 0)\<rparr>" c r N] h irq pt by (simp add: t'_def)
  have bl: "resume_at (procs t x) = In_prelude \<longleftrightarrow> False"
    using sched_wfD(6,7) [OF wf] p by auto
  have Wm: "members W \<subseteq> members ((q, x # l) # W)" by auto
  have "\<forall>y\<in>members ((q2, l) # W). status (procs t' y) = PROC_STATUS_BLOCKED"
  proof
    fix y assume "y \<in> members ((q2, l) # W)"
    then have "y \<noteq> x" "y \<in> members ((q, x # l) # W)" using xn by auto
    then show "status (procs t' y) = PROC_STATUS_BLOCKED" using sched_wfD(6) [OF wf] by (simp add: t')
  qed
  moreover have "\<forall>y\<in>members (all_queues ((q2, l) # W) t' (R @ [x]) D Z) - {current_process t'}.
        resume_at (procs t' y) = In_prelude \<longleftrightarrow> status (procs t' y) = PROC_STATUS_UNINITIALIZED"
  proof
    fix y assume "y \<in> members (all_queues ((q2, l) # W) t' (R @ [x]) D Z) - {current_process t'}"
    then have "y = x \<or> y \<noteq> x \<and> y \<in> members (all_queues ((q, x # l) # W) t R D Z) - {current_process t}" by (auto simp: t')
    then show "resume_at (procs t' y) = In_prelude \<longleftrightarrow> status (procs t' y) = PROC_STATUS_UNINITIALIZED"
      using sched_wfD(7) [OF wf] bl by (auto simp: t')
  qed
  moreover have st: "status (procs t' y) = (if y = x then PROC_STATUS_READY_TO_RUN else status (procs t y))"
    "sleep_until (procs t' y) = sleep_until (procs t y)" for y by (simp_all add: t')
  moreover have "queues (links t') (all_queues ((q2, l) # W) t' (R @ [x]) D Z)" using Q2 by (simp add: t')
  moreover have "\<forall>y\<in>set (R @ [x]). status (procs t' y) \<in> {PROC_STATUS_READY_TO_RUN, PROC_STATUS_UNINITIALIZED}"
    "\<forall>y\<in>set D. status (procs t' y) = PROC_STATUS_READY_TO_DIE" "\<forall>y\<in>set Z. status (procs t' y) = PROC_STATUS_SLEEPING_TIMER"
    using sched_wfD(2-4) [OF wf] xn by (auto simp: st)
  moreover have "sorted (map (\<lambda>y. sleep_until (procs t' y)) Z)" using sched_wfD(5) [OF wf] by (simp only: st)
  ultimately have "sched_wf ((q2, l) # W) t' (R @ [x]) D Z" unfolding sched_wf_def by blast
  then show "sched_wf ((if qhead q1 = 0 then q1\<lparr>qtail := 0\<rparr> else q1, l) # W) t' (R @ [x]) D Z" by (simp only: q2_def)
  show "procs t' = (procs t)(x := (procs t x)\<lparr>status := PROC_STATUS_READY_TO_RUN\<rparr>)" "irq_lock_count t' = c + 1"
    "current_process t' = current_process t" "switch_lock_count t' = switch_lock_count t" "switch_lock_flag t' = switch_lock_flag t"
    "quantum_remaining t' = quantum_remaining t" "tick_interval_ns t' = tick_interval_ns t" "now t' = now t"
    using irq by (simp_all add: t')
qed

lemma postpone_wf: "running W s R D Z c \<Longrightarrow> sched_wf W (sched_postpone s) R D Z"
  by (rule sched_wf_cong [of W s]) (auto simp: running_def)

text \<open>The end of an inner critical section.\<close>

lemma resume_nested:
  assumes "1 < switch_lock_count s" "irq_lock_count s = c + 1" "0 < c" "c < 18446744073709551613"
  shows "sched_resume s = Same (s\<lparr>switch_lock_count := switch_lock_count s - 1, irq_lock_count := c\<rparr>)"
proof -
  have "switch_lock_count s - 1 \<noteq> 0" "0 < switch_lock_count s" using assms(1) by (auto simp: word_gt_0)
  then show ?thesis using assms u64_room [OF assms(4)]
    by (simp add: sched_resume_def Let_def sched_unlock_def)
qed

lemma wait_queue_sleep_gives_way:
  assumes ru: "running ((q, l) # W) s R D Z c" and c: "c < 18446744073709551613"
  shows "\<exists>q' out. wait_queue_sleep q s = (q', out) \<and> gives_way ((q', l @ [current_process s]) # W) (current_process s) False R D Z c s out"
proof -
  let ?p = "current_process s"
  have p: "?p \<noteq> 0" "?p \<notin> members (all_queues ((q, l) # W) s R D Z)" and lk: "switch_lock_count s = 0" "irq_lock_count s = c"
    using ru by (auto simp: running_def)
  obtain q' N' where e: "proc_queue_push_tail q ?p (links s) = (q', N')" by fastforce
  define t where "t = upd_proc ?p (\<lambda>x. x\<lparr>status := PROC_STATUS_BLOCKED\<rparr>)
    ((sched_postpone s)\<lparr>links := N', irq_on := False, switch_lock_flag := True\<rparr>)"
  have o: "wait_queue_sleep q s = (q', sched_resume t)"
    using p(1) e lk block_postponed [of "(sched_postpone s)\<lparr>links := N'\<rparr>" c] c
    by (simp add: wait_queue_sleep_def enqueue_push_tail block_current_proc_def t_def)
  have "sched_wf ((q', l @ [?p]) # W) t R D Z"
    unfolding t_def by (rule block_wf [OF postpone_wf [OF ru]]) (use p e in auto)
  then have "gives_way ((q', l @ [?p]) # W) ?p (status (procs t ?p) = PROC_STATUS_RUNNING) R D Z c t (sched_resume t)"
    by (rule resume_gives_way) (use p lk c in \<open>auto simp: t_def\<close>)
  then have "gives_way ((q', l @ [?p]) # W) ?p False R D Z c t (sched_resume t)" by (simp add: t_def)
  then have "gives_way ((q', l @ [?p]) # W) ?p False R D Z c s (sched_resume t)"
    by (rule gives_way_from) (auto simp: same_procs_def t_def)
  then show ?thesis using o by blast
qed

lemma wake_one_stays:
  assumes ru: "running ((q, x # l) # W) s R D Z c" and c: "c < 18446744073709551613"
  shows "\<exists>q' s'. wait_queue_wake_one q s = (x, q', Same s') \<and> running ((q', l) # W) s' (R @ [x]) D Z c \<and>
    current_process s' = current_process s \<and> same_procs s s'"
proof -
  let ?p = "current_process s" and ?t = "sched_postpone s"
  have p: "?p \<noteq> 0" "?p \<notin> members (all_queues ((q, x # l) # W) s R D Z)" "status (procs s ?p) = PROC_STATUS_RUNNING"
    and lk: "switch_lock_count s = 0" "irq_lock_count s = c" "\<not> switch_lock_flag s"
    using ru by (auto simp: running_def)
  note wf = postpone_wf [OF ru]
  have h: "qhead q = x" "x \<noteq> 0" using qrep_facts [OF rep3 [OF sched_wfD(1) [OF wf]]] by auto
  have px: "?p \<noteq> x" using p(2) by auto
  define q1 q' where "q1 = q\<lparr>qhead := links ?t x\<rparr>" and "q' = (if qhead q1 = 0 then q1\<lparr>qtail := 0\<rparr> else q1)"
  define t' where "t' = wake_proc x (?t\<lparr>links := (links ?t)(x := 0)\<rparr>)"
  have o: "wait_queue_wake_one q s = (x, q', sched_resume t')"
    using h by (simp add: wait_queue_wake_one_def Let_def q1_def q'_def t'_def)
  note w = wake_wf [OF wf, of c, folded t'_def q1_def, folded q'_def]
  have wf': "sched_wf ((q', l) # W) t' (R @ [x]) D Z" using w(1) px lk c by simp
  have f: "procs t' = (procs s)(x := (procs s x)\<lparr>status := PROC_STATUS_READY_TO_RUN\<rparr>)" "irq_lock_count t' = c + 1"
    "current_process t' = ?p" "switch_lock_count t' = 1" "\<not> switch_lock_flag t'"
    "tick_interval_ns t' = tick_interval_ns s" "now t' = now s"
    using w(2-9) px lk c by simp_all
  have "\<exists>s'. sched_resume t' = Same s' \<and> running ((q', l) # W) s' (R @ [x]) D Z c \<and> current_process s' = ?p \<and> same_procs t' s' \<and>
    procs s' = procs t' \<and> quantum_remaining s' = quantum_remaining t'"
    by (rule resume_stays [OF wf']) (use f p px c in auto)
  moreover have "same_procs s t'" using f by (simp add: same_procs_def)
  ultimately show ?thesis using o same_procs_trans [of s t'] by auto
qed

lemma wake_all_loop_wf:
  assumes "sched_wf ((q, l) # W) t R D Z" "current_process t \<notin> set l" "irq_lock_count t = c + 1" "c < 18446744073709551613"
  shows "\<exists>q' t'. wake_all_loop q t = Some (q', t') \<and> sched_wf ((q'\<lparr>qtail := 0\<rparr>, []) # W) t' (R @ l) D Z \<and>
    procs t' = (\<lambda>x. if x \<in> set l then (procs t x)\<lparr>status := PROC_STATUS_READY_TO_RUN\<rparr> else procs t x) \<and> irq_lock_count t' = c + 1 \<and>
    current_process t' = current_process t \<and> switch_lock_count t' = switch_lock_count t \<and> switch_lock_flag t' = switch_lock_flag t \<and>
    quantum_remaining t' = quantum_remaining t \<and> tick_interval_ns t' = tick_interval_ns t \<and> now t' = now t"
  using assms
proof (induction l arbitrary: q t R)
  case Nil
  have "qhead q = 0" "q\<lparr>qtail := 0\<rparr> = q" using qrep_facts(3,4) [OF rep3 [OF sched_wfD(1) [OF Nil.prems(1)]]] by (cases q; simp)+
  then show ?case using Nil.prems by (subst wake_all_loop.simps) auto
next
  case (Cons x l)
  have h: "qhead q = x" "x \<noteq> 0" using qrep_facts [OF rep3 [OF sched_wfD(1) [OF Cons.prems(1)]]] by auto
  have px: "current_process t \<noteq> x" using Cons.prems(2) by auto
  define q1 t1 where "q1 = q\<lparr>qhead := links t x\<rparr>" and "t1 = wake_proc x (t\<lparr>links := (links t)(x := 0)\<rparr>)"
  note w = wake_wf [OF Cons.prems(1) px Cons.prems(3,4), folded t1_def q1_def]
  have st: "wake_all_loop q t = wake_all_loop q1 t1" using h by (subst wake_all_loop.simps) (simp add: q1_def t1_def)
  have z: "qhead q1 = 0 \<longleftrightarrow> l = []" using qrep_facts(5) [OF rep3 [OF sched_wfD(1) [OF w(1)]]] by (cases "qhead q1 = 0") auto
  have xl: "x \<notin> set l" using qrep_facts(1) [OF rep3 [OF sched_wfD(1) [OF Cons.prems(1)]]] by simp
  show ?case
  proof (cases "l = []")
    case True
    then have "wake_all_loop q1 t1 = Some (q1, t1)" using z by (subst wake_all_loop.simps) simp
    then show ?thesis using w True z st by (auto simp: fun_eq_iff)
  next
    case False
    have "current_process t1 \<notin> set l" using Cons.prems(2) w(4) by simp
    moreover have "sched_wf ((q1, l) # W) t1 (R @ [x]) D Z" using w(1) z False by simp
    ultimately obtain q' t' where
      ih: "wake_all_loop q1 t1 = Some (q', t')" "sched_wf ((q'\<lparr>qtail := 0\<rparr>, []) # W) t' ((R @ [x]) @ l) D Z"
      "procs t' = (\<lambda>x. if x \<in> set l then (procs t1 x)\<lparr>status := PROC_STATUS_READY_TO_RUN\<rparr> else procs t1 x)" "irq_lock_count t' = c + 1"
      "current_process t' = current_process t1" "switch_lock_count t' = switch_lock_count t1" "switch_lock_flag t' = switch_lock_flag t1"
      "quantum_remaining t' = quantum_remaining t1" "tick_interval_ns t' = tick_interval_ns t1" "now t' = now t1"
      using Cons.IH [OF _ _ w(3) Cons.prems(4)] by blast
    moreover have "procs t' = (\<lambda>y. if y \<in> set (x # l) then (procs t y)\<lparr>status := PROC_STATUS_READY_TO_RUN\<rparr> else procs t y)"
      using ih(3) w(2) xl by (auto simp: fun_eq_iff)
    ultimately show ?thesis using st w by simp
  qed
qed

lemma wake_all_stays:
  assumes ru: "running ((q, l) # W) s R D Z c" and c: "c < 18446744073709551613"
  shows "\<exists>q' s'. wait_queue_wake_all q s = Some (q', Same s') \<and> running ((q', []) # W) s' (R @ l) D Z c \<and>
    current_process s' = current_process s \<and> same_procs s s'"
proof -
  let ?p = "current_process s"
  have p: "?p \<noteq> 0" "?p \<notin> members (all_queues ((q, l) # W) s R D Z)" "status (procs s ?p) = PROC_STATUS_RUNNING"
    and lk: "switch_lock_count s = 0" "irq_lock_count s = c" "\<not> switch_lock_flag s"
    using ru by (auto simp: running_def)
  from wake_all_loop_wf [OF postpone_wf [OF ru], of c, unfolded postpone_fields] p(2) lk c obtain q' t' where
    t': "wake_all_loop q (sched_postpone s) = Some (q', t')" "sched_wf ((q'\<lparr>qtail := 0\<rparr>, []) # W) t' (R @ l) D Z"
    "procs t' = (\<lambda>x. if x \<in> set l then (procs s x)\<lparr>status := PROC_STATUS_READY_TO_RUN\<rparr> else procs s x)" "irq_lock_count t' = c + 1"
    "current_process t' = ?p" "switch_lock_count t' = 1" "\<not> switch_lock_flag t'" "tick_interval_ns t' = tick_interval_ns s" "now t' = now s"
    by auto
  have "\<exists>s'. sched_resume t' = Same s' \<and> running ((q'\<lparr>qtail := 0\<rparr>, []) # W) s' (R @ l) D Z c \<and> current_process s' = ?p \<and> same_procs t' s' \<and>
    procs s' = procs t' \<and> quantum_remaining s' = quantum_remaining t'"
    by (rule resume_stays [OF t'(2)]) (use t' p c in auto)
  moreover have "same_procs s t'" using t' by (simp add: same_procs_def)
  ultimately show ?thesis using t'(1) same_procs_trans [of s t'] by (auto simp: wait_queue_wake_all_def)
qed

section \<open>Semaphores as a whole\<close>

lemma critical_stays:
  assumes "running W s R D Z c" "c < 18446744073709551613"
  shows "\<exists>s'. sched_resume (sched_postpone s) = Same s' \<and> running W s' R D Z c \<and> current_process s' = current_process s \<and> same_procs s s'"
proof -
  have "\<exists>s'. sched_resume (sched_postpone s) = Same s' \<and> running W s' R D Z c \<and> current_process s' = current_process s \<and>
    same_procs (sched_postpone s) s' \<and> procs s' = procs (sched_postpone s) \<and> quantum_remaining s' = quantum_remaining (sched_postpone s)"
    by (rule resume_stays [OF postpone_wf [OF assms(1)]]) (use assms in \<open>auto simp: running_def\<close>)
  then show ?thesis by (auto simp: same_procs_def)
qed

lemma semaphore_lock_free:
  assumes "running W s R D Z c" "c < 18446744073709551613" "current_locks m < limit m"
  shows "\<exists>s'. semaphore_lock m s = (m\<lparr>current_locks := current_locks m + 1\<rparr>, Same s') \<and> running W s' R D Z c \<and>
    current_process s' = current_process s \<and> same_procs s s'"
  using critical_stays [OF assms(1,2)] assms(3) by (auto simp: semaphore_lock_def)

lemma semaphore_lock_waits:
  assumes ru: "running ((waiters m, l) # W) s R D Z c" and c: "c < 9223372036854775808" and full: "\<not> current_locks m < limit m"
  shows "\<exists>w out. semaphore_lock m s = (m\<lparr>waiters := w\<rparr>, out) \<and>
    gives_way ((w, l @ [current_process s]) # W) (current_process s) False R D Z c s out"
proof -
  let ?p = "current_process s" and ?q = "waiters m"
  have p: "?p \<noteq> 0" "?p \<notin> members (all_queues ((?q, l) # W) s R D Z)" and lk: "switch_lock_count s = 0" "irq_lock_count s = c"
    using ru by (auto simp: running_def)
  have c2: "c < 18446744073709551613" "c + 1 < 18446744073709551613" using room_Suc [OF c] by auto
  obtain w N where e: "proc_queue_push_tail ?q ?p (links s) = (w, N)" by fastforce
  let ?s2 = "sched_postpone (sched_postpone s)"
  define t where "t = upd_proc ?p (\<lambda>x. x\<lparr>status := PROC_STATUS_BLOCKED\<rparr>) (?s2\<lparr>links := N, irq_on := False, switch_lock_flag := True\<rparr>)"
  define t' where "t' = t\<lparr>switch_lock_count := 1, irq_lock_count := c + 1\<rparr>"
  have "mp_block_proc ?p PROC_STATUS_BLOCKED (?s2\<lparr>links := N\<rparr>) = Same t"
    using block_postponed [of "?s2\<lparr>links := N\<rparr>" "c + 1"] lk c2(2) by (simp add: t_def)
  then have "wait_queue_sleep ?q (sched_postpone s) = (w, sched_resume t)"
    using p(1) e by (simp add: wait_queue_sleep_def enqueue_push_tail block_current_proc_def)
  moreover have "sched_resume t = Same t'"
    using resume_nested [of t "c + 1"] lk c2 u64_room [OF c2(1)] by (simp add: t_def t'_def)
  ultimately have o: "semaphore_lock m s = (m\<lparr>waiters := w\<rparr>, sched_resume t')" using full by (simp add: semaphore_lock_def)
  have "sched_wf ((?q, l) # W) ?s2 R D Z" by (rule sched_wf_cong [OF postpone_wf [OF ru]]) auto
  then have "sched_wf ((w, l @ [?p]) # W) t R D Z" unfolding t_def by (rule block_wf) (use p e in auto)
  then have "sched_wf ((w, l @ [?p]) # W) t' R D Z" by (rule sched_wf_cong) (auto simp: t'_def)
  then have "gives_way ((w, l @ [?p]) # W) ?p (status (procs t' ?p) = PROC_STATUS_RUNNING) R D Z c t' (sched_resume t')"
    by (rule resume_gives_way) (use p c2 in \<open>auto simp: t_def t'_def\<close>)
  then have "gives_way ((w, l @ [?p]) # W) ?p False R D Z c t' (sched_resume t')" by (simp add: t_def t'_def)
  then have "gives_way ((w, l @ [?p]) # W) ?p False R D Z c s (sched_resume t')"
    by (rule gives_way_from) (auto simp: same_procs_def t_def t'_def)
  then show ?thesis using o by blast
qed

lemma semaphore_unlock_hands_over:
  assumes ru: "running ((waiters m, x # l) # W) s R D Z c" and c: "c < 9223372036854775808"
  shows "\<exists>w s'. semaphore_unlock m s = (m\<lparr>waiters := w\<rparr>, Same s') \<and> running ((w, l) # W) s' (R @ [x]) D Z c \<and>
    current_process s' = current_process s \<and> same_procs s s'"
proof -
  let ?p = "current_process s" and ?q = "waiters m"
  have p: "?p \<noteq> 0" "?p \<notin> members (all_queues ((?q, x # l) # W) s R D Z)" "status (procs s ?p) = PROC_STATUS_RUNNING"
    and lk: "switch_lock_count s = 0" "irq_lock_count s = c" "\<not> switch_lock_flag s"
    using ru by (auto simp: running_def)
  have c2: "c < 18446744073709551613" "c + 1 < 18446744073709551613" using room_Suc [OF c] by auto
  let ?s2 = "sched_postpone (sched_postpone s)"
  have wf2: "sched_wf ((?q, x # l) # W) ?s2 R D Z" by (rule sched_wf_cong [OF postpone_wf [OF ru]]) auto
  have h: "qhead ?q = x" "x \<noteq> 0" using qrep_facts [OF rep3 [OF sched_wfD(1) [OF wf2]]] by auto
  have px: "?p \<noteq> x" using p(2) by auto
  define q1 w where "q1 = ?q\<lparr>qhead := links ?s2 x\<rparr>" and "w = (if qhead q1 = 0 then q1\<lparr>qtail := 0\<rparr> else q1)"
  define t where "t = wake_proc x (?s2\<lparr>links := (links ?s2)(x := 0)\<rparr>)"
  note wk = wake_wf [OF wf2, of "c + 1", folded t_def q1_def, folded w_def]
  define t' where "t' = t\<lparr>switch_lock_count := 1, irq_lock_count := c + 1\<rparr>"
  have ft: "procs t = (procs s)(x := (procs s x)\<lparr>status := PROC_STATUS_READY_TO_RUN\<rparr>)" "irq_lock_count t = c + 1 + 1"
    "current_process t = ?p" "switch_lock_count t = 2" "\<not> switch_lock_flag t" "tick_interval_ns t = tick_interval_ns s" "now t = now s"
    using wk(2-9) px lk c2 by simp_all
  have "wait_queue_wake_one ?q (sched_postpone s) = (x, w, sched_resume t)"
    using h by (simp add: wait_queue_wake_one_def Let_def q1_def w_def t_def)
  moreover have "sched_resume t = Same t'"
    using resume_nested [of t "c + 1"] ft c2 u64_room [OF c2(1)] by (simp add: t'_def)
  ultimately have o: "semaphore_unlock m s = (m\<lparr>waiters := w\<rparr>, sched_resume t')"
    using h by (simp add: semaphore_unlock_def wait_queue_empty_def)
  have "sched_wf ((w, l) # W) t (R @ [x]) D Z" using wk(1) px lk c2 by simp
  then have wf': "sched_wf ((w, l) # W) t' (R @ [x]) D Z" by (rule sched_wf_cong) (auto simp: t'_def)
  have "\<exists>s'. sched_resume t' = Same s' \<and> running ((w, l) # W) s' (R @ [x]) D Z c \<and> current_process s' = ?p \<and> same_procs t' s' \<and>
    procs s' = procs t' \<and> quantum_remaining s' = quantum_remaining t'"
    by (rule resume_stays [OF wf']) (use ft p px c2 in \<open>auto simp: t'_def\<close>)
  moreover have "same_procs s t'" using ft by (simp add: same_procs_def t'_def)
  ultimately show ?thesis using o same_procs_trans [of s t'] by auto
qed

lemma semaphore_unlock_free:
  assumes ru: "running ((waiters m, []) # W) s R D Z c" and c: "c < 18446744073709551613"
  shows "\<exists>s'. semaphore_unlock m s = (m\<lparr>current_locks := current_locks m - 1\<rparr>, Same s') \<and> running ((waiters m, []) # W) s' R D Z c \<and>
    current_process s' = current_process s \<and> same_procs s s'"
proof -
  have "qhead (waiters m) = 0"
    using qrep_facts(3) [OF rep3 [OF sched_wfD(1)]] ru by (auto simp: running_def)
  then show ?thesis using critical_stays [OF ru c] by (auto simp: semaphore_unlock_def wait_queue_empty_def)
qed

text \<open>A semaphore in a running system. A configuration is the semaphore, the scheduler's state and the
  list of grants not yet given back (a process that has been handed the semaphore counts from then on,
  also before it runs again). The running process may lock, try to lock, unlock what it holds, yield,
  sleep, or be interrupted by the timer. Runs in which \<open>irq_lock_count\<close> has come near its
  maximum are left out.\<close>

type_synonym sem_config = "semaphore \<times> sched \<times> nat list"

inductive sem_step :: "sem_config \<Rightarrow> sem_config \<Rightarrow> bool" where
  lock_now: "irq_lock_count s < 9223372036854775808 \<Longrightarrow> semaphore_lock m s = (m', Same s') \<Longrightarrow>
     sem_step (m, s, H) (m', s', current_process s # H)"
| lock_wait: "irq_lock_count s < 9223372036854775808 \<Longrightarrow> semaphore_lock m s = (m', Switch s') \<Longrightarrow> sem_step (m, s, H) (m', s', H)"
| try_lock: "irq_lock_count s < 9223372036854775808 \<Longrightarrow> semaphore_try_lock m s = (b, m', Same s') \<Longrightarrow>
     sem_step (m, s, H) (m', s', if b then current_process s # H else H)"
| unlock: "irq_lock_count s < 9223372036854775808 \<Longrightarrow> current_process s \<in> set H \<Longrightarrow> semaphore_unlock m s = (m', Same s') \<Longrightarrow>
     sem_step (m, s, H) (m', s', (if wait_queue_empty (waiters m) then [] else [qhead (waiters m)]) @ remove1 (current_process s) H)"
| yield: "irq_lock_count s < 9223372036854775808 \<Longrightarrow> sched_yield s \<in> {Same s', Switch s'} \<Longrightarrow> sem_step (m, s, H) (m, s', H)"
| tick: "irq_lock_count s < 9223372036854775808 \<Longrightarrow> handle_timer t s \<in> {Some (Same s'), Some (Switch s')} \<Longrightarrow> sem_step (m, s, H) (m, s', H)"
| sleep: "irq_lock_count s < 9223372036854775808 \<Longrightarrow> sleep_current_ns t s = Some (Switch s') \<Longrightarrow> sem_step (m, s, H) (m, s', H)"

definition sem_inv :: "sem_config \<Rightarrow> bool" where
  "sem_inv = (\<lambda>(m, s, H). \<exists>l R D Z c. running [(waiters m, l)] s R D Z c \<and> length H = unat (current_locks m) \<and>
     current_locks m \<le> limit m \<and> (l \<noteq> [] \<longrightarrow> current_locks m = limit m))"

lemma running_wait_empty: "running ((q, l) # W) s R D Z c \<Longrightarrow> wait_queue_empty q \<longleftrightarrow> l = []"
  using qrep_facts(5) [OF rep3 [OF sched_wfD(1) [of "(q, l) # W" s R D Z]]] by (simp add: running_def wait_queue_empty_def)

lemma sem_invE:
  assumes "sem_inv (m, s, H)"
  obtains l R D Z c where "running [(waiters m, l)] s R D Z c" "length H = unat (current_locks m)"
    "current_locks m \<le> limit m" "l \<noteq> [] \<longrightarrow> current_locks m = limit m"
  using assms unfolding sem_inv_def prod.case by blast

lemma sem_invI:
  "running [(waiters m, l)] s R D Z c \<Longrightarrow> length H = unat (current_locks m) \<Longrightarrow> current_locks m \<le> limit m \<Longrightarrow>
   l \<noteq> [] \<longrightarrow> current_locks m = limit m \<Longrightarrow> sem_inv (m, s, H)"
  unfolding sem_inv_def prod.case by blast

lemma gives_way_Switch:
  assumes "gives_way W p r R D Z c s (Switch s')"
  shows "\<exists>R' c'. running W s' R' D Z c'"
  using assms by (cases R) (auto simp: gives_way_def split: if_splits)

lemma gives_way_Same:
  assumes "gives_way W p r R D Z c s (Same s')"
  shows "r \<and> running W s' R D Z c"
  using assms by (cases R) (auto simp: gives_way_def split: if_splits)

lemma u8_add: "(x :: u8) < y \<Longrightarrow> unat (x + 1) = unat x + 1 \<and> x + 1 \<le> y"
proof -
  assume "x < y"
  moreover have "unat y < 256" using unsigned_less [of y] by simp
  ultimately have "unat x < unat y" "unat (x + 1) = unat x + 1" by (simp_all add: word_less_nat_alt unat_word_ariths)
  then show ?thesis by (simp add: word_le_nat_alt)
qed

lemma try_lock_nested:
  assumes ru: "running W s R D Z c" and c: "c < 9223372036854775808"
  shows "\<exists>s'. semaphore_try_lock m s =
      (current_locks m < limit m, if current_locks m < limit m then m\<lparr>current_locks := current_locks m + 1\<rparr> else m, Same s') \<and>
    running W s' R D Z c \<and> current_process s' = current_process s"
proof -
  have c2: "c < 18446744073709551613" "c + 1 < 18446744073709551613" using room_Suc [OF c] by auto
  have lk: "switch_lock_count s = 0" "irq_lock_count s = c" using ru by (auto simp: running_def)
  have "sched_resume (sched_postpone (sched_postpone s)) = Same (sched_postpone s)"
    using resume_nested [of "sched_postpone (sched_postpone s)" "c + 1"] lk c2 u64_room [OF c2(1)]
    by (simp add: sched_postpone_def)
  then show ?thesis using critical_stays [OF ru c2(1)] by (auto simp: semaphore_try_lock_def semaphore_lock_def)
qed

lemma sem_step_inv:
  assumes "sem_step x y" "sem_inv x"
  shows "sem_inv y \<and> limit (fst y) = limit (fst x)"
  using assms
proof (induction rule: sem_step.induct)
  case (lock_now s m m' s' H)
  from lock_now(3) obtain l R D Z c where ru: "running [(waiters m, l)] s R D Z c" and H: "length H = unat (current_locks m)"
    "current_locks m \<le> limit m" "l \<noteq> [] \<longrightarrow> current_locks m = limit m" by (rule sem_invE)
  have c: "c < 9223372036854775808" "c < 18446744073709551613" using ru lock_now(1) room_Suc by (auto simp: running_def)
  show ?case
  proof (cases "current_locks m < limit m")
    case True
    then have "m' = m\<lparr>current_locks := current_locks m + 1\<rparr>" "running [(waiters m, l)] s' R D Z c"
      using semaphore_lock_free [OF ru c(2) True] lock_now(2) by auto
    then show ?thesis using sem_invI [of m' l s' R D Z c "current_process s # H"] H u8_add [OF True] True by auto
  next
    case False
    then show ?thesis using semaphore_lock_waits [OF ru c(1) False] lock_now(2) gives_way_Same by fastforce
  qed
next
  case (lock_wait s m m' s' H)
  from lock_wait(3) obtain l R D Z c where ru: "running [(waiters m, l)] s R D Z c" and H: "length H = unat (current_locks m)"
    "current_locks m \<le> limit m" "l \<noteq> [] \<longrightarrow> current_locks m = limit m" by (rule sem_invE)
  have c: "c < 9223372036854775808" "c < 18446744073709551613" using ru lock_wait(1) room_Suc by (auto simp: running_def)
  show ?case
  proof (cases "current_locks m < limit m")
    case True
    then show ?thesis using semaphore_lock_free [OF ru c(2) True] lock_wait(2) by auto
  next
    case False
    then obtain w where "m' = m\<lparr>waiters := w\<rparr>" "\<exists>R' c'. running [(w, l @ [current_process s])] s' R' D Z c'"
      using semaphore_lock_waits [OF ru c(1) False] lock_wait(2) gives_way_Switch by fastforce
    then show ?thesis using sem_invI [of m' "l @ [current_process s]" s' _ D Z _ H] H False by auto
  qed
next
  case (try_lock s m b m' s' H)
  from try_lock(3) obtain l R D Z c where ru: "running [(waiters m, l)] s R D Z c" and H: "length H = unat (current_locks m)"
    "current_locks m \<le> limit m" "l \<noteq> [] \<longrightarrow> current_locks m = limit m" by (rule sem_invE)
  have c: "c < 9223372036854775808" using ru try_lock(1) by (auto simp: running_def)
  have e: "b = (current_locks m < limit m)" "m' = (if current_locks m < limit m then m\<lparr>current_locks := current_locks m + 1\<rparr> else m)"
    "running [(waiters m, l)] s' R D Z c" using try_lock_nested [OF ru c, of m] try_lock(2) by auto
  then show ?case using sem_invI [of m' l s' R D Z c "if b then current_process s # H else H"] H
      u8_add [of "current_locks m" "limit m"] by (cases b) auto
next
  case (unlock s H m m' s')
  from unlock(4) obtain l R D Z c where ru: "running [(waiters m, l)] s R D Z c" and H: "length H = unat (current_locks m)"
    "current_locks m \<le> limit m" "l \<noteq> [] \<longrightarrow> current_locks m = limit m" by (rule sem_invE)
  have c: "c < 9223372036854775808" "c < 18446744073709551613" using ru unlock(1) room_Suc by (auto simp: running_def)
  have len: "length (remove1 (current_process s) H) = unat (current_locks m) - 1" "0 < unat (current_locks m)"
    using H(1) unlock(2) length_pos_if_in_set [OF unlock(2)] by (simp_all add: length_remove1)
  have em: "wait_queue_empty (waiters m) \<longleftrightarrow> l = []"
    by (rule running_wait_empty [OF ru])
  show ?case
  proof (cases l)
    case Nil
    have "unat (current_locks m - 1) = unat (current_locks m) - 1" using len(2) by (metis unat_minus_one unat_0 less_irrefl)
    moreover have "current_locks m - 1 \<le> limit m" using H(2) calculation by (simp add: word_le_nat_alt)
    moreover have "m' = m\<lparr>current_locks := current_locks m - 1\<rparr>" "running [(waiters m, [])] s' R D Z c"
      using semaphore_unlock_free [of m "[]" s R D Z c] ru c unlock(3) Nil by auto
    ultimately show ?thesis using sem_invI [of m' "[]" s' R D Z c "remove1 (current_process s) H"] em Nil len by simp
  next
    case (Cons x l')
    then obtain w where "m' = m\<lparr>waiters := w\<rparr>" "running [(w, l')] s' (R @ [x]) D Z c"
      using semaphore_unlock_hands_over [of m x l' "[]" s R D Z c] ru c unlock(3) by auto
    then show ?thesis using sem_invI [of m' l' s' "R @ [x]" D Z c "qhead (waiters m) # remove1 (current_process s) H"]
        em Cons len H by simp
  qed
next
  case (yield s s' m H)
  from yield(3) obtain l R D Z c where ru: "running [(waiters m, l)] s R D Z c" and H: "length H = unat (current_locks m)"
    "current_locks m \<le> limit m" "l \<noteq> [] \<longrightarrow> current_locks m = limit m" by (rule sem_invE)
  have "c < 18446744073709551613" using ru yield(1) room_Suc by (auto simp: running_def)
  from yield_gives_way [OF ru this] yield(2) have "\<exists>R' c'. running [(waiters m, l)] s' R' D Z c'"
    using gives_way_Switch gives_way_Same by fastforce
  then show ?case using sem_invI [of m l s' _ D _ _ H] H by auto
next
  case (tick s t s' m H)
  from tick(3) obtain l R D Z c where ru: "running [(waiters m, l)] s R D Z c" and H: "length H = unat (current_locks m)"
    "current_locks m \<le> limit m" "l \<noteq> [] \<longrightarrow> current_locks m = limit m" by (rule sem_invE)
  have "c < 18446744073709551613" using ru tick(1) room_Suc by (auto simp: running_def)
  from timer_spec [OF ru this, of t] tick(2) have "\<exists>R' Z' c'. running [(waiters m, l)] s' R' D Z' c'"
    using gives_way_Switch gives_way_Same by (fastforce split: if_splits)
  then show ?case using sem_invI [of m l s' _ D _ _ H] H by auto
next
  case (sleep s t s' m H)
  from sleep(3) obtain l R D Z c where ru: "running [(waiters m, l)] s R D Z c" and H: "length H = unat (current_locks m)"
    "current_locks m \<le> limit m" "l \<noteq> [] \<longrightarrow> current_locks m = limit m" by (rule sem_invE)
  have "c < 18446744073709551613" using ru sleep(1) room_Suc by (auto simp: running_def)
  from sleep_gives_way [OF ru this, of "now s + t"] sleep(2) have "\<exists>R' Z' c'. running [(waiters m, l)] s' R' D Z' c'"
    using gives_way_Switch by (fastforce simp: sleep_current_ns_def)
  then show ?case using sem_invI [of m l s' _ D _ _ H] H by auto
qed

text \<open>C3. Mutual exclusion. However the processes of a system interleave their calls, the scheduler's
  switches and the timer, a semaphore created with limit \<open>n\<close> is never granted more than \<open>n\<close> times at once, and as
  long as somebody waits all \<open>n\<close> grants are in use, so no grant is lost. A mutex is the case \<open>n = 1\<close>.\<close>

theorem semaphore_bounded:
  assumes "semaphore_create True n = Some m0" "running [] s0 R D Z c" "sem_step\<^sup>*\<^sup>* (m0, s0, []) (m, s, H)"
  shows "length H \<le> unat n \<and> (\<not> wait_queue_empty (waiters m) \<longrightarrow> length H = unat n)"
proof -
  have m0: "limit m0 = n" "current_locks m0 = 0" "waiters m0 = wait_queue_init"
    using assms(1) by (auto simp: semaphore_create_def)
  have "running [(wait_queue_init, [])] s0 R D Z c"
    using assms(2) by (simp add: running_def sched_wf_def queues_def wait_queue_init_def qrep_def)
  then have "sem_inv (m0, s0, [])" using sem_invI [of m0 "[]" s0 R D Z c "[]"] m0 by simp
  with assms(3) have "sem_inv (m, s, H) \<and> limit m = n"
    using m0(1)
  proof (induction "(m, s, H)" arbitrary: m s H rule: rtranclp_induct)
    case base
    then show ?case by simp
  next
    case (step y)
    then show ?case using sem_step_inv [of y "(m, s, H)"] by (cases y) auto
  qed
  then have i: "sem_inv (m, s, H)" and l: "limit m = n" by auto
  from i obtain l R D Z c where ru: "running [(waiters m, l)] s R D Z c" and H: "length H = unat (current_locks m)"
    "current_locks m \<le> limit m" "l \<noteq> [] \<longrightarrow> current_locks m = limit m" by (rule sem_invE)
  have "wait_queue_empty (waiters m) \<longleftrightarrow> l = []"
    by (rule running_wait_empty [OF ru])
  then show ?thesis using H l by (auto simp: word_le_nat_alt)
qed

theorem semaphore_bounded_witness:
  "\<exists>m s. sem_step\<^sup>*\<^sup>* (\<lparr>limit = 1, current_locks = 0, waiters = wait_queue_init\<rparr>, small_sched, []) (m, s, [1]) \<and>
     \<not> wait_queue_empty (waiters m) \<and> length [1] = unat (1 :: u8)"
proof -
  define m0 where "m0 = \<lparr>limit = 1, current_locks = 0, waiters = wait_queue_init\<rparr>"
  define m1 where "m1 = m0\<lparr>current_locks := 1\<rparr>"
  have r0: "running [(wait_queue_init, [])] small_sched [2, 3] [] [4, 5] 0"
    using small_running by (simp add: running_def sched_wf_def queues_def wait_queue_init_def qrep_def)
  obtain s1 where s1: "semaphore_lock m0 small_sched = (m1, Same s1)" "running [(wait_queue_init, [])] s1 [2, 3] [] [4, 5] 0"
      "current_process s1 = 1" "irq_lock_count s1 = 0"
    using semaphore_lock_free [OF r0, of m0] by (auto simp: m0_def m1_def running_def small_sched_def)
  from yield_gives_way [OF s1(2)] obtain s2 c2 where s2: "sched_yield s1 = Switch s2" "current_process s2 = 2"
      "running [(wait_queue_init, [])] s2 [3, 1] [] [4, 5] c2" "c2 = 0 \<or> c2 = 1"
    using s1(3) by (auto simp: gives_way_def)
  have c2: "irq_lock_count s2 = c2" "c2 < 9223372036854775808" using s2(3,4) by (auto simp: running_def)
  from semaphore_lock_waits [of m1 "[]" "[]" s2 "[3, 1]" "[]" "[4, 5]" c2] s2 c2 obtain w s3 c3 where
    s3: "semaphore_lock m1 s2 = (m1\<lparr>waiters := w\<rparr>, Switch s3)" "running [(w, [2])] s3 [1] [] [4, 5] c3"
    by (auto simp: m0_def m1_def gives_way_def)
  have "sem_step (m0, small_sched, []) (m1, s1, [1])"
    using sem_step.lock_now [of small_sched m0 m1 s1 "[]"] s1 by (simp add: small_sched_def)
  moreover have "sem_step (m1, s1, [1]) (m1, s2, [1])" using sem_step.yield [of s1 s2 m1 "[1]"] s1 s2 by simp
  moreover have "sem_step (m1, s2, [1]) (m1\<lparr>waiters := w\<rparr>, s3, [1])" using sem_step.lock_wait [of s2 m1 _ s3 "[1]"] s3(1) c2 by simp
  ultimately have run: "sem_step\<^sup>*\<^sup>* (m0, small_sched, []) (m1\<lparr>waiters := w\<rparr>, s3, [1])"
    by (rule converse_rtranclp_into_rtranclp [OF _ converse_rtranclp_into_rtranclp [OF _ r_into_rtranclp]])
  have ne: "\<not> wait_queue_empty w"
    using running_wait_empty [OF s3(2)] by simp
  have "semaphore_create True 1 = Some m0" by (simp add: semaphore_create_def m0_def)
  from semaphore_bounded [OF this small_running run] ne have "length [1 :: nat] = unat (1 :: u8)" by simp
  then show ?thesis using run ne unfolding m0_def by (intro exI conjI) (assumption | simp)+
qed

end
