(* ===== verification/Proc_Life.thy ===== *)
theory Proc_Life
  imports Sync
begin

text \<open>
  The life of a process: creation (proc.c), fork (fork.c), exit, and waitpid (wait.c). A process is its
  record of \<open>Sched\<close>; its open files, its memory and its log are other components and are left out, so
  that freeing a process is its removal from the process tree. Allocations and the copy of the
  address space are given as arguments that say whether they succeed.
\<close>

section \<open>Creation\<close>

abbreviation MAX_CHILDREN :: nat where "MAX_CHILDREN \<equiv> 256"

abbreviation "ECHILD \<equiv> (10 :: int)"
abbreviation "EAGAIN \<equiv> (11 :: int)"
abbreviation "ENOMEM \<equiv> (12 :: int)"
abbreviation "EINVAL \<equiv> (22 :: int)"







section \<open>Exit\<close>

definition mp_remove_proc :: "nat \<Rightarrow> sched \<Rightarrow> sched option" where
  "mp_remove_proc p s =
     (case status (procs s p) of
        PROC_STATUS_READY_TO_RUN \<Rightarrow> map_option (\<lambda>(_, q, N). s\<lparr>ready_to_run := q, links := N\<rparr>) (proc_queue_remove (ready_to_run s) p (links s))
      | PROC_STATUS_UNINITIALIZED \<Rightarrow> map_option (\<lambda>(_, q, N). s\<lparr>ready_to_run := q, links := N\<rparr>) (proc_queue_remove (ready_to_run s) p (links s))
      | PROC_STATUS_SLEEPING_TIMER \<Rightarrow> map_option (\<lambda>(_, q, N). s\<lparr>sleeping := q, links := N\<rparr>) (proc_queue_remove (sleeping s) p (links s))
      | _ \<Rightarrow> Some s)"

definition mp_ready_to_die_remove :: "nat \<Rightarrow> sched \<Rightarrow> sched option" where
  "mp_ready_to_die_remove p s =
     map_option (\<lambda>(_, q, N). s\<lparr>ready_to_die := q, links := N\<rparr>) (proc_queue_remove (ready_to_die s) p (links s))"

text \<open>The two calls of \<open>wait_queue_wake_all\<close>; the queues are fields of the process and of its parent,
  and are written back whatever the outcome.\<close>

fun omap :: "(sched \<Rightarrow> sched) \<Rightarrow> outcome \<Rightarrow> outcome" where
  "omap f (Same s) = Same (f s)"
| "omap f (Switch s) = Switch (f s)"
| "omap f (Idle p s) = Idle p (f s)"
| "omap f Fault = Fault"

definition wake_exit_waiters :: "nat \<Rightarrow> sched \<Rightarrow> outcome option" where
  "wake_exit_waiters p s =
     map_option (\<lambda>(q, out). omap (upd_proc p (\<lambda>x. x\<lparr>exit_waiters := q\<rparr>)) out)
       (wait_queue_wake_all (exit_waiters (procs s p)) s)"

definition wake_child_waiters :: "nat \<Rightarrow> sched \<Rightarrow> outcome option" where
  "wake_child_waiters p s =
     map_option (\<lambda>(q, out). omap (upd_proc p (\<lambda>x. x\<lparr>child_waiters := q\<rparr>)) out)
       (wait_queue_wake_all (child_waiters (procs s p)) s)"

fun oobind :: "outcome option \<Rightarrow> (sched \<Rightarrow> outcome option) \<Rightarrow> outcome option" where
  "oobind (Some (Same s)) f = f s"
| "oobind r f = r"

definition proc_exit :: "nat \<Rightarrow> u32 \<Rightarrow> sched \<Rightarrow> outcome option" where
  "proc_exit p code s =
     (if p = 0 then Some (Same s)
      else
        (let s = sched_lock (sched_postpone s)
         in if status (procs s p) = PROC_STATUS_READY_TO_DIE then Some (sched_resume (sched_unlock s))
            else
              (let s = upd_proc p (\<lambda>x. x\<lparr>exit_code := code\<rparr>) s
               in case (if p \<noteq> current_process s then mp_remove_proc p s else Some s) of
                    None \<Rightarrow> None
                  | Some s \<Rightarrow>
                      (let (q, N) = proc_queue_push_head (ready_to_die s) p (links s);
                           s = sched_unlock (s\<lparr>ready_to_die := q, links := N\<rparr>)
                       in oobind (Some (mp_block_proc p PROC_STATUS_READY_TO_DIE s))
                            (\<lambda>s. if parent (procs s p) = 0 then Some (sched_resume s)
                                 else oobind (oobind (wake_exit_waiters p s) (\<lambda>s. wake_child_waiters (parent (procs s p)) s))
                                        (\<lambda>s. Some (sched_resume s)))))))"

definition proc_terminate :: "nat \<Rightarrow> sched \<Rightarrow> outcome option" where
  "proc_terminate p s = proc_exit p 0 s"

section \<open>Waiting\<close>

text \<open>The search for a child: the first one that has exited, or else the first that matches.\<close>

fun wait_child_loop :: "int \<Rightarrow> sched \<Rightarrow> nat list \<Rightarrow> nat \<Rightarrow> nat \<Rightarrow> nat \<Rightarrow> bool \<times> nat \<times> nat" where
  "wait_child_loop n s [] slot first first_slot = (first \<noteq> 0, first, first_slot)"
| "wait_child_loop n s (child # cs) slot first first_slot =
     (if child = 0 then wait_child_loop n s cs (Suc slot) first first_slot
      else if n \<noteq> - 1 \<and> pid (procs s child) \<noteq> word_of_int n then wait_child_loop n s cs (Suc slot) first first_slot
      else if status (procs s child) = PROC_STATUS_READY_TO_DIE then (True, child, slot)
      else if first = 0 then wait_child_loop n s cs (Suc slot) child slot
      else wait_child_loop n s cs (Suc slot) first first_slot)"

definition wait_child_find :: "nat \<Rightarrow> int \<Rightarrow> sched \<Rightarrow> bool \<times> nat \<times> nat" where
  "wait_child_find p n s =
     (if p = 0 \<or> kids (procs s p) = [] then (False, 0, 0)
      else wait_child_loop n s (tl (take MAX_CHILDREN (kids (procs s p)))) 1 0 0)"

text \<open>The part of \<open>proc_free\<close> that concerns the process tree.\<close>

definition clear_slot :: "nat \<Rightarrow> nat list \<Rightarrow> nat list" where
  "clear_slot p ks = (case find (\<lambda>i. ks ! i = p) [1..<min MAX_CHILDREN (length ks)] of None \<Rightarrow> ks | Some i \<Rightarrow> ks[i := 0])"

definition proc_free :: "nat \<Rightarrow> sched \<Rightarrow> sched" where
  "proc_free p s =
     (if p = 0 then s
      else
        (let s = (if parent (procs s p) \<noteq> 0
                  then upd_proc (parent (procs s p)) (\<lambda>x. x\<lparr>kids := clear_slot p (kids x)\<rparr>) s else s);
             s = fold (\<lambda>k s. if k \<noteq> 0 then upd_proc k (\<lambda>x. x\<lparr>parent := 0\<rparr>) s else s) (tl (kids (procs s p))) s
         in s\<lparr>reaped := p # reaped s\<rparr>))"

text \<open>The result, and the status word if the caller asked for it.\<close>

definition process_wait_collect :: "nat \<Rightarrow> nat \<Rightarrow> nat \<Rightarrow> bool \<Rightarrow> sched \<Rightarrow> (int \<times> u32 option \<times> sched) option" where
  "process_wait_collect p child slot wanted s =
     (if p = 0 \<or> child = 0 \<or> kids (procs s p) = [] then Some (- ECHILD, None, s)
      else if status (procs s child) \<noteq> PROC_STATUS_READY_TO_DIE then Some (- ECHILD, None, s)
      else
        (let child_pid = sint (pid (procs s child));
             wstatus = (if wanted then Some (push_bit 8 (exit_code (procs s child) AND 0xFF)) else None);
             s = upd_proc p (\<lambda>x. x\<lparr>kids := (kids x)[slot := 0]\<rparr>) s;
             s = upd_proc child (\<lambda>x. x\<lparr>parent := 0\<rparr>) s
         in map_option (\<lambda>s. (child_pid, wstatus, proc_free child s)) (mp_ready_to_die_remove child s)))"

text \<open>The end of \<open>waitpid_proc\<close>, from the point where the process is awake inside its critical section.\<close>

definition waitpid_woken :: "nat \<Rightarrow> int \<Rightarrow> bool \<Rightarrow> nat \<Rightarrow> nat \<Rightarrow> sched \<Rightarrow> (int \<times> u32 option \<times> outcome) option" where
  "waitpid_woken p n wanted child slot s =
     (let (has_child, child, slot) =
        (if n \<noteq> - 1 then (True, child, slot)
         else (case wait_child_find p n s of (h, k, i) \<Rightarrow> if h then (True, k, i) else (False, child, slot)))
      in if \<not> has_child \<or> child = 0 \<or> status (procs s child) \<noteq> PROC_STATUS_READY_TO_DIE
         then Some (- ECHILD, None, sched_resume s)
         else map_option (\<lambda>(ret, w, s). (ret, w, sched_resume s)) (process_wait_collect p child slot wanted s))"

text \<open>\<open>Answer\<close>: the call has returned; \<open>Waiting\<close>: it sleeps, and goes on as \<open>waitpid_woken\<close> with this
  child and slot, after the \<open>sched_postpone\<close> that ends \<open>wait_queue_sleep_postponed\<close>.\<close>

datatype wait_result = Answer int "u32 option" outcome | Waiting nat nat outcome

definition wait_on_child :: "nat \<Rightarrow> sched \<Rightarrow> outcome" where
  "wait_on_child p s =
     (let (q, out) = wait_queue_sleep_postponed (child_waiters (procs s p)) s
      in omap (upd_proc p (\<lambda>x. x\<lparr>child_waiters := q\<rparr>)) out)"

definition wait_on_exit :: "nat \<Rightarrow> sched \<Rightarrow> outcome" where
  "wait_on_exit child s =
     (let (q, out) = wait_queue_sleep_postponed (exit_waiters (procs s child)) s
      in omap (upd_proc child (\<lambda>x. x\<lparr>exit_waiters := q\<rparr>)) out)"

definition waitpid_proc :: "nat \<Rightarrow> int \<Rightarrow> bool \<Rightarrow> u32 \<Rightarrow> sched \<Rightarrow> wait_result option" where
  "waitpid_proc p n wanted options s =
     (if p = 0 \<or> kids (procs s p) = [] then Some (Answer (- ECHILD) None (Same s))
      else if options AND NOT 1 \<noteq> 0 \<or> n = 0 \<or> n < - 1 then Some (Answer (- EINVAL) None (Same s))
      else
        (let s = sched_postpone s; (has_child, child, slot) = wait_child_find p n s
         in if \<not> has_child then Some (Answer (- ECHILD) None (sched_resume s))
            else if status (procs s child) = PROC_STATUS_READY_TO_DIE
            then map_option (\<lambda>(ret, w, s). Answer ret w (sched_resume s)) (process_wait_collect p child slot wanted s)
            else if options AND 1 \<noteq> 0 then Some (Answer 0 None (sched_resume s))
            else
              (case (if n = - 1 then wait_on_child p s else wait_on_exit child s) of
                 Same s \<Rightarrow> map_option (\<lambda>(ret, w, out). Answer ret w out) (waitpid_woken p n wanted child slot s)
               | out \<Rightarrow> Some (Waiting child slot out))))"

section \<open>The reaper\<close>

text \<open>The two loops of \<open>terminator\<close>: \<open>w\<close> is \<open>waiting_for_parent\<close>, \<open>f\<close> is \<open>freed_process\<close>.\<close>

partial_function (option) reap_loop :: "proc_queue \<Rightarrow> bool \<Rightarrow> sched \<Rightarrow> (proc_queue \<times> bool \<times> sched) option" where
  "reap_loop w f s =
     (case proc_queue_pop_head (ready_to_die s) (links s) of
        (p, q, N) \<Rightarrow>
          if p = 0 then Some (w, f, s\<lparr>ready_to_die := q, links := N\<rparr>)
          else if parent (procs s p) \<noteq> 0
          then (case proc_queue_push_head w p N of (w, N) \<Rightarrow> reap_loop w f (s\<lparr>ready_to_die := q, links := N\<rparr>))
          else reap_loop w True (proc_free p (s\<lparr>ready_to_die := q, links := N\<rparr>)))"

partial_function (option) requeue_loop :: "proc_queue \<Rightarrow> sched \<Rightarrow> sched option" where
  "requeue_loop w s =
     (if proc_queue_empty w then Some s
      else
        (case proc_queue_pop_head w (links s) of
           (p, w, N) \<Rightarrow>
             (case proc_queue_push_tail (ready_to_die s) p N of
                (q, N) \<Rightarrow> requeue_loop w (s\<lparr>ready_to_die := q, links := N\<rparr>))))"

text \<open>One round of the reaper's endless loop.\<close>

definition terminator :: "sched \<Rightarrow> outcome option" where
  "terminator s =
     (if proc_queue_empty (ready_to_die s) then Some (sched_yield s)
      else
        (case reap_loop proc_queue_init False (sched_postpone s) of
           None \<Rightarrow> None
         | Some (w, f, s) \<Rightarrow>
             map_option (\<lambda>s. obind (sched_resume s) (\<lambda>s. if \<not> f then sched_yield s else Same s)) (requeue_loop w s)))"

section \<open>Exit wakes those who wait\<close>

lemma distinct_swap: "distinct (xs @ us @ vs @ ys) \<longleftrightarrow> distinct (xs @ vs @ us @ ys)"
  by auto

lemma sched_wf_swap: "sched_wf (a # b # W) s R D Z \<longleftrightarrow> sched_wf (b # a # W) s R D Z"
proof -
  have "members (all_queues (a # b # W) s R D Z) = members (all_queues (b # a # W) s R D Z)" "members (a # b # W) = members (b # a # W)"
    by auto
  moreover have "queues (links s) (all_queues (a # b # W) s R D Z) \<longleftrightarrow> queues (links s) (all_queues (b # a # W) s R D Z)"
    using distinct_swap [of "R @ D @ Z" "snd a" "snd b" "concat (map snd W)"] unfolding queues_def
    by (simp only: list.map concat.simps snd_conv append_assoc list.set ball_simps conj_left_commute)
  ultimately show ?thesis unfolding sched_wf_def by (simp only:)
qed

lemma wake_all_nested:
  assumes wf: "sched_wf ((q, l) # W) t R D Z" "current_process t \<notin> set l"
    and lk: "irq_lock_count t = c + 1" "switch_lock_count t = 1" "c < 9223372036854775808"
  shows "\<exists>q' t'. wait_queue_wake_all q t = Some (q', Same t') \<and> sched_wf ((q', []) # W) t' (R @ l) D Z \<and>
    procs t' = (\<lambda>x. if x \<in> set l then (procs t x)\<lparr>status := PROC_STATUS_READY_TO_RUN\<rparr> else procs t x) \<and>
    irq_lock_count t' = c + 1 \<and> current_process t' = current_process t \<and> switch_lock_count t' = 1 \<and>
    switch_lock_flag t' = switch_lock_flag t \<and> tick_interval_ns t' = tick_interval_ns t \<and> now t' = now t"
proof -
  note c = room_Suc [OF lk(3)]
  have "sched_wf ((q, l) # W) (sched_postpone t) R D Z" by (rule sched_wf_cong [OF wf(1)]) auto
  then obtain q' u where u: "wake_all_loop q (sched_postpone t) = Some (q', u)" "sched_wf ((q'\<lparr>qtail := 0\<rparr>, []) # W) u (R @ l) D Z"
    "procs u = (\<lambda>x. if x \<in> set l then (procs t x)\<lparr>status := PROC_STATUS_READY_TO_RUN\<rparr> else procs t x)" "irq_lock_count u = c + 1 + 1"
    "current_process u = current_process t" "switch_lock_count u = 1 + 1" "switch_lock_flag u = switch_lock_flag t"
    "tick_interval_ns u = tick_interval_ns t" "now u = now t"
    using wake_all_loop_wf [of q l W "sched_postpone t" R D Z "c + 1", unfolded postpone_fields lk(1,2)] wf(2) c by blast
  define t' where "t' = u\<lparr>switch_lock_count := 1, irq_lock_count := c + 1\<rparr>"
  have "sched_resume u = Same t'"
    using resume_nested [of u "c + 1"] u(4,6) c u64_room [of c] by (simp add: t'_def)
  moreover have "sched_wf ((q'\<lparr>qtail := 0\<rparr>, []) # W) t' (R @ l) D Z" by (rule sched_wf_cong [OF u(2)]) (auto simp: t'_def)
  ultimately show ?thesis using u by (auto simp: wait_queue_wake_all_def t'_def)
qed

lemma die_wf:
  assumes wf: "sched_wf W t R D Z" and p: "current_process t = p" "p \<noteq> 0" "p \<notin> members (all_queues W t R D Z)"
    and e: "proc_queue_push_head (ready_to_die t) p (links t) = (q', N')"
    and t': "links t' = N'" "ready_to_run t' = ready_to_run t" "ready_to_die t' = q'" "sleeping t' = sleeping t" "current_process t' = p"
      "\<And>x. status (procs t' x) = (if x = p then PROC_STATUS_READY_TO_DIE else status (procs t x))"
      "\<And>x. sleep_until (procs t' x) = sleep_until (procs t x)" "\<And>x. resume_at (procs t' x) = resume_at (procs t x)"
  shows "sched_wf W t' R (p # D) Z"
  unfolding sched_wf_def
proof (intro conjI)
  have pn: "p \<notin> set R" "p \<notin> set D" "p \<notin> set Z" using p(3) by auto
  show "queues (links t') (all_queues W t' R (p # D) Z)" using push_head1 [OF sched_wfD(1) [OF wf] p(2,3) e] by (simp add: t')
  show "\<forall>x\<in>set R. status (procs t' x) \<in> {PROC_STATUS_READY_TO_RUN, PROC_STATUS_UNINITIALIZED}"
    "\<forall>x\<in>set (p # D). status (procs t' x) = PROC_STATUS_READY_TO_DIE" "\<forall>x\<in>set Z. status (procs t' x) = PROC_STATUS_SLEEPING_TIMER"
    using sched_wfD(2-4) [OF wf] pn by (auto simp: t')
  show "sorted (map (\<lambda>x. sleep_until (procs t' x)) Z)" using sched_wfD(5) [OF wf] by (simp only: t')
  show "\<forall>x\<in>members W. status (procs t' x) = PROC_STATUS_BLOCKED"
  proof
    fix x assume x: "x \<in> members W"
    then have "x \<noteq> p" using p(3) by auto
    then show "status (procs t' x) = PROC_STATUS_BLOCKED" using bspec [OF sched_wfD(6) [OF wf] x] by (simp add: t')
  qed
  show "\<forall>x\<in>members (all_queues W t' R (p # D) Z) - {current_process t'}.
      resume_at (procs t' x) = In_prelude \<longleftrightarrow> status (procs t' x) = PROC_STATUS_UNINITIALIZED"
  proof
    fix x assume "x \<in> members (all_queues W t' R (p # D) Z) - {current_process t'}"
    then have "x \<noteq> p" "x \<in> members (all_queues W t R D Z) - {current_process t}" by (auto simp: t' p(1))
    then show "resume_at (procs t' x) = In_prelude \<longleftrightarrow> status (procs t' x) = PROC_STATUS_UNINITIALIZED"
      using bspec [OF sched_wfD(7) [OF wf], of x] by (simp only: t' if_False)
  qed
qed

lemma wake_exit_nested:
  assumes wf: "sched_wf ((exit_waiters (procs t p), l) # W) t R D Z" "current_process t \<notin> set l"
    and lk: "irq_lock_count t = c + 1" "switch_lock_count t = 1" "c < 9223372036854775808"
  shows "\<exists>t'. wake_exit_waiters p t = Some (Same t') \<and> sched_wf ((exit_waiters (procs t' p), []) # W) t' (R @ l) D Z \<and>
    procs t' = (\<lambda>x. (procs t x)\<lparr>status := if x \<in> set l then PROC_STATUS_READY_TO_RUN else status (procs t x),
      exit_waiters := if x = p then exit_waiters (procs t' p) else exit_waiters (procs t x)\<rparr>) \<and>
    irq_lock_count t' = c + 1 \<and> current_process t' = current_process t \<and> switch_lock_count t' = 1 \<and>
    switch_lock_flag t' = switch_lock_flag t"
proof -
  obtain q' u where u: "wait_queue_wake_all (exit_waiters (procs t p)) t = Some (q', Same u)" "sched_wf ((q', []) # W) u (R @ l) D Z"
    "procs u = (\<lambda>x. if x \<in> set l then (procs t x)\<lparr>status := PROC_STATUS_READY_TO_RUN\<rparr> else procs t x)"
    "irq_lock_count u = c + 1" "current_process u = current_process t" "switch_lock_count u = 1" "switch_lock_flag u = switch_lock_flag t"
    using wake_all_nested [OF wf lk] by blast
  define t' where "t' = upd_proc p (\<lambda>x. x\<lparr>exit_waiters := q'\<rparr>) u"
  have "sched_wf ((q', []) # W) t' (R @ l) D Z" by (rule sched_wf_cong [OF u(2)]) (auto simp: t'_def)
  then show ?thesis using u by (auto simp: wake_exit_waiters_def t'_def fun_eq_iff intro!: exI [of _ t'])
qed

lemma wake_child_nested:
  assumes wf: "sched_wf ((child_waiters (procs t p), l) # W) t R D Z" "current_process t \<notin> set l"
    and lk: "irq_lock_count t = c + 1" "switch_lock_count t = 1" "c < 9223372036854775808"
  shows "\<exists>t'. wake_child_waiters p t = Some (Same t') \<and> sched_wf ((child_waiters (procs t' p), []) # W) t' (R @ l) D Z \<and>
    procs t' = (\<lambda>x. (procs t x)\<lparr>status := if x \<in> set l then PROC_STATUS_READY_TO_RUN else status (procs t x),
      child_waiters := if x = p then child_waiters (procs t' p) else child_waiters (procs t x)\<rparr>) \<and>
    irq_lock_count t' = c + 1 \<and> current_process t' = current_process t \<and> switch_lock_count t' = 1 \<and>
    switch_lock_flag t' = switch_lock_flag t"
proof -
  obtain q' u where u: "wait_queue_wake_all (child_waiters (procs t p)) t = Some (q', Same u)" "sched_wf ((q', []) # W) u (R @ l) D Z"
    "procs u = (\<lambda>x. if x \<in> set l then (procs t x)\<lparr>status := PROC_STATUS_READY_TO_RUN\<rparr> else procs t x)"
    "irq_lock_count u = c + 1" "current_process u = current_process t" "switch_lock_count u = 1" "switch_lock_flag u = switch_lock_flag t"
    using wake_all_nested [OF wf lk] by blast
  define t' where "t' = upd_proc p (\<lambda>x. x\<lparr>child_waiters := q'\<rparr>) u"
  have "sched_wf ((q', []) # W) t' (R @ l) D Z" by (rule sched_wf_cong [OF u(2)]) (auto simp: t'_def)
  then show ?thesis using u by (auto simp: wake_child_waiters_def t'_def fun_eq_iff intro!: exI [of _ t'])
qed

text \<open>Everything \<open>proc_exit\<close> of the running process does before it ends its critical section.\<close>

lemma exit_postponed:
  assumes ru: "running ((exit_waiters (procs s p), l) # (child_waiters (procs s par), k) # W) s R D Z c"
    and p: "current_process s = p" "parent (procs s p) = par" "par \<noteq> 0" and c: "c < 9223372036854775808"
  obtains t where "proc_exit p code s = Some (sched_resume t)"
    "sched_wf ((exit_waiters (procs t p), []) # (child_waiters (procs t par), []) # W) t (R @ l @ k) (p # D) Z"
    "procs t = (\<lambda>x. (procs s x)\<lparr>status := if x = p then PROC_STATUS_READY_TO_DIE
         else if x \<in> set (l @ k) then PROC_STATUS_READY_TO_RUN else status (procs s x),
       exit_code := if x = p then code else exit_code (procs s x),
       exit_waiters := if x = p then exit_waiters (procs t p) else exit_waiters (procs s x),
       child_waiters := if x = par then child_waiters (procs t par) else child_waiters (procs s x)\<rparr>)"
    "current_process t = p" "irq_lock_count t = c + 1" "switch_lock_count t = 1" "switch_lock_flag t"
proof -
  let ?W = "(exit_waiters (procs s p), l) # (child_waiters (procs s par), k) # W"
  have r: "p \<noteq> 0" "p \<notin> members (all_queues ?W s R D Z)" "status (procs s p) = PROC_STATUS_RUNNING"
    and lk: "switch_lock_count s = 0" "irq_lock_count s = c"
    using ru p by (auto simp: running_def)
  have pn: "p \<notin> set l" "p \<notin> set k" using r(2) by auto
  have cr: "c < 18446744073709551613" "c + 1 < 18446744073709551613" using room_Suc [OF c] by auto
  have nz: "2 + c \<noteq> 0" "c + 1 \<noteq> 0" "0 < 2 + c" "0 < c + 1" using u64_room [OF cr(1)] by (auto simp: add.commute)
  obtain q N where e: "proc_queue_push_head (ready_to_die s) p (links s) = (q, N)" by fastforce
  define u where "u = upd_proc p (\<lambda>x. x\<lparr>exit_code := code, status := PROC_STATUS_READY_TO_DIE\<rparr>)
    ((sched_postpone s)\<lparr>ready_to_die := q, links := N, irq_on := False, switch_lock_flag := True\<rparr>)"
  define v where "v = sched_unlock ((upd_proc p (\<lambda>x. x\<lparr>exit_code := code\<rparr>) (sched_lock (sched_postpone s)))\<lparr>ready_to_die := q, links := N\<rparr>)"
  have vl: "switch_lock_count v = 1" "irq_lock_count v = c + 1" using lk nz by (simp_all add: v_def)
  have "mp_block_proc p PROC_STATUS_READY_TO_DIE v = Same (upd_proc p (\<lambda>x. x\<lparr>status := PROC_STATUS_READY_TO_DIE\<rparr>) (v\<lparr>irq_on := False, switch_lock_flag := True\<rparr>))"
    using block_postponed [of v c] vl cr(1) by simp
  also have "upd_proc p (\<lambda>x. x\<lparr>status := PROC_STATUS_READY_TO_DIE\<rparr>) (v\<lparr>irq_on := False, switch_lock_flag := True\<rparr>) = u"
    using nz lk by (simp add: v_def u_def upd_proc_def sched_unlock_def sched_lock_def sched_postpone_def Let_def add.commute)
  finally have b: "mp_block_proc p PROC_STATUS_READY_TO_DIE v = Same u" .
  have ul: "irq_lock_count u = c + 1" "switch_lock_count u = 1" "current_process u = p" "switch_lock_flag u"
    using lk p(1) by (simp_all add: u_def)
  have pu: "procs u = (\<lambda>x. (procs s x)\<lparr>status := if x = p then PROC_STATUS_READY_TO_DIE else status (procs s x),
       exit_code := if x = p then code else exit_code (procs s x)\<rparr>)" by (auto simp: u_def)
  have "sched_wf ?W u R (p # D) Z"
    by (rule die_wf [OF postpone_wf [OF ru], of p q N]) (use r p e in \<open>auto simp: u_def\<close>)
  then have wfu: "sched_wf ((exit_waiters (procs u p), l) # (child_waiters (procs u par), k) # W) u R (p # D) Z" by (simp add: pu)
  obtain v1 where v1: "wake_exit_waiters p u = Some (Same v1)"
    "sched_wf ((exit_waiters (procs v1 p), []) # (child_waiters (procs u par), k) # W) v1 (R @ l) (p # D) Z"
    "procs v1 = (\<lambda>x. (procs u x)\<lparr>status := if x \<in> set l then PROC_STATUS_READY_TO_RUN else status (procs u x),
      exit_waiters := if x = p then exit_waiters (procs v1 p) else exit_waiters (procs u x)\<rparr>)"
    "irq_lock_count v1 = c + 1" "current_process v1 = p" "switch_lock_count v1 = 1" "switch_lock_flag v1 = switch_lock_flag u"
    using wake_exit_nested [OF wfu _ ul(1,2) c, unfolded ul(3)] pn(1) by blast
  have cw: "child_waiters (procs v1 par) = child_waiters (procs u par)" "parent (procs v1 p) = par"
    by (subst v1(3), simp add: pu p(2))+
  then have wfv: "sched_wf ((child_waiters (procs v1 par), k) # (exit_waiters (procs v1 p), []) # W) v1 (R @ l) (p # D) Z"
    using v1(2) sched_wf_swap by metis
  obtain t where t: "wake_child_waiters par v1 = Some (Same t)"
    "sched_wf ((child_waiters (procs t par), []) # (exit_waiters (procs v1 p), []) # W) t ((R @ l) @ k) (p # D) Z"
    "procs t = (\<lambda>x. (procs v1 x)\<lparr>status := if x \<in> set k then PROC_STATUS_READY_TO_RUN else status (procs v1 x),
      child_waiters := if x = par then child_waiters (procs t par) else child_waiters (procs v1 x)\<rparr>)"
    "irq_lock_count t = c + 1" "current_process t = p" "switch_lock_count t = 1" "switch_lock_flag t = switch_lock_flag v1"
    using wake_child_nested [OF wfv _ v1(4,6) c, unfolded v1(5)] pn(2) by blast
  have fl: "switch_lock_flag t" using t(7) v1(7) ul(4) by simp
  have ew: "exit_waiters (procs t p) = exit_waiters (procs v1 p)" by (subst t(3)) simp
  define a b where "a = exit_waiters (procs v1 p)" and "b = child_waiters (procs t par)"
  note v13 = v1(3) [folded a_def] and t3 = t(3) [folded b_def]
  have "proc_exit p code s = Some (sched_resume t)"
    using r p b v1(1) cw(2) t(1) e pu by (simp add: proc_exit_def Let_def v_def [symmetric])
  moreover have "sched_wf ((exit_waiters (procs t p), []) # (child_waiters (procs t par), []) # W) t (R @ l @ k) (p # D) Z"
    using t(2) sched_wf_swap ew append_assoc by metis
  then have "sched_wf ((a, []) # (b, []) # W) t (R @ l @ k) (p # D) Z" by (simp only: a_def b_def ew)
  moreover have "procs t = (\<lambda>x. (procs s x)\<lparr>status := if x = p then PROC_STATUS_READY_TO_DIE
         else if x \<in> set (l @ k) then PROC_STATUS_READY_TO_RUN else status (procs s x),
       exit_code := if x = p then code else exit_code (procs s x),
       exit_waiters := if x = p then a else exit_waiters (procs s x),
       child_waiters := if x = par then b else child_waiters (procs s x)\<rparr>)"
    unfolding t3 v13 pu using pn by (auto simp: fun_eq_iff)
  ultimately show ?thesis using that [OF _ _ _ t(5,4,6) fl, folded b_def, unfolded ew, folded a_def] by blast
qed

text \<open>C8. Exit. When the running process \<open>p\<close> exits, it becomes the first of the dying processes with its code
  recorded; everybody who waits for it (\<open>l\<close>) and everybody who waits for any child of its parent (\<open>k\<close>) becomes ready, in
  that order behind those who were ready before, and both wait queues are empty; the head of the ready queue runs
  next, or the processor waits if nobody is ready. The process tree and the process numbers stay as they are.\<close>

theorem exit_wakes_waiters:
  assumes "running ((exit_waiters (procs s p), l) # (child_waiters (procs s par), k) # W) s R D Z c"
    "current_process s = p" "parent (procs s p) = par" "par \<noteq> 0" "c < 9223372036854775808"
  shows "\<exists>t out. proc_exit p code s = Some out \<and>
    gives_way ((exit_waiters (procs t p), []) # (child_waiters (procs t par), []) # W) p False (R @ l @ k) (p # D) Z c t out \<and>
    exit_code (procs t p) = code \<and>
    (\<forall>x. pid (procs t x) = pid (procs s x) \<and> kids (procs t x) = kids (procs s x) \<and> parent (procs t x) = parent (procs s x) \<and>
      resume_at (procs t x) = resume_at (procs s x))"
proof -
  obtain t where t: "proc_exit p code s = Some (sched_resume t)"
    "sched_wf ((exit_waiters (procs t p), []) # (child_waiters (procs t par), []) # W) t (R @ l @ k) (p # D) Z"
    "procs t = (\<lambda>x. (procs s x)\<lparr>status := if x = p then PROC_STATUS_READY_TO_DIE
         else if x \<in> set (l @ k) then PROC_STATUS_READY_TO_RUN else status (procs s x),
       exit_code := if x = p then code else exit_code (procs s x),
       exit_waiters := if x = p then exit_waiters (procs t p) else exit_waiters (procs s x),
       child_waiters := if x = par then child_waiters (procs t par) else child_waiters (procs s x)\<rparr>)"
    "current_process t = p" "irq_lock_count t = c + 1" "switch_lock_count t = 1" "switch_lock_flag t"
    using exit_postponed [OF assms, of code] by blast
  have f: "status (procs t p) = PROC_STATUS_READY_TO_DIE" "exit_code (procs t p) = code"
    "pid (procs t x) = pid (procs s x)" "kids (procs t x) = kids (procs s x)" "parent (procs t x) = parent (procs s x)"
    "resume_at (procs t x) = resume_at (procs s x)" for x
    by (subst t(3), simp)+
  have p: "p \<noteq> 0" "p \<notin> set (R @ l @ k)" using assms(1,2) by (auto simp: running_def)
  have "gives_way ((exit_waiters (procs t p), []) # (child_waiters (procs t par), []) # W) p
    (status (procs t p) = PROC_STATUS_RUNNING) (R @ l @ k) (p # D) Z c t (sched_resume t)"
    by (rule resume_gives_way [OF t(2,4) p _ _ t(6,7,5)]) (use f(1) room_Suc [OF assms(5)] in auto)
  then show ?thesis using t(1) f by auto
qed

section \<open>Waiting for a child that has exited\<close>

lemma wait_child_loop_dead:
  assumes "i < length cs" "cs ! i \<noteq> 0" "n = - 1 \<or> pid (procs s (cs ! i)) = word_of_int n"
    "status (procs s (cs ! i)) = PROC_STATUS_READY_TO_DIE"
    "\<And>j. j < i \<Longrightarrow> cs ! j = 0 \<or> (n \<noteq> - 1 \<and> pid (procs s (cs ! j)) \<noteq> word_of_int n) \<or> status (procs s (cs ! j)) \<noteq> PROC_STATUS_READY_TO_DIE"
  shows "wait_child_loop n s cs slot f fs = (True, cs ! i, slot + i)"
  using assms
proof (induction cs arbitrary: i slot f fs)
  case (Cons k cs)
  show ?case
  proof (cases i)
    case 0
    then show ?thesis using Cons.prems by auto
  next
    case (Suc m)
    have "wait_child_loop n s cs (Suc slot) f' fs' = (True, cs ! m, Suc slot + m)" for f' fs'
      by (rule Cons.IH) (use Cons.prems(1-4) Cons.prems(5) [of "Suc j" for j] Suc in auto)
    moreover have "k = 0 \<or> (n \<noteq> - 1 \<and> pid (procs s k) \<noteq> word_of_int n) \<or> status (procs s k) \<noteq> PROC_STATUS_READY_TO_DIE"
      using Cons.prems(5) [of 0] Suc by simp
    ultimately show ?thesis using Suc by auto
  qed
qed simp

lemma orphan_fold:
  "fold (\<lambda>k s. if k \<noteq> 0 then upd_proc k (\<lambda>x. x\<lparr>parent := 0\<rparr>) s else s) ks s =
   s\<lparr>procs := \<lambda>x. if x \<noteq> 0 \<and> x \<in> set ks then (procs s x)\<lparr>parent := 0\<rparr> else procs s x\<rparr>"
proof (induction ks arbitrary: s)
  case (Cons k ks)
  have "(\<lambda>x. if x \<noteq> 0 \<and> x \<in> set ks then (((procs s)(k := (procs s k)\<lparr>parent := 0\<rparr>)) x)\<lparr>parent := 0\<rparr>
      else ((procs s)(k := (procs s k)\<lparr>parent := 0\<rparr>)) x) =
    (\<lambda>x. if x \<noteq> 0 \<and> x \<in> set (k # ks) then (procs s x)\<lparr>parent := 0\<rparr> else procs s x)" if "k \<noteq> 0"
    using that by auto
  moreover have "(\<lambda>x. if x \<noteq> 0 \<and> x \<in> set ks then (procs s x)\<lparr>parent := 0\<rparr> else procs s x) =
    (\<lambda>x. if x \<noteq> 0 \<and> x \<in> set (k # ks) then (procs s x)\<lparr>parent := 0\<rparr> else procs s x)" if "k = 0"
    using that by auto
  ultimately show ?case
    unfolding fold.simps comp_apply Cons.IH
    by (cases "k = 0") (simp_all only: if_True if_False not_True_eq_False not_False_eq_True upd_proc_simps, simp_all add: upd_proc_def)
qed simp

lemma collect_spec:
  assumes wf: "sched_wf W t R D Z" and p: "current_process t = p" "p \<noteq> 0" "p \<notin> members (all_queues W t R D Z)" "kids (procs t p) \<noteq> []"
    and ch: "child \<in> set D"
  obtains t' where "process_wait_collect p child slot wanted t =
      Some (sint (pid (procs t child)), if wanted then Some (push_bit 8 (exit_code (procs t child) AND 0xFF)) else None, t')"
    "sched_wf W t' R (remove1 child D) Z" "kids (procs t' p) = (kids (procs t p))[slot := 0]" "reaped t' = child # reaped t"
    "\<And>k. k \<noteq> 0 \<Longrightarrow> k \<in> set (tl (kids (procs t child))) \<Longrightarrow> parent (procs t' k) = 0"
    "\<And>x. status (procs t' x) = status (procs t x)" "current_process t' = p" "irq_lock_count t' = irq_lock_count t"
    "switch_lock_count t' = switch_lock_count t" "switch_lock_flag t' = switch_lock_flag t"
proof -
  note Q = sched_wfD(1) [OF wf]
  have "0 \<notin> set D" using qrep_facts(2) [OF queues_rep [of "links t" "[(ready_to_run t, R)]" "ready_to_die t" D]] Q by simp
  then have c: "child \<noteq> 0" "child \<noteq> p" using ch p(3) by (metis, auto)
  have st: "status (procs t child) = PROC_STATUS_READY_TO_DIE" using sched_wfD(3) [OF wf] ch by blast
  define u where "u = upd_proc child (\<lambda>x. x\<lparr>parent := 0\<rparr>) (upd_proc p (\<lambda>x. x\<lparr>kids := (kids x)[slot := 0]\<rparr>) t)"
  obtain q' N' where r: "proc_queue_remove (ready_to_die t) child (links t) = Some (child \<in> set D, q', N')"
    "queues N' ([(ready_to_run t, R)] @ (q', remove1 child D) # (sleeping t, Z) # W)"
    using queues_remove [of "links t" "[(ready_to_run t, R)]" "ready_to_die t" D "(sleeping t, Z) # W" child] Q c(1) by auto
  define t' where "t' = proc_free child (u\<lparr>ready_to_die := q', links := N'\<rparr>)"
  have pr: "procs t' x = (procs t x)\<lparr>kids := if x = p then (kids (procs t p))[slot := 0] else kids (procs t x),
      parent := if x = child \<or> x \<noteq> 0 \<and> x \<in> set (tl (kids (procs t child))) then 0 else parent (procs t x)\<rparr>" for x
    using c by (auto simp: t'_def proc_free_def u_def orphan_fold [unfolded neq0_conv] Let_def)
  have fd: "links t' = N'" "ready_to_die t' = q'" "ready_to_run t' = ready_to_run t" "sleeping t' = sleeping t" "current_process t' = p"
    "irq_lock_count t' = irq_lock_count t" "switch_lock_count t' = switch_lock_count t" "switch_lock_flag t' = switch_lock_flag t"
    "reaped t' = child # reaped t"
    using c p(1) by (simp_all add: t'_def proc_free_def u_def orphan_fold [unfolded neq0_conv] Let_def)
  have sub: "members (all_queues W t' R (remove1 child D) Z) \<subseteq> members (all_queues W t R D Z)" "set (remove1 child D) \<subseteq> set D"
    using set_remove1_subset [of child D] by auto
  have "sched_wf W t' R (remove1 child D) Z"
    unfolding sched_wf_def
  proof (intro conjI)
    show "queues (links t') (all_queues W t' R (remove1 child D) Z)" using r(2) by (simp add: fd)
    show "\<forall>x\<in>members (all_queues W t' R (remove1 child D) Z) - {current_process t'}.
        resume_at (procs t' x) = In_prelude \<longleftrightarrow> status (procs t' x) = PROC_STATUS_UNINITIALIZED"
    proof
      fix x assume "x \<in> members (all_queues W t' R (remove1 child D) Z) - {current_process t'}"
      then have "x \<in> members (all_queues W t R D Z) - {current_process t}" using sub(1) fd(5) p(1) by blast
      from bspec [OF sched_wfD(7) [OF wf] this]
      show "resume_at (procs t' x) = In_prelude \<longleftrightarrow> status (procs t' x) = PROC_STATUS_UNINITIALIZED" by (simp add: pr)
    qed
  qed (use sched_wfD(2-6) [OF wf] sub in \<open>simp_all add: pr fd p(1) subset_iff\<close>)
  moreover have "process_wait_collect p child slot wanted t =
      Some (sint (pid (procs t child)), if wanted then Some (push_bit 8 (exit_code (procs t child) AND 0xFF)) else None, t')"
    using p(2,4) c st r(1) by (simp add: process_wait_collect_def Let_def mp_ready_to_die_remove_def u_def t'_def)
  ultimately show ?thesis using that [of t'] fd pr by simp
qed

text \<open>C7. waitpid collects an exited child. If the child in a slot of the running process \<open>p\<close> has exited, matches
  the number asked for (or any is asked for), and no child in an earlier slot does, waitpid returns its number and the
  low byte of its exit code shifted left by eight, whatever the options; the slot is free again, the child is off the dying queue and
  freed, its own children have no parent any more, and \<open>p\<close> goes on running.\<close>

theorem waitpid_collects:
  assumes ru: "running W s R D Z c" and p: "current_process s = p" "length (kids (procs s p)) = MAX_CHILDREN"
    and ch: "child \<in> set D" "0 < i" "i < MAX_CHILDREN" "kids (procs s p) ! i = child"
    and n: "n = - 1 \<or> 0 < n \<and> pid (procs s child) = word_of_int n"
    and first: "\<forall>j\<in>{1..<i}. let k = kids (procs s p) ! j in
      k = 0 \<or> (n \<noteq> - 1 \<and> pid (procs s k) \<noteq> word_of_int n) \<or> status (procs s k) \<noteq> PROC_STATUS_READY_TO_DIE"
    and o: "options AND NOT 1 = 0" and c: "c < 18446744073709551613"
  shows "\<exists>s'. waitpid_proc p n True options s =
      Some (Answer (sint (pid (procs s child))) (Some (push_bit 8 (exit_code (procs s child) AND 0xFF))) (Same s')) \<and>
    running W s' R (remove1 child D) Z c \<and> current_process s' = p \<and> kids (procs s' p) = (kids (procs s p))[i := 0] \<and>
    child \<in> set (reaped s') \<and> (\<forall>k\<in>set (tl (kids (procs s child))) - {0}. parent (procs s' k) = 0)"
proof -
  let ?t = "sched_postpone s" and ?ks = "kids (procs s p)"
  have r: "p \<noteq> 0" "p \<notin> members (all_queues W s R D Z)" "status (procs s p) = PROC_STATUS_RUNNING"
    and lk: "switch_lock_count s = 0" "irq_lock_count s = c" "\<not> switch_lock_flag s"
    using ru p(1) by (auto simp: running_def)
  note wf = postpone_wf [OF ru]
  have ne: "?ks \<noteq> []" using p(2) by auto
  have "0 \<notin> set D"
    using qrep_facts(2) [OF queues_rep [of "links s" "[(ready_to_run s, R)]" "ready_to_die s" D]] sched_wfD(1) [OF wf] by simp
  then have c0: "child \<noteq> 0" using ch(1) by metis
  have st: "status (procs s child) = PROC_STATUS_READY_TO_DIE" using sched_wfD(3) [OF wf] ch(1) by simp
  have nth: "tl (take MAX_CHILDREN ?ks) ! j = ?ks ! Suc j" if "Suc j < MAX_CHILDREN" for j
    using that p(2) by (simp add: nth_tl)
  have "wait_child_loop n ?t (tl (take MAX_CHILDREN ?ks)) 1 0 0 = (True, tl (take MAX_CHILDREN ?ks) ! (i - 1), 1 + (i - 1))"
  proof (rule wait_child_loop_dead)
    fix j assume j: "j < i - 1"
    then have "Suc j \<in> {1..<i}" "Suc j < MAX_CHILDREN" using ch(3) by auto
    then show "tl (take MAX_CHILDREN ?ks) ! j = 0 \<or> (n \<noteq> - 1 \<and> pid (procs ?t (tl (take MAX_CHILDREN ?ks) ! j)) \<noteq> word_of_int n) \<or>
        status (procs ?t (tl (take MAX_CHILDREN ?ks) ! j)) \<noteq> PROC_STATUS_READY_TO_DIE"
      using bspec [OF first, of "Suc j"] by (simp only: nth Let_def postpone_fields)
  qed (use ch p(2) nth [of "i - 1"] c0 n st in auto)
  then have find: "wait_child_find p n ?t = (True, child, i)"
    using r(1) ne nth [of "i - 1"] ch by (simp add: wait_child_find_def)
  obtain t' where t': "process_wait_collect p child i True ?t =
      Some (sint (pid (procs s child)), Some (push_bit 8 (exit_code (procs s child) AND 0xFF)), t')"
    "sched_wf W t' R (remove1 child D) Z" "kids (procs t' p) = ?ks[i := 0]" "reaped t' = child # reaped ?t"
    "\<And>k. k \<noteq> 0 \<Longrightarrow> k \<in> set (tl (kids (procs s child))) \<Longrightarrow> parent (procs t' k) = 0"
    "\<And>x. status (procs t' x) = status (procs s x)" "current_process t' = p" "irq_lock_count t' = c + 1"
    "switch_lock_count t' = 1" "\<not> switch_lock_flag t'"
    using collect_spec [OF wf _ r(1), of child i True] p(1) r(2) ne ch(1) lk by (simp add: postpone_fields) blast
  have nm: "p \<notin> members (all_queues W t' R (remove1 child D) Z)" using r(2) notin_set_remove1 [of p D child] by auto
  obtain s' where s': "sched_resume t' = Same s'" "running W s' R (remove1 child D) Z c" "current_process s' = p" "procs s' = procs t'"
    using resume_stays [OF t'(2,7) r(1) nm _ t'(9,10,8) c] t'(6) r(3) by auto
  have rp: "reaped s' = reaped t'" using s'(1) t'(9,10) by (auto simp: sched_resume_def sched_unlock_def Let_def split: if_splits)
  have "waitpid_proc p n True options s =
      Some (Answer (sint (pid (procs s child))) (Some (push_bit 8 (exit_code (procs s child) AND 0xFF))) (Same s'))"
    using r(1) ne o n find st t'(1) s'(1) by (auto simp: waitpid_proc_def Let_def)
  then show ?thesis using s' t'(3-5) rp by auto
qed

section \<open>A forked child and the interrupt lock\<close>



section \<open>A small family\<close>

text \<open>Process 4 and its child 2, which is in slot 3 of its children, with the given statuses, the given queue of those who
  wait for the child to exit and the given dying queue.\<close>

definition family :: "nat \<Rightarrow> proc_status \<Rightarrow> proc_status \<Rightarrow> wait_queue \<Rightarrow> proc_queue \<Rightarrow> sched" where
  "family cur st1 st2 w d =
     small_sched\<lparr>procs := (\<lambda>p. if p = 4 then (small_proc st1 0 In_switch)\<lparr>pid := 4, kids := (replicate MAX_CHILDREN 0)[3 := 2]\<rparr>
         else (small_proc st2 0 In_switch)\<lparr>pid := 2, parent := 4, exit_waiters := w, exit_code := 298, kids := replicate MAX_CHILDREN 0\<rparr>),
       links := (\<lambda>_. 0), current_process := cur, ready_to_run := \<lparr>qhead = 0, qtail = 0\<rparr>, ready_to_die := d,
       sleeping := \<lparr>qhead = 0, qtail = 0\<rparr>\<rparr>"

abbreviation family_waiting :: sched where
  "family_waiting \<equiv> family 2 PROC_STATUS_BLOCKED PROC_STATUS_RUNNING \<lparr>qhead = 4, qtail = 4\<rparr> \<lparr>qhead = 0, qtail = 0\<rparr>"

abbreviation family_exited :: sched where
  "family_exited \<equiv> family 4 PROC_STATUS_RUNNING PROC_STATUS_READY_TO_DIE \<lparr>qhead = 0, qtail = 0\<rparr> \<lparr>qhead = 2, qtail = 2\<rparr>"

lemma family_waiting_running:
  "running [(exit_waiters (procs family_waiting 2), [4]), (child_waiters (procs family_waiting 4), [])] family_waiting [] [] [] 0"
  by (simp add: running_def sched_wf_def queues_def qrep_def family_def small_sched_def small_proc_def proc_queue_init_def)

lemma family_exited_running: "running [] family_exited [] [2] [] 0"
  by (simp add: running_def sched_wf_def queues_def qrep_def family_def small_sched_def small_proc_def)

theorem exit_wakes_waiters_witness:
  "\<exists>t out. proc_exit 2 7 family_waiting = Some out \<and>
    gives_way [(exit_waiters (procs t 2), []), (child_waiters (procs t 4), [])] 2 False [4] [2] [] 0 t out \<and> exit_code (procs t 2) = 7"
  using exit_wakes_waiters [OF family_waiting_running, of 7] by (auto simp: family_def small_sched_def small_proc_def)

theorem waitpid_collects_witness:
  "\<exists>s'. waitpid_proc 4 2 True 0 family_exited = Some (Answer 2 (Some 0x2A00) (Same s')) \<and> running [] s' [] [] [] 0 \<and> 2 \<in> set (reaped s')"
proof -
  have f: "current_process family_exited = 4" "kids (procs family_exited 4) = (replicate MAX_CHILDREN 0)[3 := 2]"
    "pid (procs family_exited 2) = 2" "exit_code (procs family_exited 2) = 298" by (simp_all add: family_def)
  show ?thesis
    using waitpid_collects [OF family_exited_running, of 4 2 3 2 0] by (auto simp: f Let_def nth_list_update)
qed


end
