(* ===== verification/Cstring.thy ===== *)
theory Cstring
  imports Hojicha_Prelude "HOL-Library.Signed_Division" "HOL-Library.Sublist"
begin

text \<open>
  The string and number functions of the C library (libc/string, libc/ctype, libc/stdlib). Memory is a function from
  addresses to bytes and a pointer an address; the null pointer is 0. A loop that runs to a terminator is
  a partial function: \<open>None\<close> means that it does not end. \<open>None\<close> also stands for what C leaves
  undefined: a division by zero, a signed overflow, an index past the end of a constant string.
\<close>

type_synonym mem = "nat \<Rightarrow> u8"

section \<open>Characters\<close>

definition isspace :: "int \<Rightarrow> bool" where
  "isspace c \<longleftrightarrow> c = 32 \<or> c = 12 \<or> c = 10 \<or> c = 13 \<or> c = 9 \<or> c = 11"

definition isprint :: "int \<Rightarrow> bool" where
  "isprint c \<longleftrightarrow> 32 \<le> c \<and> c \<le> 126"

definition tolower :: "int \<Rightarrow> int" where
  "tolower c = (if 65 \<le> c \<and> c \<le> 90 then c + (97 - 65) else c)"

definition toupper :: "int \<Rightarrow> int" where
  "toupper c = (if 97 \<le> c \<and> c \<le> 122 then c - (97 - 65) else c)"

section \<open>Blocks of memory\<close>

text \<open>Copying upwards from offset \<open>i\<close>, and downwards.\<close>

fun copy_up :: "nat \<Rightarrow> nat \<Rightarrow> nat \<Rightarrow> nat \<Rightarrow> mem \<Rightarrow> mem" where
  "copy_up d s i 0 m = m"
| "copy_up d s i (Suc k) m = copy_up d s (Suc i) k (m(d + i := m (s + i)))"

fun copy_down :: "nat \<Rightarrow> nat \<Rightarrow> nat \<Rightarrow> mem \<Rightarrow> mem" where
  "copy_down d s 0 m = m"
| "copy_down d s (Suc i) m = copy_down d s i (m(d + i := m (s + i)))"

definition memcpy :: "nat \<Rightarrow> nat \<Rightarrow> nat \<Rightarrow> mem \<Rightarrow> mem" where
  "memcpy d s n m = copy_up d s 0 n m"

definition memmove :: "nat \<Rightarrow> nat \<Rightarrow> nat \<Rightarrow> mem \<Rightarrow> mem" where
  "memmove d s n m = (if d < s then copy_up d s 0 n m else copy_down d s n m)"

fun set_up :: "nat \<Rightarrow> u8 \<Rightarrow> nat \<Rightarrow> nat \<Rightarrow> mem \<Rightarrow> mem" where
  "set_up b v i 0 m = m"
| "set_up b v i (Suc k) m = set_up b v (Suc i) k (m(b + i := v))"

definition memset :: "nat \<Rightarrow> int \<Rightarrow> nat \<Rightarrow> mem \<Rightarrow> mem" where
  "memset b v n m = set_up b (word_of_int v) 0 n m"

fun memcmp_loop :: "mem \<Rightarrow> nat \<Rightarrow> nat \<Rightarrow> nat \<Rightarrow> nat \<Rightarrow> int" where
  "memcmp_loop m a b i 0 = 0"
| "memcmp_loop m a b i (Suc k) =
     (if m (a + i) < m (b + i) then - 1 else if m (b + i) < m (a + i) then 1 else memcmp_loop m a b (Suc i) k)"

definition memcmp :: "mem \<Rightarrow> nat \<Rightarrow> nat \<Rightarrow> nat \<Rightarrow> int" where
  "memcmp m a b n = memcmp_loop m a b 0 n"

section \<open>Strings\<close>

partial_function (option) strlen_loop :: "mem \<Rightarrow> nat \<Rightarrow> nat \<Rightarrow> nat option" where
  "strlen_loop m str len = (if m (str + len) \<noteq> 0 then strlen_loop m str (Suc len) else Some len)"

definition strlen :: "mem \<Rightarrow> nat \<Rightarrow> nat option" where
  "strlen m str = strlen_loop m str 0"

partial_function (option) strcmp :: "mem \<Rightarrow> nat \<Rightarrow> nat \<Rightarrow> int option" where
  "strcmp m a b = (if m a \<noteq> 0 \<and> m a = m b then strcmp m (Suc a) (Suc b) else Some (uint (m a) - uint (m b)))"

fun strncmp_loop :: "mem \<Rightarrow> nat \<Rightarrow> nat \<Rightarrow> nat \<Rightarrow> nat \<Rightarrow> int" where
  "strncmp_loop m a b i 0 = 0"
| "strncmp_loop m a b i (Suc k) =
     (if m (a + i) \<noteq> m (b + i) then uint (m (a + i)) - uint (m (b + i))
      else if m (a + i) = 0 then 0 else strncmp_loop m a b (Suc i) k)"

definition strncmp :: "mem \<Rightarrow> nat \<Rightarrow> nat \<Rightarrow> nat \<Rightarrow> int" where
  "strncmp m a b len = strncmp_loop m a b 0 len"

definition lower_byte :: "u8 \<Rightarrow> u8" where
  "lower_byte x = word_of_int (tolower (uint x))"

partial_function (option) strcasecmp :: "mem \<Rightarrow> nat \<Rightarrow> nat \<Rightarrow> int option" where
  "strcasecmp m a b =
     (if lower_byte (m a) \<noteq> lower_byte (m b) \<or> lower_byte (m a) = 0
      then Some (uint (lower_byte (m a)) - uint (lower_byte (m b)))
      else strcasecmp m (Suc a) (Suc b))"

fun strncasecmp_loop :: "mem \<Rightarrow> nat \<Rightarrow> nat \<Rightarrow> nat \<Rightarrow> nat \<Rightarrow> int" where
  "strncasecmp_loop m a b i 0 = 0"
| "strncasecmp_loop m a b i (Suc k) =
     (let ac = lower_byte (m (a + i)); bc = lower_byte (m (b + i))
      in if ac \<noteq> bc then uint ac - uint bc else if ac = 0 then 0 else strncasecmp_loop m a b (Suc i) k)"

definition strncasecmp :: "mem \<Rightarrow> nat \<Rightarrow> nat \<Rightarrow> nat \<Rightarrow> int" where
  "strncasecmp m a b len = strncasecmp_loop m a b 0 len"

partial_function (option) strchr_loop :: "mem \<Rightarrow> u8 \<Rightarrow> nat \<Rightarrow> nat option" where
  "strchr_loop m ch str =
     (if m str \<noteq> 0 then (if m str = ch then Some str else strchr_loop m ch (Suc str))
      else Some (if ch = 0 then str else 0))"

definition strchr :: "mem \<Rightarrow> nat \<Rightarrow> int \<Rightarrow> nat option" where
  "strchr m str c = strchr_loop m (word_of_int c) str"

partial_function (option) strrchr_loop :: "mem \<Rightarrow> u8 \<Rightarrow> nat \<Rightarrow> nat \<Rightarrow> nat option" where
  "strrchr_loop m ch l str =
     (let l = (if m str = ch then str else l) in if m str \<noteq> 0 then strrchr_loop m ch l (Suc str) else Some l)"

definition strrchr :: "mem \<Rightarrow> nat \<Rightarrow> int \<Rightarrow> nat option" where
  "strrchr m str c = strrchr_loop m (word_of_int c) 0 str"

text \<open>The inner loop of \<open>strstr\<close>; it returns where the needle's pointer stops.\<close>

partial_function (option) match_loop :: "mem \<Rightarrow> nat \<Rightarrow> nat \<Rightarrow> nat option" where
  "match_loop m h n = (if m h \<noteq> 0 \<and> m n \<noteq> 0 \<and> m h = m n then match_loop m (Suc h) (Suc n) else Some n)"

partial_function (option) strstr_loop :: "mem \<Rightarrow> nat \<Rightarrow> nat \<Rightarrow> nat option" where
  "strstr_loop m needle h =
     (if m h = 0 then Some 0
      else (case match_loop m h needle of None \<Rightarrow> None | Some n \<Rightarrow> if m n = 0 then Some h else strstr_loop m needle (Suc h)))"

definition strstr :: "mem \<Rightarrow> nat \<Rightarrow> nat \<Rightarrow> nat option" where
  "strstr m haystack needle = (if m needle = 0 then Some haystack else strstr_loop m needle haystack)"

definition strcpy :: "nat \<Rightarrow> nat \<Rightarrow> mem \<Rightarrow> mem option" where
  "strcpy d s m = map_option (\<lambda>n. memcpy d s (n + 1) m) (strlen m s)"

text \<open>The two loops of \<open>strncpy\<close>, over \<open>k\<close> bytes that are left.\<close>

fun strncpy_loop :: "nat \<Rightarrow> nat \<Rightarrow> nat \<Rightarrow> nat \<Rightarrow> mem \<Rightarrow> mem" where
  "strncpy_loop d s i 0 m = m"
| "strncpy_loop d s i (Suc k) m =
     (if m (s + i) \<noteq> 0 then strncpy_loop d s (Suc i) k (m(d + i := m (s + i))) else set_up d 0 i (Suc k) m)"

definition strncpy :: "nat \<Rightarrow> nat \<Rightarrow> nat \<Rightarrow> mem \<Rightarrow> mem" where
  "strncpy d s n m = strncpy_loop d s 0 n m"

text \<open>\<open>copy\<close> is what \<open>malloc\<close> answers.\<close>

definition strdup :: "nat \<Rightarrow> nat \<Rightarrow> mem \<Rightarrow> (nat \<times> mem) option" where
  "strdup str copy m =
     map_option (\<lambda>n. if copy = 0 then (0, m) else (copy, memcpy copy str (n + 1) m)) (strlen m str)"

text \<open>The two loops of \<open>strtok_r\<close>: \<open>want\<close> is whether they go on over delimiters or over other bytes.\<close>

partial_function (option) tok_loop :: "mem \<Rightarrow> nat \<Rightarrow> bool \<Rightarrow> nat \<Rightarrow> nat option" where
  "tok_loop m delim want p =
     (if m p = 0 then Some p
      else (case strchr m delim (uint (m p)) of None \<Rightarrow> None | Some q \<Rightarrow> if (q \<noteq> 0) = want then tok_loop m delim want (Suc p) else Some p))"

text \<open>The token, the new value of the saved pointer, and the memory.\<close>

definition strtok_r :: "nat \<Rightarrow> nat \<Rightarrow> nat \<Rightarrow> mem \<Rightarrow> (nat \<times> nat \<times> mem) option" where
  "strtok_r str delim saveptr m =
     (let token = (if str \<noteq> 0 then str else saveptr)
      in if token = 0 then Some (0, saveptr, m)
         else
           (case tok_loop m delim True token of
              None \<Rightarrow> None
            | Some token \<Rightarrow>
                if m token = 0 then Some (0, token, m)
                else map_option (\<lambda>e. if m e \<noteq> 0 then (token, e + 1, m(e := 0)) else (token, e, m)) (tok_loop m delim False token)))"

section \<open>Numbers\<close>

text \<open>\<open>atoi\<close>: the signed overflow of \<open>value\<close> is undefined; a plain \<open>char\<close> above 127 is negative and no digit.\<close>

partial_function (option) skip_space :: "mem \<Rightarrow> nat \<Rightarrow> nat option" where
  "skip_space m p = (if isspace (uint (m p)) then skip_space m (Suc p) else Some p)"

partial_function (option) atoi_loop :: "mem \<Rightarrow> nat \<Rightarrow> int \<Rightarrow> int option" where
  "atoi_loop m p v =
     (if 48 \<le> m p \<and> m p \<le> 57
      then (let v' = v * 10 + (uint (m p) - 48) in if 2 ^ 31 \<le> v' then None else atoi_loop m (Suc p) v')
      else Some v)"

definition atoi :: "mem \<Rightarrow> nat \<Rightarrow> int option" where
  "atoi m nptr =
     (case skip_space m nptr of
        None \<Rightarrow> None
      | Some p \<Rightarrow>
          (let sign = (if m p = 45 then - 1 else 1); p = (if m p = 43 \<or> m p = 45 then Suc p else p)
           in map_option (\<lambda>v. sign * v) (atoi_loop m p 0)))"

text \<open>The reversal at the end of \<open>itoa\<close> and \<open>utoa\<close>.\<close>

function reverse_loop :: "nat \<Rightarrow> nat \<Rightarrow> nat \<Rightarrow> mem \<Rightarrow> mem" where
  "reverse_loop dst start e m =
     (if start < e then reverse_loop dst (start + 1) (e - 1) (m(dst + e := m (dst + start), dst + start := m (dst + e))) else m)"
  by auto
termination by (relation "measure (\<lambda>(_, start, e, _). e - start)") auto

declare reverse_loop.simps [simp del]

text \<open>The letter of the base, as a list because other bases have none.\<close>

definition base_letter :: "int \<Rightarrow> u8 list" where
  "base_letter b = (if b = 16 then [120] else if b = 10 then [100] else if b = 8 then [111] else if b = 2 then [98] else [])"

fun store :: "nat \<Rightarrow> u8 list \<Rightarrow> mem \<Rightarrow> mem" where
  "store p [] m = m"
| "store p (x # xs) m = store (Suc p) xs (m(p := x))"

text \<open>The bytes of \<open>"0123456789ABCDEF"\<close>, its terminator included.\<close>

definition digit_chars :: "u8 list" where
  "digit_chars = [48, 49, 50, 51, 52, 53, 54, 55, 56, 57, 65, 66, 67, 68, 69, 70, 0]"

text \<open>The base takes part in the unsigned division as a 64-bit word, and the remainder is cut to an \<open>int\<close>.\<close>

partial_function (option) utoa_loop :: "u64 \<Rightarrow> u64 \<Rightarrow> nat \<Rightarrow> nat \<Rightarrow> mem \<Rightarrow> (nat \<times> mem) option" where
  "utoa_loop b num dst i m =
     (if num = 0 then Some (i, m)
      else if b = 0 then None
      else
        (let r = sint (ucast (num mod b) :: u32)
         in if 0 \<le> r \<and> r < 17 then utoa_loop b (num div b) dst (i + 1) (m(dst + i := digit_chars ! nat r)) else None))"

definition utoa :: "u64 \<Rightarrow> nat \<Rightarrow> int \<Rightarrow> mem \<Rightarrow> mem option" where
  "utoa num dst base m =
     (if num = 0 then Some (m(dst := 48, dst + 1 := 0))
      else
        map_option (\<lambda>(i, m).
            (let m = store (dst + i) (base_letter base) m; i = i + length (base_letter base);
                 m = m(dst + i := 48); i = i + 1;
                 m = m(dst + i := 0)
             in reverse_loop dst 0 (i - 1) m))
          (utoa_loop (word_of_int base) num dst 0 m))"

text \<open>\<open>itoa\<close>: C's division truncates, so a negative number has negative remainders in a base other than ten.
  The negation of the least number, and the loop in base one, have no result.\<close>

partial_function (option) itoa_loop :: "int \<Rightarrow> int \<Rightarrow> nat \<Rightarrow> nat \<Rightarrow> mem \<Rightarrow> (nat \<times> mem) option" where
  "itoa_loop b num dst i m =
     (if num = 0 then Some (i, m)
      else if b = 0 then None
      else
        (let r = num smod b; ch = (if 9 < r then (r - 10) + 97 else r + 48)
         in itoa_loop b (num sdiv b) dst (i + 1) (m(dst + i := word_of_int ch))))"

definition itoa :: "int \<Rightarrow> nat \<Rightarrow> int \<Rightarrow> mem \<Rightarrow> mem option" where
  "itoa num dst base m =
     (if num = - (2 ^ 63) \<and> (base = 10 \<or> base = - 1) then None
      else
        (let neg = (num < 0 \<and> base = 10); num = (if neg then - num else num)
         in map_option (\<lambda>(i, m).
                (let m = store (dst + i) (base_letter base) m; i = i + length (base_letter base);
                     m = m(dst + i := 48); i = i + 1;
                     m = (if neg then m(dst + i := 45) else m); i = (if neg then i + 1 else i);
                     m = m(dst + i := 0)
                 in reverse_loop dst 0 (i - 1) m))
              (if num = 0 then Some (1, m(dst := 48)) else itoa_loop base num dst 0 m)))"

section \<open>memmove\<close>

lemma copy_up_spec:
  assumes "d < s"
  shows "copy_up d s i k m = (\<lambda>a. if d + i \<le> a \<and> a < d + i + k then m (s + (a - d)) else m a)"
  using assms
proof (induction k arbitrary: i m)
  case (Suc k)
  show ?case unfolding copy_up.simps(2) Suc.IH [OF Suc.prems] using Suc.prems by (auto simp: fun_eq_iff)
qed (auto simp: fun_eq_iff)

lemma copy_down_spec:
  assumes "s \<le> d"
  shows "copy_down d s k m = (\<lambda>a. if d \<le> a \<and> a < d + k then m (s + (a - d)) else m a)"
  using assms
proof (induction k arbitrary: m)
  case (Suc k)
  show ?case unfolding copy_down.simps(2) Suc.IH [OF Suc.prems] using Suc.prems by (auto simp: fun_eq_iff less_Suc_eq)
qed (auto simp: fun_eq_iff)

text \<open>C31. memmove copies as if through a buffer of its own: wherever the two blocks lie and however they overlap, the
  destination holds afterwards the bytes that the source held before, and nothing else changes.\<close>

theorem memmove_parallel:
  "memmove d s n m = (\<lambda>a. if d \<le> a \<and> a < d + n then m (s + (a - d)) else m a)"
  by (simp add: memmove_def copy_up_spec copy_down_spec)

section \<open>Strings at an address\<close>

definition string_at :: "mem \<Rightarrow> nat \<Rightarrow> u8 list \<Rightarrow> bool" where
  "string_at m a cs \<longleftrightarrow> (\<forall>i<length cs. m (a + i) = cs ! i) \<and> m (a + length cs) = 0 \<and> 0 \<notin> set cs"

lemma string_at_Nil: "string_at m a [] \<longleftrightarrow> m a = 0"
  by (simp add: string_at_def)

lemma string_at_Cons: "string_at m a (c # cs) \<longleftrightarrow> m a = c \<and> c \<noteq> 0 \<and> string_at m (Suc a) cs"
  by (auto simp: string_at_def All_less_Suc2)

lemma strlen_string: "string_at m a cs \<Longrightarrow> strlen m a = Some (length cs)"
proof -
  have "string_at m (a + i) cs \<Longrightarrow> strlen_loop m a i = Some (i + length cs)" for i
    by (induction cs arbitrary: i) (subst strlen_loop.simps; auto simp: string_at_Nil string_at_Cons)+
  from this [of 0] show "string_at m a cs \<Longrightarrow> strlen m a = Some (length cs)" by (simp add: strlen_def)
qed

lemma match_loop_spec:
  "string_at m h hs \<Longrightarrow> string_at m n ns \<Longrightarrow> \<exists>e. match_loop m h n = Some e \<and> (m e = 0 \<longleftrightarrow> prefix ns hs)"
proof (induction hs arbitrary: h n ns)
  case Nil
  then show ?case by (subst match_loop.simps) (cases ns; auto simp: string_at_Nil string_at_Cons)
next
  case (Cons c hs)
  show ?case
  proof (cases ns)
    case Nil
    then show ?thesis using Cons.prems by (subst match_loop.simps) (auto simp: string_at_Nil)
  next
    case ns: (Cons d ds)
    then show ?thesis using Cons.prems Cons.IH [of "Suc h" "Suc n" ds]
      by (subst match_loop.simps) (auto simp: string_at_Cons)
  qed
qed

lemma strstr_loop_spec:
  assumes "string_at m h hs" "string_at m n ns" "ns \<noteq> []"
  shows "strstr_loop m n h = Some (case find (\<lambda>i. prefix ns (drop i hs)) [0..<length hs] of None \<Rightarrow> 0 | Some i \<Rightarrow> h + i)"
  using assms
proof (induction hs arbitrary: h)
  case Nil
  then show ?case by (subst strstr_loop.simps) (simp add: string_at_Nil)
next
  case (Cons c hs)
  obtain e where e: "match_loop m h n = Some e" "m e = 0 \<longleftrightarrow> prefix ns (c # hs)" using match_loop_spec [OF Cons.prems(1,2)] by blast
  have nz: "m h \<noteq> 0" and st: "string_at m (Suc h) hs" using Cons.prems(1) by (auto simp: string_at_Cons)
  have up: "[0..<length (c # hs)] = 0 # map Suc [0..<length hs]" by (simp add: map_Suc_upt upt_conv_Cons del: upt_Suc)
  have fm: "find (\<lambda>i. prefix ns (drop i (c # hs))) (map Suc is) = map_option Suc (find (\<lambda>i. prefix ns (drop i hs)) is)" for "is"
    by (induction "is") auto
  show ?case
  proof (cases "prefix ns (c # hs)")
    case True
    then show ?thesis unfolding up using nz e by (subst strstr_loop.simps) simp
  next
    case False
    then have "strstr_loop m n h = strstr_loop m n (Suc h)" using nz e by (subst strstr_loop.simps) simp
    then show ?thesis unfolding up using Cons.IH [OF st Cons.prems(2,3)] False fm by (auto split: option.splits)
  qed
qed

text \<open>C32. strstr returns the first place where the needle occurs, and the null pointer only if it occurs nowhere; it
  always returns.\<close>

theorem strstr_first_occurrence:
  assumes "string_at m h hs" "string_at m n ns"
  shows "if \<exists>i\<le>length hs. prefix ns (drop i hs)
    then \<exists>i\<le>length hs. strstr m h n = Some (h + i) \<and> prefix ns (drop i hs) \<and> (\<forall>j<i. \<not> prefix ns (drop j hs))
    else strstr m h n = Some 0"
proof (cases "ns = []")
  case True
  then show ?thesis using assms(2) by (auto simp: strstr_def string_at_Nil)
next
  case False
  then have "m n \<noteq> 0" using assms(2) by (cases ns) (auto simp: string_at_Cons)
  then have e: "strstr m h n = Some (case find (\<lambda>i. prefix ns (drop i hs)) [0..<length hs] of None \<Rightarrow> 0 | Some i \<Rightarrow> h + i)"
    using strstr_loop_spec [OF assms False] by (simp add: strstr_def)
  have lt: "prefix ns (drop i hs) \<Longrightarrow> i < length hs" for i using False by (cases "i < length hs") auto
  show ?thesis
  proof (cases "find (\<lambda>i. prefix ns (drop i hs)) [0..<length hs]")
    case None
    then have "\<not> (\<exists>i\<le>length hs. prefix ns (drop i hs))" using lt by (auto simp: find_None_iff)
    moreover have "strstr m h n = Some 0" using e unfolding None by simp
    ultimately show ?thesis by (simp only: if_False)
  next
    case (Some i)
    then have i: "i < length hs" "prefix ns (drop i hs)" "\<forall>j<i. \<not> prefix ns (drop j hs)"
      by (auto simp: find_Some_iff)
    moreover have "strstr m h n = Some (h + i)" using e unfolding Some by simp
    moreover have "\<exists>i\<le>length hs. prefix ns (drop i hs)" using i(2) less_imp_le_nat [OF i(1)] by blast
    ultimately show ?thesis using less_imp_le_nat [OF i(1)] by (simp only: if_True) blast
  qed
qed

section \<open>Comparison, search and tokens\<close>

lemma strcmp_spec:
  "string_at m a as \<Longrightarrow> string_at m b bs \<Longrightarrow> \<exists>r. strcmp m a b = Some r \<and> (r = 0 \<longleftrightarrow> as = bs)"
proof (induction as arbitrary: a b bs)
  case Nil
  then show ?case by (subst strcmp.simps) (cases bs; auto simp: string_at_Nil string_at_Cons uint_0_iff)
next
  case (Cons c as)
  show ?case
  proof (cases bs)
    case Nil
    then show ?thesis using Cons.prems by (subst strcmp.simps) (auto simp: string_at_Nil string_at_Cons uint_0_iff)
  next
    case bs: (Cons d ds)
    then show ?thesis using Cons.prems Cons.IH [of "Suc a" "Suc b" ds]
      by (subst strcmp.simps) (auto simp: string_at_Cons word_uint_eq_iff)
  qed
qed

lemma strchr_loop_spec:
  "string_at m a cs \<Longrightarrow> c \<noteq> 0 \<Longrightarrow>
   strchr_loop m c a = Some (if c \<in> set cs then a + length (takeWhile (\<lambda>x. x \<noteq> c) cs) else 0)"
proof (induction cs arbitrary: a)
  case Nil
  then show ?case by (subst strchr_loop.simps) (simp add: string_at_Nil)
next
  case (Cons d cs)
  then show ?case by (subst strchr_loop.simps) (auto simp: string_at_Cons)
qed

lemma strchr_hit:
  assumes "string_at m a cs" "a \<noteq> 0" "c \<noteq> 0"
  shows "\<exists>q. strchr m a (uint (c :: u8)) = Some q \<and> (q \<noteq> 0 \<longleftrightarrow> c \<in> set cs)"
  using strchr_loop_spec [OF assms(1,3)] assms(2) by (simp add: strchr_def)

lemma tok_loop_spec:
  assumes "string_at m delim ds" "delim \<noteq> 0" "string_at m p cs"
  shows "tok_loop m delim want p = Some (p + length (takeWhile (\<lambda>c. (c \<in> set ds) = want) cs))"
  using assms(3)
proof (induction cs arbitrary: p)
  case Nil
  then show ?case by (subst tok_loop.simps) (simp add: string_at_Nil)
next
  case (Cons c cs)
  then have c: "m p = c" "c \<noteq> 0" "string_at m (Suc p) cs" by (auto simp: string_at_Cons)
  obtain q where q: "strchr m delim (uint c) = Some q" "q \<noteq> 0 \<longleftrightarrow> c \<in> set ds" using strchr_hit [OF assms(1,2) c(2)] by blast
  show ?case
  proof (cases "(c \<in> set ds) = want")
    case True
    then have "tok_loop m delim want p = tok_loop m delim want (Suc p)" using c q by (subst tok_loop.simps) simp
    then show ?thesis using Cons.IH [OF c(3)] True by simp
  next
    case False
    then have "tok_loop m delim want p = Some p" using c q by (subst tok_loop.simps) auto
    then show ?thesis using False by simp
  qed
qed

lemma string_at_drop: "string_at m a cs \<Longrightarrow> i \<le> length cs \<Longrightarrow> string_at m (a + i) (drop i cs)"
  by (auto simp: string_at_def add.assoc dest: in_set_dropD)

text \<open>A call of \<open>strtok_r\<close> returns the next maximal run of bytes that are no delimiters, cut off as a string of its own, and
  leaves the saved pointer behind it; without such a run it returns the null pointer.\<close>

lemma strtok_token:
  assumes d: "string_at m delim ds" "delim \<noteq> 0" and s: "string_at m str cs" "str \<noteq> 0"
  defines "rest \<equiv> dropWhile (\<lambda>c. c \<in> set ds) cs"
  defines "tok \<equiv> takeWhile (\<lambda>c. c \<notin> set ds) rest"
  shows "if rest = [] then \<exists>sv. strtok_r str delim sv0 m = Some (0, sv, m)
    else \<exists>t sv m'. strtok_r str delim sv0 m = Some (t, sv, m') \<and> t \<noteq> 0 \<and> string_at m' t tok \<and> tok \<noteq> [] \<and>
      string_at m' sv (drop (Suc (length tok)) rest)"
proof -
  let ?n = "length (takeWhile (\<lambda>c. c \<in> set ds) cs)"
  have st: "tok_loop m delim True str = Some (str + ?n)" using tok_loop_spec [OF d s(1), of True] by simp
  have r: "rest = drop ?n cs" by (simp add: rest_def dropWhile_eq_drop)
  have sr: "string_at m (str + ?n) rest" unfolding r by (rule string_at_drop [OF s(1)]) (simp add: length_takeWhile_le)
  have st2: "tok_loop m delim False (str + ?n) = Some (str + ?n + length tok)"
    using tok_loop_spec [OF d sr, of False] by (simp add: tok_def)
  show ?thesis
  proof (cases "rest = []")
    case True
    then show ?thesis using st s(2) sr by (simp add: strtok_r_def string_at_Nil)
  next
    case False
    then obtain c rs where rc: "rest = c # rs" "c \<notin> set ds"
      using hd_dropWhile [of "\<lambda>c. c \<in> set ds" cs] unfolding rest_def by (cases "dropWhile (\<lambda>c. c \<in> set ds) cs") auto
    have nz: "m (str + ?n) \<noteq> 0" and tne: "tok \<noteq> []" using sr rc by (auto simp: string_at_Cons tok_def)
    let ?e = "str + ?n + length tok"
    have le: "length tok \<le> length rest" by (simp add: tok_def length_takeWhile_le)
    have tk: "take (length tok) rest = tok" by (simp add: tok_def takeWhile_eq_take [symmetric])
    have "m (str + ?n + i) = tok ! i" if "i < length tok" for i
      using sr that le tk by (metis nth_take order_less_le_trans string_at_def)
    moreover have "0 \<notin> set tok" using sr by (auto simp: tok_def string_at_def dest: set_takeWhileD)
    ultimately have t0: "string_at (m(?e := 0)) (str + ?n) tok" by (simp add: string_at_def)
    show ?thesis
    proof (cases "m ?e = 0")
      case True
      then have "length tok = length rest" using sr le by (metis le_neq_implies_less nth_mem string_at_def)
      moreover have "m(?e := 0) = m" using True by auto
      ultimately show ?thesis using False st st2 nz tne t0 True s(2) by (simp add: strtok_r_def string_at_Nil)
    next
      case F: False
      then have lt: "length tok < length rest" using sr le by (metis le_neq_implies_less string_at_def)
      have "string_at m (str + ?n + Suc (length tok)) (drop (Suc (length tok)) rest)"
        by (rule string_at_drop [OF sr]) (use lt in simp)
      then have "string_at (m(?e := 0)) (?e + 1) (drop (Suc (length tok)) rest)" by (simp add: string_at_def)
      then show ?thesis using False F st st2 nz tne t0 s(2) by (simp add: strtok_r_def)
    qed
  qed
qed

section \<open>Numbers as strings\<close>

lemma store_append: "store p (xs @ ys) m = store (p + length xs) ys (store p xs m)"
  by (induction xs arbitrary: p m) auto

lemma store_spec: "store p xs m = (\<lambda>a. if p \<le> a \<and> a < p + length xs then xs ! (a - p) else m a)"
proof (induction xs arbitrary: p m)
  case (Cons x xs)
  show ?case unfolding store.simps(2) Cons.IH by (auto simp: fun_eq_iff nth_Cons' Suc_diff_Suc)
qed (auto simp: fun_eq_iff)

lemma reverse_loop_spec:
  "reverse_loop dst s e m a = (if dst + s \<le> a \<and> a \<le> dst + e then m (dst + (s + e - (a - dst))) else m a)"
proof (induction dst s e m rule: reverse_loop.induct)
  case (1 dst s e m)
  let ?m = "m(dst + e := m (dst + s), dst + s := m (dst + e))"
  show ?case
  proof (cases "s < e")
    case True
    then have st: "reverse_loop dst s e m a = (if dst + (s + 1) \<le> a \<and> a \<le> dst + (e - 1) then ?m (dst + (s + 1 + (e - 1) - (a - dst))) else ?m a)"
      using 1 [OF True] by (subst reverse_loop.simps) (simp only: if_True)
    consider "a = dst + s" | "a = dst + e" | "dst + s < a" "a < dst + e" | "a < dst + s \<or> dst + e < a" by linarith
    then show ?thesis
    proof cases
      case 1
      then show ?thesis unfolding st using True by simp
    next
      case 2
      then have "\<not> a \<le> dst + (e - 1)" "s + e - (a - dst) = s" using True by linarith+
      then show ?thesis unfolding st using True 2 by simp
    next
      case 4
      then have "\<not> (dst + (s + 1) \<le> a \<and> a \<le> dst + (e - 1))" "\<not> (dst + s \<le> a \<and> a \<le> dst + e)" "a \<noteq> dst + s" "a \<noteq> dst + e"
        using True by linarith+
      then show ?thesis unfolding st by (simp only: if_False fun_upd_apply)
    next
      case 3
      define k where "k = s + e - (a - dst)"
      have k: "s + 1 + (e - 1) - (a - dst) = k" and n: "k \<noteq> s" "k \<noteq> e" "dst + (s + 1) \<le> a" "a \<le> dst + (e - 1)"
        using 3 True unfolding k_def by linarith+
      show ?thesis unfolding k_def [symmetric] st k using n 3 by simp
    qed
  next
    case False
    then have "reverse_loop dst s e m = m" by (subst reverse_loop.simps) simp
    moreover have "dst + (s + e - (a - dst)) = a" if "dst + s \<le> a" "a \<le> dst + e" using that False by linarith
    ultimately show ?thesis by simp
  qed
qed

lemma reverse_string:
  assumes "xs \<noteq> []" "0 \<notin> set xs"
  shows "string_at (reverse_loop dst 0 (length xs - 1) (store dst (xs @ [0]) m)) dst (rev xs)"
proof -
  have "\<not> length xs \<le> length xs - Suc 0" "\<not> dst + length xs \<le> dst + length xs - Suc 0" using assms(1) by (cases xs; simp)+
  then show ?thesis unfolding string_at_def reverse_loop_spec store_spec using assms by (auto simp: nth_append rev_nth)
qed

text \<open>The number that digits stand for, the most significant first.\<close>

definition digits_value :: "nat \<Rightarrow> nat list \<Rightarrow> nat" where
  "digits_value b ds = foldl (\<lambda>v d. v * b + d) 0 ds"

lemma digits_value_snoc: "digits_value b (ds @ [d]) = digits_value b ds * b + d"
  by (simp add: digits_value_def)

lemma utoa_loop_spec:
  assumes "2 \<le> unat b" "unat b \<le> 16"
  shows "\<exists>ds. utoa_loop b num dst i m = Some (i + length ds, store (dst + i) (map (\<lambda>d. digit_chars ! d) ds) m) \<and>
    digits_value (unat b) (rev ds) = unat num \<and> (\<forall>d\<in>set ds. d < unat b) \<and> (if num = 0 then ds = [] else ds \<noteq> [] \<and> last ds \<noteq> 0)"
proof (induction "unat num" arbitrary: num i m rule: less_induct)
  case less
  show ?case
  proof (cases "num = 0")
    case True
    then show ?thesis by (subst utoa_loop.simps) (simp add: digits_value_def)
  next
    case False
    define r where "r = unat (num mod b)"
    have b0: "b \<noteq> 0" using assms(1) by auto
    have r: "r < unat b" using assms(1) by (simp add: r_def unat_mod)
    have n0: "unat num \<noteq> 0" using False by (simp add: unat_eq_0)
    have lt: "unat (num div b) < unat num" using assms(1) n0 by (simp add: unat_div)
    have ur: "uint (num mod b) = int r" by (simp add: r_def)
    have r16: "int r < 16" using r assms(2) by linarith
    have "sint (ucast (num mod b) :: u32) = signed_take_bit 31 (take_bit 32 (uint (num mod b)))"
      by (simp add: sint_uint unsigned_ucast_eq)
    also have "\<dots> = int r" unfolding ur using r16 by (simp add: take_bit_int_eq_self signed_take_bit_int_eq_self)
    finally have "sint (ucast (num mod b) :: u32) = int r" .
    then have st: "utoa_loop b num dst i m = utoa_loop b (num div b) dst (i + 1) (m(dst + i := digit_chars ! r))"
      using False b0 r assms(2) by (subst utoa_loop.simps) simp
    obtain ds where ds: "utoa_loop b (num div b) dst (i + 1) (m(dst + i := digit_chars ! r)) =
        Some (i + 1 + length ds, store (dst + (i + 1)) (map (\<lambda>d. digit_chars ! d) ds) (m(dst + i := digit_chars ! r)))"
      "digits_value (unat b) (rev ds) = unat (num div b)" "\<forall>d\<in>set ds. d < unat b" "if num div b = 0 then ds = [] else ds \<noteq> [] \<and> last ds \<noteq> 0"
      using less.hyps [OF lt] by blast
    have v: "digits_value (unat b) (rev (r # ds)) = unat num"
      using ds(2) by (simp add: digits_value_snoc r_def unat_div unat_mod)
    have "last (r # ds) \<noteq> 0"
    proof (cases "num div b = 0")
      case True
      then have "ds = []" using ds(4) by simp
      then show ?thesis using v n0 by (simp add: digits_value_def)
    qed (use ds(4) in simp)
    then show ?thesis using st ds(1,3) v r False by (intro exI [of _ "r # ds"]) auto
  qed
qed

lemma digit_chars_nz: "\<forall>d<16. digit_chars ! d \<noteq> 0"
proof (intro allI impI)
  fix d :: nat assume "d < 16"
  moreover have l: "length digit_chars = 17" "0 \<notin> set (take 16 digit_chars)" by (simp_all add: digit_chars_def)
  ultimately have "take 16 digit_chars ! d \<in> set (take 16 digit_chars)" by (intro nth_mem) simp
  then show "digit_chars ! d \<noteq> 0" using l(2) \<open>d < 16\<close> by (metis nth_take)
qed

text \<open>C33. utoa writes a number in its base. For a base from 2 to 16 and a number other than 0 it returns, and the
  buffer holds a terminated string: a zero, the letter of the base if it has one, and the digits of the number, the most significant
  first and not zero, which read back in that base give the number.\<close>

theorem utoa_reads_back:
  assumes "2 \<le> base" "base \<le> 16" "num \<noteq> 0"
  shows "\<exists>m' ds. utoa num dst base m = Some m' \<and>
    string_at m' dst (48 # base_letter base @ map (\<lambda>d. digit_chars ! d) ds) \<and>
    digits_value (nat base) ds = unat num \<and> (\<forall>d\<in>set ds. d < nat base) \<and> ds \<noteq> [] \<and> hd ds \<noteq> 0"
proof -
  let ?b = "word_of_int base :: u64" and ?l = "base_letter base"
  have b: "unat ?b = nat base" using assms by (simp add: unat_eq_nat_uint uint_word_of_int)
  have n: "2 \<le> nat base" "nat base \<le> 16" using assms(1,2) by auto
  obtain ds where ds: "utoa_loop ?b num dst 0 m = Some (0 + length ds, store (dst + 0) (map (\<lambda>d. digit_chars ! d) ds) m)"
    "digits_value (nat base) (rev ds) = unat num" "\<forall>d\<in>set ds. d < nat base" "ds \<noteq> []" "last ds \<noteq> 0"
    using utoa_loop_spec [of ?b num dst 0 m, unfolded b] n assms(3) by auto
  let ?xs = "map (\<lambda>d. digit_chars ! d) ds @ ?l @ [48]"
  have l: "rev ?l = ?l" "0 \<notin> set ?l" by (auto simp: base_letter_def)
  have "0 \<notin> set ?xs" using ds(3) assms(2) digit_chars_nz l(2) by fastforce
  then have "string_at (reverse_loop dst 0 (length ?xs - 1) (store dst (?xs @ [0]) m)) dst (rev ?xs)" by (intro reverse_string) auto
  moreover have "utoa num dst base m = Some (reverse_loop dst 0 (length ?xs - 1) (store dst (?xs @ [0]) m))"
    using ds(1) assms(3) by (simp add: utoa_def Let_def store_append add.assoc)
  moreover have "rev ?xs = 48 # ?l @ map (\<lambda>d. digit_chars ! d) (rev ds)" by (simp add: l(1) rev_map)
  ultimately show ?thesis using ds(2-5) by (intro exI [of _ "rev ds"] exI) (auto simp: hd_rev)
qed

section \<open>Instances\<close>

text \<open>Two strings in memory, at 100 and 200.\<close>

definition mem_example :: mem where
  "mem_example = store 200 [97, 98, 0] (store 100 [99, 97, 97, 98, 97, 98, 0] (\<lambda>_. 0))"

theorem strstr_first_occurrence_witness:
  "\<exists>i\<le>6. strstr mem_example 100 200 = Some (100 + i) \<and> prefix [97, 98] (drop i [99, 97, 97, 98, 97, 98 :: u8])"
proof -
  have h: "string_at mem_example 100 [99, 97, 97, 98, 97, 98]" and n: "string_at mem_example 200 [97, 98]"
    by (simp_all add: string_at_Cons string_at_Nil mem_example_def store_spec)
  have "\<exists>i\<le>length [99, 97, 97, 98, 97, 98 :: u8]. prefix [97, 98] (drop i [99, 97, 97, 98, 97, 98 :: u8])"
    by (rule exI [of _ 2]) simp
  then show ?thesis using strstr_first_occurrence [OF h n] by (auto simp del: drop_Suc_Cons)
qed

theorem utoa_reads_back_witness:
  "\<exists>m' ds. utoa 255 100 16 mem_example = Some m' \<and>
    string_at m' 100 (48 # base_letter 16 @ map (\<lambda>d. digit_chars ! d) ds) \<and> digits_value 16 ds = 255"
  using utoa_reads_back [of 16 255 100 mem_example] by auto

end
