(* ===== verification/Spec2Isabelle.thy ===== *)
theory Spec2Isabelle
  imports Hojicha_Prelude Bitmap Pmm Vma Vmm_Spec Slab Heap_Contract Ringbuffer Ustar Proc_Life Cstring
begin

text \<open>
  A verification development of hojicha: a kernel for x86-64, its C library and its user programs.
  All paths below are under \<^verbatim>\<open>src/\<close>.

  \<^bold>\<open>The program.\<close> The boot loader hands over a memory map. The physical memory manager
  (\<^verbatim>\<open>kernel/memory/pmm.c\<close>) gives out frames, in the order of their addresses or from a bitmap
  (\<^verbatim>\<open>kernel/utils/bitmap.c\<close>). The virtual memory manager (\<^verbatim>\<open>kernel/memory/vmm.c\<close>) turns frames
  into address spaces and keeps, per process, a list of areas (\<^verbatim>\<open>kernel/memory/vma.c\<close>). The heap
  (\<^verbatim>\<open>libc/hmalloc/hmalloc.c\<close>) is used by the kernel and by programs. Processes
  (\<^verbatim>\<open>kernel/mp\<close>) are created, forked, scheduled by a timer, put to sleep, synchronised by semaphores
  and mutexes, and collected by \<open>waitpid\<close>. The file system layer (\<^verbatim>\<open>kernel/fs/vfs.c\<close>) resolves paths
  over mounted file systems; the root is the initrd (\<^verbatim>\<open>kernel/fs/initrd.c\<close>), loaded from a ustar
  archive. Ring buffers (\<^verbatim>\<open>kernel/utils/ringbuffer.c\<close>) carry keyboard events.

  \<^bold>\<open>Theories, and what they model.\<close>
  \<^item> \<open>Hojicha_Prelude\<close>: machine integers as words, rules from words to \<open>nat\<close>, linked lists.
  \<^item> \<open>Bitmap\<close>: \<^verbatim>\<open>bitmap.c\<close>, every function on the bytes of the storage. The cached first clear bit
    and the bounds stay exact; the least clear bit is found. The locale \<open>index_pool\<close> is what an
    allocator needs of it.
  \<^item> \<open>Pmm\<close>: \<^verbatim>\<open>pmm.c\<close>, the record \<open>pmm_state\<close> for the globals, the scan of the memory map, both
    ways of allocating. Frames handed out are distinct and free before; the switch to the bitmap
    never happens.
  \<^item> \<open>Vma\<close>: \<^verbatim>\<open>vma.c\<close>, the ordered list of areas, and the doubly linked list under it. Insertion and
    removal are exact on the set of addresses; the three searches return the lowest or highest gap;
    the locale \<open>gap_search\<close> is what a client of a search relies on.
  \<^item> \<open>Vmm\<close>, \<open>Vmm_Map\<close>, \<open>Vmm_Spec\<close>: \<^verbatim>\<open>vmm.c\<close>. The machine is physical memory by frames, \<open>cr3\<close>, and
    the log of \<open>invlpg\<close>; every table access goes through the walk of the processor, so that a missing
    mapping is a fault (\<open>None\<close>). Shown: what the recursive entry and the scratch addresses refer to,
    and what \<open>vmm_map\<close> and \<open>vmm_unmap\<close> of a process do to every translation, to the access bits on
    the way, to the areas and to the frames. \<open>vmm_new\<close>, \<open>vmm_copy\<close>, \<open>vmm_free\<close>, the kernel's own
    mappings and \<open>vmm_initialize\<close> are defined; of these only the size check of the last is treated.
  \<^item> \<open>Slab\<close>: \<^verbatim>\<open>slab.c\<close>, the classes as lists of slabs over the bitmap (through \<open>index_pool\<close>), the
    headers as memory. A payload handed out overlaps none in use; freeing takes out exactly it.
  \<^item> \<open>Hmalloc\<close>, \<open>Heap_Contract\<close>: \<^verbatim>\<open>hmalloc.c\<close>, headers and footers as memory. The invariant says
    that blocks tile the region and the free list is sorted; the locales \<open>page_mapper\<close> and
    \<open>heap_allocator\<close> are what the heap needs and what it promises: payloads are disjoint, freed
    neighbours merge, and \<open>hmalloc\<close> returns.
  \<^item> \<open>Fifo\<close>, \<open>Ringbuffer\<close>, \<open>Proc_Queue\<close>: the locale \<open>fifo\<close>, interpreted on the ring buffer and on the
    process queues of \<^verbatim>\<open>proc_queue.c\<close>; both refine lists.
  \<^item> \<open>Sched\<close>, \<open>Sched_Inv\<close>: \<^verbatim>\<open>scheduler.c\<close>, \<^verbatim>\<open>sleep.c\<close>, \<^verbatim>\<open>mp_utils.c\<close> and the switch. An operation
    returns an \<open>outcome\<close>: the caller goes on, another process runs, or the processor idles. The
    invariant keeps the queues disjoint and ordered; a ready process runs after a known number of
    ticks; a timer tick wakes exactly the sleepers that are due.
  \<^item> \<open>Sync\<close>: \<^verbatim>\<open>wait_queue.c\<close>, \<^verbatim>\<open>semaphore.c\<close>, \<^verbatim>\<open>mutex.c\<close>. Over any interleaving a semaphore is never
    granted more often than its limit.
  \<^item> \<open>Proc_Life\<close>: \<^verbatim>\<open>proc.c\<close>, \<^verbatim>\<open>fork.c\<close>, \<^verbatim>\<open>wait.c\<close>. Exit wakes those who wait, \<open>waitpid\<close> collects a
    child once and gives its status.
  \<^item> \<open>Vfs_Types\<close>, \<open>Vfs\<close>, \<open>Vfs_Lookup\<close>: \<^verbatim>\<open>vfs.h\<close> and \<^verbatim>\<open>vfs.c\<close>, with reference counts. The locale
    \<open>vnode_tables\<close> is what the layer expects of a file system; from it every path resolution is
    shown to leak no reference.
  \<^item> \<open>Initrd\<close>, \<open>Initrd_Tree\<close>, \<open>Initrd_Ops\<close>, \<open>Vfs_Boot\<close>: \<^verbatim>\<open>initrd.c\<close>, its invariant \<open>fs_wf\<close>, the
    interpretation of \<open>vnode_tables\<close>, and the exact effect of creating, linking and removing entries.
  \<^item> \<open>Ustar\<close>: the loading of an archive; an archive of regular files boots to a tree with these files.
  \<^item> \<open>Cstring\<close>: \<^verbatim>\<open>libc/string\<close>, \<^verbatim>\<open>libc/ctype\<close> and the number conversions, on byte memory.

  \<^bold>\<open>Conventions.\<close> Sizes and addresses that may wrap are words of their width. Counters that would
  wrap only after \<open>2 ^ 32\<close> objects, and addresses inside a region that is known not to wrap, are
  \<open>nat\<close>; the theory that does so says it. Loops over pointers and loops that need not end are
  \<open>partial_function (option)\<close>, and that they return is proved where it is claimed (\<open>hmalloc\<close>, the
  queues, path resolution, the archive); no fuel is used. Path resolution ends because the source
  follows at most 40 links. What an operation asks of the heap is an argument that says what it gets.

  \<^bold>\<open>Not modelled.\<close>
  \<^item> Concurrency inside a critical section: there is one processor and interrupts are off, so
    spin locks have no counterpart; interleavings of whole operations are sequences of steps.
  \<^item> Stale entries of the translation buffer: only the flushes are recorded.
  \<^item> Calls between components that only pass memory on: what \<open>malloc\<close> and \<open>slab_alloc\<close> return is an
    argument of their callers.
  \<^item> The ELF loader, \<open>execve\<close> and the boot modules: they fill user memory, whose bytes the model of
    the address space does not have.
  \<^item> Device files, terminal, keyboard, interrupt controller, timer chip, serial line, descriptor
    tables and assembly entry code: port and memory-mapped I/O.
  \<^item> The system call layer: checks of user pointers and translation of error codes around the modelled
    operations; standard I/O and the stubs of the C library; the user programs; the kernel's tests.
  \<^item> The font and the boot protocols' headers: data only.
\<close>

end
